(* ===== verification/Prelude.thy ===== *)
theory Prelude
  imports Main "HOL-Library.Word"
begin

text \<open>
  Shared vocabulary of the development: names for the C integer types, byte memory and
  byte strings as the C code sees them, and the lemma collections the component theories
  use.

  A C pointer to bytes that a function only reads is a total function \<open>mem\<close> from offsets to
  bytes, so that a lemma can say which offsets a routine really looks at. A NUL-terminated
  string is the list of its bytes before the terminator, read through \<open>cat\<close>: at the end of
  the list the reader sees the terminator.
\<close>

unbundle bit_operations_syntax

named_theorems word_arith \<open>facts that turn shifts and masks of machine words into arithmetic\<close>
named_theorems frame_simps \<open>which parts of a state an operation leaves alone\<close>

type_synonym u8 = "8 word"
type_synonym u16 = "16 word"
type_synonym u32 = "32 word"
type_synonym u64 = "64 word"
type_synonym mem = "nat \<Rightarrow> u8"
type_synonym bytes = "u8 list"

type_synonym i64 = "64 word"
type_synonym addr = nat

subsection \<open>Result codes\<close>

text \<open>The result codes of \<^verbatim>\<open>sqlite3.h\<close> that the modelled routines return.\<close>

type_synonym rc = int

abbreviation SQLITE_OK :: rc where "SQLITE_OK \<equiv> 0"
abbreviation SQLITE_ERROR :: rc where "SQLITE_ERROR \<equiv> 1"
abbreviation SQLITE_PERM :: rc where "SQLITE_PERM \<equiv> 3"
abbreviation SQLITE_BUSY :: rc where "SQLITE_BUSY \<equiv> 5"
abbreviation SQLITE_NOMEM :: rc where "SQLITE_NOMEM \<equiv> 7"
abbreviation SQLITE_IOERR :: rc where "SQLITE_IOERR \<equiv> 10"
abbreviation SQLITE_CORRUPT :: rc where "SQLITE_CORRUPT \<equiv> 11"
abbreviation SQLITE_FULL :: rc where "SQLITE_FULL \<equiv> 13"
abbreviation SQLITE_CANTOPEN :: rc where "SQLITE_CANTOPEN \<equiv> 14"
abbreviation SQLITE_MISUSE :: rc where "SQLITE_MISUSE \<equiv> 21"
abbreviation SQLITE_NOLFS :: rc where "SQLITE_NOLFS \<equiv> 22"
abbreviation SQLITE_DONE :: rc where "SQLITE_DONE \<equiv> 101"

subsection \<open>Strings\<close>

text \<open>Reading a NUL-terminated string: the byte at an index, 0 at and after its end.\<close>

definition cat :: "bytes \<Rightarrow> nat \<Rightarrow> u8" where
  "cat z i = (if i < length z then z ! i else 0)"

lemma cat_Nil [simp]: "cat [] i = 0"
  by (simp add: cat_def)

lemma cat_Cons_0 [simp]: "cat (c # z) 0 = c"
  by (simp add: cat_def)

lemma cat_Cons_Suc [simp]: "cat (c # z) (Suc i) = cat z i"
  by (simp add: cat_def)

lemma bit_128 [simp]: "bit (128 :: int) n \<longleftrightarrow> n = 7"
  using bit_exp_iff [of 7 n, where 'a = int] by auto

subsection \<open>Shifts and masks as arithmetic\<close>

text \<open>C's shift operators on unsigned values.\<close>

definition shl :: "'a::len word \<Rightarrow> nat \<Rightarrow> 'a word" where
  "shl x n = push_bit n x"

definition shr :: "'a::len word \<Rightarrow> nat \<Rightarrow> 'a word" where
  "shr x n = drop_bit n x"

lemma bit_shl [bit_simps]: "bit (shl x n :: 'a::len word) i \<longleftrightarrow> n \<le> i \<and> i < LENGTH('a) \<and> bit x (i - n)"
  by (auto simp: shl_def bit_simps)

lemma bit_shr [bit_simps]: "bit (shr x n :: 'a::len word) i \<longleftrightarrow> bit x (n + i)"
  by (simp add: shr_def bit_simps)

lemma unat_shr [word_arith]: "unat (shr v n :: 'a::len word) = unat v div 2 ^ n"
  unfolding shr_def by (simp only: unat_drop_bit_eq) (simp only: drop_bit_eq_div)

lemma shr_shr [simp]: "shr (shr v m) n = shr v (m + n)"
  by (rule bit_word_eqI) (simp add: bit_simps add.assoc)

lemma shr_0 [simp]: "shr v 0 = v"
  by (simp add: shr_def)

lemma shr_zero [simp]: "shr 0 n = 0"
  by (simp add: shr_def)

lemma shl_zero [simp]: "shl 0 n = 0"
  by (simp add: shl_def)

lemma unat_and_mask [word_arith]: "unat (v AND mask n :: 'a::len word) = unat v mod 2 ^ n"
  by (metis take_bit_eq_mask take_bit_eq_mod unsigned_take_bit_eq)

lemma unat_or_disj: "x AND y = 0 \<Longrightarrow> unat (x OR y :: 'a::len word) = unat x + unat y"
  by (metis disjunctive_add_eq_or unsigned_or_eq unsigned_and_eq unsigned_0)

lemma shl_or_mask [simp]: "shl x n AND (y AND mask n) = (0 :: 'a::len word)"
  by (rule bit_word_eqI) (auto simp: bit_simps)

lemma shl_shr_mask: "shl (shr x n) n OR (x AND mask n) = (x :: 'a::len word)"
  by (rule bit_word_eqI) (auto simp: bit_simps)

lemma shr_eq_0_iff: "shr v k = 0 \<longleftrightarrow> (\<forall>n\<ge>k. \<not> bit v n)"
proof
  assume z: "shr v k = 0"
  show "\<forall>n\<ge>k. \<not> bit v n"
  proof (intro allI impI)
    fix n assume "k \<le> n"
    then have "bit v n = bit (shr v k) (n - k)" by (simp add: bit_shr)
    then show "\<not> bit v n" by (simp add: z)
  qed
next
  assume "\<forall>n\<ge>k. \<not> bit v n"
  then show "shr v k = 0" by (intro bit_word_eqI) (simp add: bit_shr)
qed

lemma shr_beyond [simp]: "LENGTH('a) \<le> k \<Longrightarrow> shr (v :: 'a::len word) k = 0"
  by (auto simp: shr_eq_0_iff dest: bit_imp_le_length)

text \<open>A word whose bits from position \<open>k\<close> on are clear.\<close>

definition fits :: "nat \<Rightarrow> 'a::len word \<Rightarrow> bool" where
  "fits k x \<longleftrightarrow> (\<forall>n\<ge>k. \<not> bit x n)"

lemma fitsD: "fits k x \<Longrightarrow> bit x n \<Longrightarrow> n < k"
  unfolding fits_def using not_less by blast

lemma fits_0 [simp]: "fits 0 0"
  by (simp add: fits_def)

lemma mask_7: "127 = (mask 7 :: 'a::len word)"
  by (simp add: mask_numeral)

lemma mask_8: "255 = (mask 8 :: 'a::len word)"
  by (simp add: mask_numeral)

lemma and_128_iff: "(c :: u8) AND 128 = 0 \<longleftrightarrow> \<not> bit c 7"
proof -
  have "(128 :: u8) = push_bit 7 1" by simp
  then show ?thesis by (metis (no_types) and_exp_eq_0_iff_not_bit push_bit_of_1)
qed

lemma low7: "(c :: u8) AND 128 = 0 \<Longrightarrow> c AND 127 = c"
  unfolding and_128_iff mask_7
  by (rule bit_word_eqI) (auto simp: bit_simps less_Suc_eq numeral_eq_Suc)


lemma uint_same [simp]: "uint a = uint b \<longleftrightarrow> a = b"
  by (simp add: word_uint_eq_iff)

lemma u8_less: "unat (c :: u8) < 256"
  using unsigned_less [of c] by simp

lemma u8_uint_less: "uint (c :: u8) < 256"
  using unsigned_less [of c] by simp

end
