(* ===== verification/Varint.thy ===== *)
theory Varint
  imports Prelude
begin

text \<open>
  The variable-length integers of the file format: \<^verbatim>\<open>sqlite3PutVarint\<close>,
  \<^verbatim>\<open>sqlite3GetVarint\<close>, \<^verbatim>\<open>sqlite3GetVarint32\<close> and \<^verbatim>\<open>sqlite3VarintLen\<close>
  of \<^verbatim>\<open>util.c\<close>. A routine that writes returns the number of bytes written and the
  memory after the writes. The reader is the unrolled 32-bit fast path followed by the
  64-bit loop, as in the source; \<open>varint_ref\<close> is the plain nine-byte loop it is compared
  with.
\<close>

unbundle bit_operations_syntax

subsection \<open>The code\<close>

text \<open>One encoded byte: the low seven bits of the value and the continuation flag.\<close>

definition vbyte :: "u64 \<Rightarrow> u8" where
  "vbyte v = (ucast v AND 127) OR 128"

text \<open>The loop \<^verbatim>\<open>for(i=7; i>=0; i--)\<close> of the nine-byte form, from position \<open>i - 1\<close> down.\<close>

fun put_varint_hi :: "nat \<Rightarrow> u64 \<Rightarrow> mem \<Rightarrow> mem" where
  "put_varint_hi 0 v p = p"
| "put_varint_hi (Suc i) v p =
     put_varint_hi i (shr v 7) (p(i := vbyte v))"

lemma drop7_less: "shr (v::u64) 7 \<noteq> 0 \<Longrightarrow> unat (shr v 7) < unat v"
proof -
  assume "shr v 7 \<noteq> 0"
  then have "unat v \<noteq> 0" by (auto simp: unat_eq_zero)
  then show ?thesis by (simp add: word_arith)
qed

text \<open>The bytes of \<^verbatim>\<open>buf\<close>, filled by the do-while loop, lowest group first.\<close>

function put_varint_buf :: "u64 \<Rightarrow> bytes" where
  "put_varint_buf v =
     vbyte v #
     (if shr v 7 \<noteq> 0 then put_varint_buf (shr v 7) else [])"
  by pat_completeness auto
termination
  by (relation "measure unat") (auto simp: drop7_less)
declare put_varint_buf.simps [simp del]

text \<open>The copy loop \<^verbatim>\<open>for(i=0, j=n-1; j>=0; j--, i++)\<close>, with \<open>j + 1\<close> entries to go.\<close>

fun put_varint_copy :: "bytes \<Rightarrow> nat \<Rightarrow> nat \<Rightarrow> mem \<Rightarrow> mem" where
  "put_varint_copy buf i 0 p = p"
| "put_varint_copy buf i (Suc j) p = put_varint_copy buf (Suc i) j (p(i := buf ! j))"

definition sqlite3PutVarint :: "mem \<Rightarrow> u64 \<Rightarrow> nat \<times> mem" where
  "sqlite3PutVarint p v =
     (if v AND shl 0xff000000 32 \<noteq> 0
      then (9, put_varint_hi 8 (shr v 8) (p(8 := ucast v)))
      else let buf = put_varint_buf v;
               buf' = buf[0 := (buf ! 0) AND 127];
               n = length buf
           in (n, put_varint_copy buf' 0 n p))"

text \<open>
  The loop of the reader. The source leaves it when \<^verbatim>\<open>n==9\<close> after the increment; it is
  entered with \<^verbatim>\<open>n=4\<close>, so the test \<open>9 \<le> n'\<close> is the same on every call.
\<close>

function get_varint_loop :: "mem \<Rightarrow> nat \<Rightarrow> u64 \<Rightarrow> nat \<times> u64" where
  "get_varint_loop p n x =
     (let c = p n; n' = Suc n in
      if n' \<ge> 9 then (n', shl x 8 OR ucast c)
      else let x' = shl x 7 OR ucast (c AND 127) in
           if c AND 128 \<noteq> 0 then get_varint_loop p n' x' else (n', x'))"
  by pat_completeness auto
termination
  by (relation "measure (\<lambda>(p, n, x). 9 - n)") auto
declare get_varint_loop.simps [simp del]

definition sqlite3GetVarint :: "mem \<Rightarrow> nat \<times> u64" where
  "sqlite3GetVarint p =
     (let c = p 0 in if c AND 128 = 0 then (1, ucast c) else
      let x = ucast (c AND 127) :: u32; c = p 1 in
      if c AND 128 = 0 then (2, ucast (shl x 7 OR ucast c)) else
      let x = shl x 7 OR ucast (c AND 127); c = p 2 in
      if c AND 128 = 0 then (3, ucast (shl x 7 OR ucast c)) else
      let x = shl x 7 OR ucast (c AND 127); c = p 3 in
      if c AND 128 = 0 then (4, ucast (shl x 7 OR ucast c)) else
      let x64 = ucast (shl x 7 OR ucast (c AND 127)) in
      get_varint_loop p 4 x64)"

function get_varint32_loop :: "mem \<Rightarrow> nat \<Rightarrow> u32 \<Rightarrow> nat \<times> u32" where
  "get_varint32_loop p n x =
     (let c = p n; x' = shl x 7 OR ucast (c AND 127); n' = Suc n in
      if c AND 128 \<noteq> 0 \<and> n' < 9 then get_varint32_loop p n' x' else (n', x'))"
  by pat_completeness auto
termination
  by (relation "measure (\<lambda>(p, n, x). 9 - n)") auto
declare get_varint32_loop.simps [simp del]

definition sqlite3GetVarint32 :: "mem \<Rightarrow> nat \<times> u32" where
  "sqlite3GetVarint32 p =
     (if 0 \<le> sint (p 0) then (1, ucast (p 0)) else
      let x = ucast (p 0 AND 127) in
      if 0 \<le> sint (p 1) then (2, shl x 7 OR ucast (p 1)) else
      let x = shl x 7 OR ucast (p 1 AND 127) in
      get_varint32_loop p 2 x)"

function varint_len_loop :: "nat \<Rightarrow> u64 \<Rightarrow> nat" where
  "varint_len_loop i v =
     (let i' = Suc i; v' = shr v 7 in
      if v' \<noteq> 0 \<and> i' < 9 then varint_len_loop i' v' else i')"
  by pat_completeness auto
termination
  by (relation "measure (\<lambda>(i, v). 9 - i)") auto
declare varint_len_loop.simps [simp del]

definition sqlite3VarintLen :: "u64 \<Rightarrow> nat" where
  "sqlite3VarintLen v = varint_len_loop 0 v"

text \<open>The reference reader: the plain loop from the first byte.\<close>

definition varint_ref :: "mem \<Rightarrow> nat \<times> u64" where
  "varint_ref p = get_varint_loop p 0 0"

subsection \<open>One step of the reader\<close>

definition vstep :: "'a::len word \<Rightarrow> u8 \<Rightarrow> 'a word" where
  "vstep x c = shl x 7 OR ucast (c AND 127)"

lemma bit_vstep: "bit (vstep x c :: 'a::len word) n \<longleftrightarrow> n < LENGTH('a) \<and> (if n < 7 then bit c n else bit x (n - 7))"
  unfolding vstep_def mask_7 by (auto simp: bit_simps)

lemma fits_step: "fits k x \<Longrightarrow> fits (k + 7) (vstep x c)"
  unfolding fits_def by (auto simp: bit_vstep)

lemma widen_step: "fits k x \<Longrightarrow> k + 7 \<le> 32 \<Longrightarrow> (ucast (vstep x c :: u32) :: u64) = vstep (ucast x) c"
  by (rule bit_word_eqI) (auto simp: bit_vstep bit_simps dest!: fitsD)

lemma vstep_0: "vstep 0 c = ucast (c AND 127)" by (simp add: vstep_def)

lemma vstep_last: "c AND 128 = 0 \<Longrightarrow> shl x 7 OR ucast c = vstep x c"
  by (simp add: vstep_def low7)

lemma vstep_mask: "shl x 7 OR ucast (c AND 127) = vstep x c"
  by (simp add: vstep_def)

lemma widen_0: "(ucast (ucast (c AND 127 :: u8) :: u32) :: u64) = ucast (c AND 127)"
  unfolding mask_7 by (rule bit_word_eqI) (auto simp: bit_simps)

lemma ucast_last: "c AND 128 = 0 \<Longrightarrow> ucast c = vstep 0 c" by (simp add: low7 vstep_0)

lemma get_varint_loop_lt: "n < 8 \<Longrightarrow> get_varint_loop p n x =
   (if p n AND 128 \<noteq> 0 then get_varint_loop p (Suc n) (vstep x (p n)) else (Suc n, vstep x (p n)))"
  by (subst get_varint_loop.simps) (simp add: Let_def vstep_def)

lemma get_varint_loop_8: "get_varint_loop p 8 x = (9, shl x 8 OR ucast (p 8))"
  by (subst get_varint_loop.simps) (simp add: Let_def)

lemma fits_1: "fits 7 (vstep (0 :: u32) a)"
  using fits_step[of 0 "0::u32" a] by simp

lemma fits_2: "fits 14 (vstep (vstep (0 :: u32) a) b)"
  using fits_step[OF fits_1, of a b] by simp

lemma fits_3: "fits 21 (vstep (vstep (vstep (0 :: u32) a) b) c)"
  using fits_step[OF fits_2, of a b c] by simp

lemma loop_0: "get_varint_loop p 0 x = (if p 0 AND 128 \<noteq> 0 then get_varint_loop p 1 (vstep x (p 0)) else (1, vstep x (p 0)))"
  using get_varint_loop_lt[of 0] by simp

lemma loop_1: "get_varint_loop p 1 x = (if p 1 AND 128 \<noteq> 0 then get_varint_loop p 2 (vstep x (p 1)) else (2, vstep x (p 1)))"
  using get_varint_loop_lt[of 1] by (simp add: numeral_2_eq_2)

lemma loop_2: "get_varint_loop p 2 x = (if p 2 AND 128 \<noteq> 0 then get_varint_loop p 3 (vstep x (p 2)) else (3, vstep x (p 2)))"
  using get_varint_loop_lt[of 2] by simp

lemma loop_3: "get_varint_loop p 3 x = (if p 3 AND 128 \<noteq> 0 then get_varint_loop p 4 (vstep x (p 3)) else (4, vstep x (p 3)))"
  using get_varint_loop_lt[of 3] by simp

lemma widen: "(ucast (vstep (vstep 0 a) b :: u32) :: u64) = vstep (vstep 0 a) b"
  "(ucast (vstep (vstep (vstep 0 a) b) c :: u32) :: u64) = vstep (vstep (vstep 0 a) b) c"
  "(ucast (vstep (vstep (vstep (vstep 0 a) b) c) d :: u32) :: u64) = vstep (vstep (vstep (vstep 0 a) b) c) d"
proof -
  show 1: "(ucast (vstep (vstep 0 a) b :: u32) :: u64) = vstep (vstep 0 a) b"
    using widen_step[OF fits_1] by (simp add: vstep_0 widen_0)
  show 2: "(ucast (vstep (vstep (vstep 0 a) b) c :: u32) :: u64) = vstep (vstep (vstep 0 a) b) c"
    using widen_step[OF fits_2] 1 by simp
  show "(ucast (vstep (vstep (vstep (vstep 0 a) b) c) d :: u32) :: u64) = vstep (vstep (vstep (vstep 0 a) b) c) d"
    using widen_step[OF fits_3] 2 by simp
qed

subsection \<open>What is written\<close>

lemma get_varint_eq_ref: "sqlite3GetVarint p = varint_ref p"
proof -
  have "ucast (p 0 AND 127) = vstep (0::u32) (p 0)" by (simp add: vstep_0)
  then show ?thesis
  unfolding sqlite3GetVarint_def varint_ref_def Let_def
  by (simp only: loop_0 loop_1 loop_2 loop_3 vstep_mask widen vstep_last split: if_split) (simp add: vstep_last ucast_last[where c = "p 0"] widen)
qed

lemma bit_vbyte: "bit (vbyte w) n \<longleftrightarrow> n < 8 \<and> (n = 7 \<or> bit w n)"
  unfolding vbyte_def mask_7 by (auto simp: bit_simps)

lemma vbyte_more [simp]: "vbyte w AND 128 \<noteq> 0" by (simp add: and_128_iff bit_vbyte)

lemma vbyte_end [simp]: "(vbyte w AND 127) AND 128 = 0"
  unfolding and_128_iff mask_7 by (simp add: bit_simps)

lemma vstep_vbyte [simp]: "vstep (shr w 7) (vbyte w) = w"
  by (rule bit_word_eqI) (auto simp: bit_vstep bit_vbyte bit_simps)

lemma vstep_vbyte_end [simp]: "vstep (shr w 7) (vbyte w AND 127) = w"
  unfolding mask_7 by (rule bit_word_eqI) (auto simp: bit_vstep bit_vbyte bit_simps)

lemma put_varint_hi_nth:
  "put_varint_hi m w p k = (if k < m then vbyte (shr w (7 * (m - 1 - k))) else p k)"
proof (induction m arbitrary: w p)
  case (Suc m)
  then show ?case by (auto simp: less_Suc_eq Suc_diff_Suc[symmetric] simp flip: mult_Suc_right)
qed simp

lemma put_varint_copy_nth:
  "put_varint_copy buf i j p k = (if i \<le> k \<and> k < i + j then buf ! (j - 1 - (k - i)) else p k)"
  by (induction buf i j p rule: put_varint_copy.induct) (auto simp: Suc_le_eq not_le simp del: fun_upd_apply, auto)

declare put_varint_copy.simps [simp del]

lemma put_varint_buf_ne [simp]: "put_varint_buf v \<noteq> []"
  by (subst put_varint_buf.simps) simp

lemma put_varint_buf_nth:
  "k < length (put_varint_buf v) \<Longrightarrow> put_varint_buf v ! k = vbyte (shr v (7 * k))"
proof (induction v arbitrary: k rule: put_varint_buf.induct)
  case (1 v)
  from "1.prems" show ?case
    by (cases k) (auto simp: put_varint_buf.simps[of v] "1.IH" split: if_splits)
qed

lemma put_varint_buf_length: "shr v (7 * length (put_varint_buf v)) = 0"
proof (induction v rule: put_varint_buf.induct)
  case (1 v)
  then show ?case by (cases "shr v 7 = 0") (auto simp: put_varint_buf.simps[of v])
qed

lemma put_varint_buf_least: "k < length (put_varint_buf v) \<Longrightarrow> 0 < k \<Longrightarrow> shr v (7 * k) \<noteq> 0"
proof (induction v arbitrary: k rule: put_varint_buf.induct)
  case (1 v)
  then show ?case
    by (cases k) (auto simp: put_varint_buf.simps[of v] split: if_splits, (metis gr0I mult_0_right shr_0 shr_shr)+)
qed

lemma loop_run:
  assumes "\<forall>i<m. p i = vbyte (shr w (7 * (m - 1 - i)))" and "m \<le> 8" and "k \<le> m"
  shows "get_varint_loop p 0 (shr w (7 * m)) = get_varint_loop p k (shr w (7 * (m - k)))"
  using assms(3)
proof (induction k)
  case (Suc k)
  have "shr w (7 * (m - k)) = shr (shr w (7 * (m - Suc k))) 7"
    using Suc.prems by (simp add: Suc_diff_Suc[symmetric] add.commute)
  then have "vstep (shr w (7 * (m - k))) (p k) = shr w (7 * (m - Suc k))"
    using Suc.prems assms(1) by (simp del: shr_shr)
  moreover have "p k AND 128 \<noteq> 0" using Suc.prems assms(1) by simp
  ultimately show ?case using Suc assms(2) by (simp add: get_varint_loop_lt)
qed simp

lemma hi_test: "v AND shl 0xff000000 32 = 0 \<longleftrightarrow> shr v 56 = (0 :: u64)"
proof -
  have "shl 0xff000000 32 = (shl (mask 8) 56 :: u64)"
    by (simp add: shl_def mask_eq_exp_minus_1)
  moreover have "v AND shl (mask 8) 56 = 0 \<longleftrightarrow> shr v 56 = (0 :: u64)"
  proof -
    have "bit (v AND shl (mask 8) 56) n \<longleftrightarrow> 56 \<le> n \<and> bit v n" for n
      using bit_imp_le_length[of v n] by (auto simp: bit_simps)
    then have "v AND shl (mask 8) 56 = 0 \<longleftrightarrow> (\<forall>n. \<not> (56 \<le> n \<and> bit v n))"
      using bit_imp_le_length[of v] unfolding bit_eq_iff [of _ "0 :: u64"] by auto
    then show ?thesis by (auto simp: shr_eq_0_iff)
  qed
  ultimately show ?thesis by simp
qed

lemma big_length: "shr v 56 = 0 \<Longrightarrow> length (put_varint_buf v) \<le> 8"
  using put_varint_buf_least[of 8 v] by (cases "8 < length (put_varint_buf v)") auto

lemma put_small_nth:
  assumes "shr v 56 = 0"
  shows "sqlite3PutVarint p v = (length (put_varint_buf v), put_varint_copy ((put_varint_buf v)[0 := vbyte v AND 127]) 0 (length (put_varint_buf v)) p)"
  using assms put_varint_buf_nth [of 0 v] by (simp add: sqlite3PutVarint_def hi_test Let_def)

lemma put_small_read:
  assumes "shr v 56 = 0"
  shows "varint_ref (snd (sqlite3PutVarint p v)) = (length (put_varint_buf v), v)"
proof -
  define m where "m = length (put_varint_buf v) - 1"
  have L: "length (put_varint_buf v) = Suc m"
    using put_varint_buf_ne[of v] by (cases "put_varint_buf v") (auto simp: m_def)
  have m: "m < 8" using big_length[OF assms] L by simp
  define q where "q = snd (sqlite3PutVarint p v)"
  have q: "\<forall>i<m. q i = vbyte (shr (shr v 7) (7 * (m - 1 - i)))"
  proof (intro allI impI)
    fix i assume i: "i < m"
    then have "q i = put_varint_buf v ! (m - i)"
      by (auto simp: q_def put_small_nth[OF assms] put_varint_copy_nth L nth_list_update Suc_le_eq)
    also have "\<dots> = vbyte (shr v (7 * (m - i)))"
      using i L by (intro put_varint_buf_nth) simp
    also have "7 * (m - i) = 7 + 7 * (m - 1 - i)" using i by simp
    finally show "q i = vbyte (shr (shr v 7) (7 * (m - 1 - i)))" by simp
  qed
  have e: "q m = vbyte v AND 127"
    by (simp add: q_def put_small_nth[OF assms] put_varint_copy_nth L)
  have "shr (shr v 7) (7 * m) = 0" using put_varint_buf_length[of v] L by simp
  then have "varint_ref q = get_varint_loop q m (shr v 7)"
    using loop_run[OF q, of m] m by (simp add: varint_ref_def)
  also have "\<dots> = (Suc m, v)" using m by (simp add: get_varint_loop_lt e)
  finally show ?thesis by (simp add: q_def L)
qed

lemma put_big_read:
  assumes "shr v 56 \<noteq> 0"
  shows "varint_ref (snd (sqlite3PutVarint p v)) = (9, v)"
proof -
  define q where "q = snd (sqlite3PutVarint p v)"
  have q: "\<forall>i<8. q i = vbyte (shr (shr v 8) (7 * (8 - 1 - i)))" and e: "q 8 = ucast v"
    using assms by (simp_all add: q_def sqlite3PutVarint_def hi_test put_varint_hi_nth)
  have z: "shr (shr v 8) (7 * 8) = 0" by simp
  have "shl (shr v 8) 8 OR ucast (ucast v :: u8) = v"
    by (rule bit_word_eqI) (auto simp: bit_simps)
  then have "varint_ref q = (9, v)"
    using loop_run[OF q, of 8] z by (simp add: varint_ref_def get_varint_loop_8 e)
  then show ?thesis by (simp add: q_def)
qed

lemma put_length: "fst (sqlite3PutVarint p v) = (if shr v 56 = 0 then length (put_varint_buf v) else 9)"
  by (simp add: sqlite3PutVarint_def hi_test Let_def)

lemma put_length_min: "fst (sqlite3PutVarint p v) = min 9 (length (put_varint_buf v))"
proof (cases "shr v 56 = 0")
  case True
  then show ?thesis using big_length [OF True] by (simp add: put_length)
next
  case False
  then have "\<not> length (put_varint_buf v) \<le> 8"
    using put_varint_buf_length [of v] by (auto simp: shr_eq_0_iff)
  with False show ?thesis by (simp add: put_length)
qed

lemma put_frame [frame_simps]:
  "fst (sqlite3PutVarint p v) \<le> i \<Longrightarrow> snd (sqlite3PutVarint p v) i = p i"
  using big_length [of v]
  by (cases "shr v 56 = 0")
     (auto simp: put_varint_copy_nth sqlite3PutVarint_def hi_test put_varint_hi_nth Let_def)

subsection \<open>The other readers\<close>

lemma varint_len_loop_min:
  "i < 9 \<Longrightarrow> varint_len_loop i v = min 9 (i + length (put_varint_buf v))"
proof (induction i v rule: varint_len_loop.induct)
  case (1 i v)
  then show ?case
    by (simp add: varint_len_loop.simps [of i v] put_varint_buf.simps [of v] Let_def)
qed

lemma sint_nonneg_iff: "0 \<le> sint (c :: u8) \<longleftrightarrow> c AND 128 = 0"
  by (simp add: and_128_iff bit_last_iff [symmetric] not_less [symmetric])

lemma loop32_agrees:
  "n < 9 \<Longrightarrow>
   fst (get_varint32_loop p n (ucast x)) = fst (get_varint_loop p n x) \<and>
   (fst (get_varint_loop p n x) < 9 \<longrightarrow>
     snd (get_varint32_loop p n (ucast x)) = ucast (snd (get_varint_loop p n x)))"
proof (induction p n x rule: get_varint_loop.induct)
  case (1 p n x)
  have narrow: "(ucast (vstep x c :: u64) :: u32) = vstep (ucast x) c" for c
    by (rule bit_word_eqI) (auto simp: bit_vstep bit_simps)
  show ?case
  proof (cases "n = 8")
    case True
    then show ?thesis
      by (simp add: get_varint_loop_8 get_varint32_loop.simps [of p 8] Let_def)
  next
    case False
    with "1.prems" have n: "n < 8" by simp
    show ?thesis
      using "1.IH" [OF refl refl _ refl] n
      by (simp add: get_varint_loop_lt get_varint32_loop.simps [of p n] Let_def
          vstep_mask narrow [symmetric] not_le)
  qed
qed

lemma loop_bounds: "n < 9 \<Longrightarrow> n < fst (get_varint_loop p n x) \<and> fst (get_varint_loop p n x) \<le> 9"
proof (induction p n x rule: get_varint_loop.induct)
  case (1 p n x)
  then show ?case
    by (cases "n = 8") (fastforce simp: get_varint_loop_8 get_varint_loop_lt Let_def vstep_mask)+
qed

lemma loop_local:
  "n < 9 \<Longrightarrow> \<forall>i. n \<le> i \<and> i < fst (get_varint_loop p n x) \<longrightarrow> q i = p i \<Longrightarrow>
   get_varint_loop q n x = get_varint_loop p n x"
proof (induction p n x rule: get_varint_loop.induct)
  case (1 p n x)
  have qn: "q n = p n" using "1.prems" loop_bounds [of n p x] by auto
  show ?case
  proof (cases "n = 8")
    case True
    with qn show ?thesis by (simp add: get_varint_loop_8)
  next
    case False
    with "1.prems" have n: "n < 8" by simp
    show ?thesis
      using "1.IH" [OF refl refl _ refl] "1.prems" n qn
      by (auto simp: get_varint_loop_lt Let_def vstep_mask not_le)
  qed
qed

lemma get32_agrees:
  "fst (sqlite3GetVarint32 p) = fst (varint_ref p) \<and>
   (fst (varint_ref p) < 9 \<longrightarrow> snd (sqlite3GetVarint32 p) = ucast (snd (varint_ref p)))"
proof -
  have narrow: "(ucast (vstep x c :: u64) :: u32) = vstep (ucast x) c" for c x
    by (rule bit_word_eqI) (auto simp: bit_vstep bit_simps)
  have z: "ucast (c AND 127) = vstep (0 :: u32) c" for c :: u8 by (simp add: vstep_0)
  have "sqlite3GetVarint32 p =
    (if p 0 AND 128 = 0 then (1, vstep 0 (p 0))
     else if p 1 AND 128 = 0 then (2, vstep (vstep 0 (p 0)) (p 1))
     else get_varint32_loop p 2 (vstep (vstep 0 (p 0)) (p 1)))"
    unfolding sqlite3GetVarint32_def sint_nonneg_iff Let_def z [of "p 0"] vstep_mask
    by (simp add: vstep_last ucast_last [where c = "p 0"])
  then show ?thesis
    using loop32_agrees [of 2 p "vstep (vstep 0 (p 0)) (p 1)"]
    by (simp add: varint_ref_def loop_0 loop_1 narrow del: One_nat_def)
qed

subsection \<open>Properties\<close>

text \<open>
  \<bold>\<open>C9\<close> Round trip: reading the bytes that \<^verbatim>\<open>sqlite3PutVarint\<close> wrote at any place
  returns the 64-bit value, and the number of bytes read is the number reported as written.
\<close>

theorem varint_roundtrip:
  "sqlite3GetVarint (snd (sqlite3PutVarint p v)) = (fst (sqlite3PutVarint p v), v)"
  by (simp add: get_varint_eq_ref put_length put_small_read put_big_read)

text \<open>
  The unrolled reader with its 32-bit fast path is the plain nine-byte loop on all
  inputs.
\<close>

lemma varint_fast_path: "sqlite3GetVarint p = varint_ref p"
  by (rule get_varint_eq_ref)

text \<open>
  \<bold>\<open>C10\<close> The reader consumes between one and nine bytes and looks at no byte behind
  those it reports, so it never runs past the end of a complete encoding.
\<close>

theorem varint_reads_only_its_bytes:
  assumes "\<forall>i < fst (sqlite3GetVarint p). q i = p i"
  shows "sqlite3GetVarint q = sqlite3GetVarint p \<and> 1 \<le> fst (sqlite3GetVarint p) \<and> fst (sqlite3GetVarint p) \<le> 9"
  using assms loop_local [of 0 p 0 q] loop_bounds [of 0 p 0]
  by (simp add: get_varint_eq_ref varint_ref_def)

theorem varint_reads_only_its_bytes_witness:
  "sqlite3GetVarint (\<lambda>i. if i = 0 then 129 else if i = 1 then 5 else 77) = sqlite3GetVarint (\<lambda>i. if i = 0 then 129 else 5)"
proof -
  have 2: "fst (sqlite3GetVarint (\<lambda>i. if i = 0 then 129 else 5)) = 2"
    by (simp add: sqlite3GetVarint_def and_128_iff)
  show ?thesis
    by (rule varint_reads_only_its_bytes [THEN conjunct1]) (simp add: 2)
qed

text \<open>
  \<^verbatim>\<open>sqlite3VarintLen\<close> predicts the number of bytes \<^verbatim>\<open>sqlite3PutVarint\<close> writes, and the
  writer touches no byte behind those.
\<close>

lemma varint_len_exact:
  "sqlite3VarintLen v = fst (sqlite3PutVarint p v) \<and>
   (\<forall>i. i < sqlite3VarintLen v \<or> snd (sqlite3PutVarint p v) i = p i)"
proof -
  have *: "sqlite3VarintLen v = fst (sqlite3PutVarint p v)"
    using varint_len_loop_min [of 0 v] by (simp add: sqlite3VarintLen_def put_length_min)
  then show ?thesis using put_frame [of p v] not_less by auto
qed

text \<open>
  \<bold>\<open>C11\<close> The 32-bit reader consumes as many bytes as the 64-bit one and returns its value
  modulo \<open>2 ^ 32\<close> on every encoding of fewer than nine bytes.
\<close>

theorem varint32_agrees:
  assumes "fst (sqlite3GetVarint p) < 9"
  shows "sqlite3GetVarint32 p = (fst (sqlite3GetVarint p), ucast (snd (sqlite3GetVarint p)))"
  using get32_agrees [of p] assms by (simp add: get_varint_eq_ref prod_eq_iff)

theorem varint32_agrees_witness:
  "sqlite3GetVarint32 (\<lambda>i. if i = 0 then 129 else 5) = (2, 133)"
proof -
  have 2: "sqlite3GetVarint (\<lambda>i. if i = 0 then 129 else 5) = (2, 133)"
    by (simp add: sqlite3GetVarint_def and_128_iff) (simp add: shl_def mask_7)
  show ?thesis
    using varint32_agrees [of "\<lambda>i. if i = 0 then 129 else 5"] by (simp add: 2)
qed

end
