(* ===== verification/Fifo.thy ===== *)
theory Fifo
  imports Prelude
begin

text \<open>
  The rowid queue of \<^verbatim>\<open>vdbefifo.c\<close>: a singly linked list of pages of slots, written at
  the last page and read at the first. The heap of pages is explicit: a finite map from
  addresses to pages, \<open>None\<close> being the null pointer. What \<^verbatim>\<open>sqliteMallocRaw\<close> returns is an
  argument of the operation that allocates: \<open>None\<close> when memory is exhausted, otherwise an
  address and the arbitrary contents of the raw memory. The result \<open>None\<close> of an operation
  stands for a failed \<^verbatim>\<open>assert\<close> or the use of a dangling pointer.
\<close>

subsection \<open>The code\<close>

record FifoPage =
  nSlot :: nat
  iWrite :: nat
  iRead :: nat
  pNext :: "addr option"
  aSlot :: "nat \<Rightarrow> i64"

record Fifo =
  nEntry :: nat
  pFirst :: "addr option"
  pLast :: "addr option"

type_synonym page_heap = "addr \<Rightarrow> FifoPage option"
type_synonym malloced = "(addr \<times> (nat \<Rightarrow> i64)) option"

definition allocatePage :: "nat \<Rightarrow> malloced \<Rightarrow> page_heap \<Rightarrow> addr option \<times> page_heap" where
  "allocatePage n m h =
     (let n = (if n > 32767 then 32767 else n) in
      case m of
        None \<Rightarrow> (None, h)
      | Some (a, raw) \<Rightarrow>
          (Some a, h(a \<mapsto> \<lparr>nSlot = n, iWrite = 0, iRead = 0, pNext = None, aSlot = raw\<rparr>)))"

definition sqlite3VdbeFifoInit :: Fifo where
  "sqlite3VdbeFifoInit = \<lparr>nEntry = 0, pFirst = None, pLast = None\<rparr>"

text \<open>The end of the push: store the value in the page that has room.\<close>

definition fifo_store :: "i64 \<Rightarrow> addr \<Rightarrow> page_heap \<Rightarrow> Fifo \<Rightarrow> (rc \<times> page_heap \<times> Fifo) option" where
  "fifo_store val a h f =
     (case h a of
        None \<Rightarrow> None
      | Some pg \<Rightarrow>
          Some (SQLITE_OK,
                h(a \<mapsto> pg\<lparr>aSlot := (aSlot pg)(iWrite pg := val), iWrite := Suc (iWrite pg)\<rparr>),
                f\<lparr>nEntry := Suc (nEntry f)\<rparr>))"

definition sqlite3VdbeFifoPush ::
  "malloced \<Rightarrow> i64 \<Rightarrow> page_heap \<times> Fifo \<Rightarrow> (rc \<times> page_heap \<times> Fifo) option" where
  "sqlite3VdbeFifoPush m val = (\<lambda>(h, f).
     (case pLast f of
        None \<Rightarrow>
          (let (p, h1) = allocatePage 20 m h; f1 = f\<lparr>pLast := p, pFirst := p\<rparr> in
           case p of
             None \<Rightarrow> Some (SQLITE_NOMEM, h1, f1)
           | Some a \<Rightarrow> fifo_store val a h1 f1)
      | Some l \<Rightarrow>
          (case h l of
             None \<Rightarrow> None
           | Some pg \<Rightarrow>
               if iWrite pg \<ge> nSlot pg then
                 (let (p, h1) = allocatePage (nEntry f) m h; h2 = h1(l \<mapsto> pg\<lparr>pNext := p\<rparr>) in
                  case p of
                    None \<Rightarrow> Some (SQLITE_NOMEM, h2, f)
                  | Some a \<Rightarrow> fifo_store val a h2 (f\<lparr>pLast := p\<rparr>))
               else fifo_store val l h f)))"

text \<open>The pop returns the code, the value when there is one, and the new state.\<close>

definition sqlite3VdbeFifoPop ::
  "page_heap \<times> Fifo \<Rightarrow> (rc \<times> i64 option \<times> page_heap \<times> Fifo) option" where
  "sqlite3VdbeFifoPop = (\<lambda>(h, f).
     if nEntry f = 0 then Some (SQLITE_DONE, None, h, f)
     else case pFirst f of
       None \<Rightarrow> None
     | Some a \<Rightarrow>
         (case h a of
            None \<Rightarrow> None
          | Some pg \<Rightarrow>
              if \<not> (iWrite pg > iRead pg \<and> iWrite pg \<le> nSlot pg \<and> iRead pg < nSlot pg) then None
              else
                let val = aSlot pg (iRead pg);
                    pg1 = pg\<lparr>iRead := Suc (iRead pg)\<rparr>;
                    h1 = h(a \<mapsto> pg1);
                    f1 = f\<lparr>nEntry := nEntry f - 1\<rparr>
                in if iRead pg1 \<ge> iWrite pg1 then
                     let f2 = f1\<lparr>pFirst := pNext pg1\<rparr>; h2 = h1(a := None) in
                     if nEntry f2 = 0 then
                       if pLast f2 = Some a then Some (SQLITE_OK, Some val, h2, f2\<lparr>pLast := None\<rparr>)
                       else None
                     else if pFirst f2 \<noteq> None then Some (SQLITE_OK, Some val, h2, f2)
                     else None
                   else if nEntry f1 > 0 then Some (SQLITE_OK, Some val, h1, f1)
                   else None))"

partial_function (option) fifo_free_pages :: "addr option \<Rightarrow> page_heap \<Rightarrow> page_heap option" where
  "fifo_free_pages p h =
     (case p of
        None \<Rightarrow> Some h
      | Some a \<Rightarrow>
          (case h a of
             None \<Rightarrow> None
           | Some pg \<Rightarrow> fifo_free_pages (pNext pg) (h(a := None))))"

definition sqlite3VdbeFifoClear :: "page_heap \<times> Fifo \<Rightarrow> (page_heap \<times> Fifo) option" where
  "sqlite3VdbeFifoClear = (\<lambda>(h, f).
     (case fifo_free_pages (pFirst f) h of
        None \<Rightarrow> None
      | Some h' \<Rightarrow> Some (h', sqlite3VdbeFifoInit)))"

subsection \<open>The page list and its contents\<close>

fun pages :: "page_heap \<Rightarrow> addr option \<Rightarrow> addr list \<Rightarrow> bool" where
  "pages h p [] \<longleftrightarrow> p = None"
| "pages h p (a # as) \<longleftrightarrow> p = Some a \<and> (\<exists>pg. h a = Some pg \<and> pages h (pNext pg) as)"

definition page_slots :: "FifoPage \<Rightarrow> i64 list" where
  "page_slots pg = map (aSlot pg) [iRead pg ..< iWrite pg]"

definition page_ok :: "FifoPage \<Rightarrow> bool" where
  "page_ok pg \<longleftrightarrow> iRead pg < iWrite pg \<and> iWrite pg \<le> nSlot pg"

definition heap_slots :: "page_heap \<Rightarrow> addr list \<Rightarrow> i64 list" where
  "heap_slots h as = concat (map (\<lambda>a. page_slots (the (h a))) as)"

text \<open>The state holds the values \<open>vs\<close>, oldest first.\<close>

definition fifo_rep :: "page_heap \<times> Fifo \<Rightarrow> i64 list \<Rightarrow> bool" where
  "fifo_rep = (\<lambda>(h, f) vs. \<exists>as. pages h (pFirst f) as \<and> distinct as \<and>
     (\<forall>a\<in>set as. page_ok (the (h a))) \<and>
     pLast f = (if as = [] then None else Some (last as)) \<and>
     vs = heap_slots h as \<and> nEntry f = length vs)"

text \<open>What the allocator returns is unused memory.\<close>

definition fresh_alloc :: "malloced \<Rightarrow> page_heap \<times> Fifo \<Rightarrow> bool" where
  "fresh_alloc m s \<longleftrightarrow> (case m of None \<Rightarrow> True | Some (a, raw) \<Rightarrow> fst s a = None)"

lemma pages_in_dom: "pages h p as \<Longrightarrow> a \<in> set as \<Longrightarrow> \<exists>pg. h a = Some pg"
  by (induction as arbitrary: p) auto

lemma pages_cong:
  "\<forall>a\<in>set as. map_option pNext (h' a) = map_option pNext (h a) \<Longrightarrow> pages h' p as = pages h p as"
proof (induction as arbitrary: p)
  case (Cons a as)
  then show ?case by (cases "h a"; cases "h' a") auto
qed simp

lemma pages_upd_other [simp]: "a \<notin> set as \<Longrightarrow> pages (h(a := x)) p as = pages h p as"
  by (rule pages_cong) auto

lemma heap_slots_Nil [simp]: "heap_slots h [] = []"
  by (simp add: heap_slots_def)

lemma heap_slots_Cons [simp]: "heap_slots h (a # as) = page_slots (the (h a)) @ heap_slots h as"
  by (simp add: heap_slots_def)

lemma heap_slots_append [simp]: "heap_slots h (as @ bs) = heap_slots h as @ heap_slots h bs"
  by (simp add: heap_slots_def)

lemma heap_slots_upd_other [simp]: "a \<notin> set as \<Longrightarrow> heap_slots (h(a := x)) as = heap_slots h as"
  by (induction as) auto

lemma pages_snoc:
  "pages h p (as @ [l]) \<Longrightarrow> distinct (as @ [l]) \<Longrightarrow> a \<notin> set (as @ [l]) \<Longrightarrow> h l = Some pg \<Longrightarrow>
   h' = h(a \<mapsto> new, l \<mapsto> pg\<lparr>pNext := Some a\<rparr>) \<Longrightarrow> pNext new = None \<Longrightarrow>
   pages h' p (as @ [l, a])"
  by (induction as arbitrary: p) auto

lemma pages_last: "pages h p (as @ [l]) \<Longrightarrow> h l = Some pg \<Longrightarrow> pNext pg = None"
  by (induction as arbitrary: p) auto

lemma page_slots_empty: "iRead pg < iWrite pg \<Longrightarrow> page_slots pg \<noteq> []"
  by (simp add: page_slots_def)

lemma page_slots_hd:
  "iRead pg < iWrite pg \<Longrightarrow>
   page_slots pg = aSlot pg (iRead pg) # page_slots (pg\<lparr>iRead := Suc (iRead pg)\<rparr>)"
  by (simp add: page_slots_def upt_conv_Cons)

lemma page_slots_push:
  "iRead pg \<le> iWrite pg \<Longrightarrow>
   page_slots (pg\<lparr>aSlot := (aSlot pg)(iWrite pg := v), iWrite := Suc (iWrite pg)\<rparr>) =
   page_slots pg @ [v]"
  by (simp add: page_slots_def)

lemma fifo_rep_init: "fifo_rep (h, sqlite3VdbeFifoInit) []"
  by (auto simp: fifo_rep_def sqlite3VdbeFifoInit_def intro!: exI [of _ "[]"])

lemma fifo_store_rep:
  assumes "pages h (pFirst f) (as @ [l])" "distinct (as @ [l])"
    and "\<forall>a\<in>set as. page_ok (the (h a))" "h l = Some pg"
    and "iRead pg \<le> iWrite pg" "iWrite pg < nSlot pg" "pLast f = Some l"
    and "nEntry f = length (heap_slots h (as @ [l]))"
  shows "\<exists>s'. fifo_store v l h f = Some (SQLITE_OK, s') \<and> fifo_rep s' (heap_slots h (as @ [l]) @ [v])"
proof -
  let ?pg = "pg\<lparr>aSlot := (aSlot pg)(iWrite pg := v), iWrite := Suc (iWrite pg)\<rparr>"
  let ?h = "h(l \<mapsto> ?pg)"
  have "pages ?h (pFirst f) (as @ [l])"
    using assms(1,4) by (subst pages_cong [of _ _ h]) auto
  moreover have "heap_slots ?h (as @ [l]) = heap_slots h (as @ [l]) @ [v]"
    using assms(2,4,5) page_slots_push [of pg v] by simp
  moreover have "page_ok ?pg"
    using assms(5,6) by (simp add: page_ok_def)
  ultimately have "fifo_rep (?h, f\<lparr>nEntry := Suc (nEntry f)\<rparr>) (heap_slots h (as @ [l]) @ [v])"
    using assms(2,3,7,8) unfolding fifo_rep_def by (auto intro!: exI [of _ "as @ [l]"])
  then show ?thesis using assms(4) by (simp add: fifo_store_def)
qed

lemma push_rep:
  assumes "fifo_rep s vs" "fresh_alloc m s"
  shows "\<exists>rc s'. sqlite3VdbeFifoPush m v s = Some (rc, s') \<and>
    (rc = SQLITE_OK \<and> fifo_rep s' (vs @ [v]) \<or> rc = SQLITE_NOMEM \<and> m = None \<and> fifo_rep s' vs)"
proof -
  obtain h f where s: "s = (h, f)" by (cases s)
  from assms(1) s obtain as where R: "pages h (pFirst f) as" "distinct as"
    "\<forall>a\<in>set as. page_ok (the (h a))" "pLast f = (if as = [] then None else Some (last as))"
    "vs = heap_slots h as" "nEntry f = length vs" by (auto simp: fifo_rep_def)
  show ?thesis
  proof (cases as rule: rev_cases)
    case Nil
    show ?thesis
    proof (cases m)
      case None
      with Nil R s show ?thesis
        by (auto simp: sqlite3VdbeFifoPush_def allocatePage_def fifo_rep_def intro!: exI [of _ "[]"])
    next
      case (Some ar)
      obtain a raw where m: "m = Some (a, raw)" using Some by (cases ar) auto
      let ?new = "\<lparr>nSlot = 20, iWrite = 0, iRead = 0, pNext = None, aSlot = raw\<rparr>"
      have "\<exists>s'. fifo_store v a (h(a \<mapsto> ?new)) (f\<lparr>pLast := Some a, pFirst := Some a\<rparr>) =
            Some (SQLITE_OK, s') \<and> fifo_rep s' (heap_slots (h(a \<mapsto> ?new)) ([] @ [a]) @ [v])"
        by (rule fifo_store_rep [where pg = ?new]) (use Nil R in \<open>auto simp: page_slots_def\<close>)
      with Nil R s m show ?thesis
        by (auto simp: sqlite3VdbeFifoPush_def allocatePage_def page_slots_def)
    qed
  next
    case (snoc bs l)
    with R have pl: "pLast f = Some l" by simp
    obtain pg where pg: "h l = Some pg" using R(1) snoc pages_in_dom by fastforce
    have ok: "page_ok pg" using R(3) snoc pg by auto
    show ?thesis
    proof (cases "nSlot pg \<le> iWrite pg")
      case False
      have "\<exists>s'. fifo_store v l h f = Some (SQLITE_OK, s') \<and> fifo_rep s' (heap_slots h (bs @ [l]) @ [v])"
        by (rule fifo_store_rep) (use False R snoc pg ok pl in \<open>auto simp: page_ok_def\<close>)
      with False pl pg s R snoc show ?thesis by (auto simp: sqlite3VdbeFifoPush_def)
    next
      case True
      show ?thesis
      proof (cases m)
        case None
        have "pNext pg = None" using pages_last R(1) snoc pg by blast
        then have "pg\<lparr>pNext := None\<rparr> = pg" by simp
        then have "h(l \<mapsto> pg\<lparr>pNext := None\<rparr>) = h" using pg by (simp add: fun_upd_idem)
        then have "sqlite3VdbeFifoPush m v s = Some (SQLITE_NOMEM, s)"
          using True None s pl pg by (simp add: sqlite3VdbeFifoPush_def allocatePage_def)
        then show ?thesis using None assms(1) s by auto
      next
        case (Some ar)
        obtain a raw where m: "m = Some (a, raw)" using Some by (cases ar) auto
        let ?new = "\<lparr>nSlot = (if nEntry f > 32767 then 32767 else nEntry f), iWrite = 0,
          iRead = 0, pNext = None, aSlot = raw\<rparr>"
        let ?h = "h(a \<mapsto> ?new, l \<mapsto> pg\<lparr>pNext := Some a\<rparr>)"
        have fr: "h a = None" using assms(2) m s by (simp add: fresh_alloc_def)
        have nin: "a \<notin> set (bs @ [l])" using pages_in_dom [OF R(1)] fr snoc by fastforce
        have slots: "heap_slots ?h (bs @ [l]) = heap_slots h (bs @ [l])"
          using nin R(2) snoc pg by (simp add: page_slots_def)
        have pos: "0 < nEntry f"
          using R(5,6) snoc pg ok page_slots_empty [of pg] by (simp add: page_ok_def)
        have step: "\<exists>s'. fifo_store v a ?h (f\<lparr>pLast := Some a\<rparr>) = Some (SQLITE_OK, s') \<and>
            fifo_rep s' (heap_slots ?h ((bs @ [l]) @ [a]) @ [v])"
          by (rule fifo_store_rep [where pg = ?new])
            (use pages_snoc [of h "pFirst f" bs l a pg ?h ?new] R snoc nin pos slots pg
              in \<open>auto simp: page_slots_def page_ok_def\<close>)
        have vs: "heap_slots ?h ((bs @ [l]) @ [a]) = vs"
          using slots R(5) snoc nin by (simp add: page_slots_def)
        have "sqlite3VdbeFifoPush m v s = fifo_store v a ?h (f\<lparr>pLast := Some a\<rparr>)"
          using True s pl pg m by (simp add: sqlite3VdbeFifoPush_def allocatePage_def)
        then show ?thesis using step vs by auto
      qed
    qed
  qed
qed

lemma heap_slots_read:
  assumes "h a = Some pg" "iRead pg < iWrite pg" "a \<notin> set as"
  shows "heap_slots h (a # as) = aSlot pg (iRead pg) #
    page_slots (pg\<lparr>iRead := Suc (iRead pg)\<rparr>) @ heap_slots h as"
  using assms by (simp add: page_slots_hd)

lemma pop_rep_Nil: "fifo_rep s [] \<Longrightarrow> sqlite3VdbeFifoPop s = Some (SQLITE_DONE, None, s)"
  by (cases s) (auto simp: fifo_rep_def sqlite3VdbeFifoPop_def)

lemma pop_rep_Cons:
  assumes "fifo_rep s (v # vs)"
  shows "\<exists>s'. sqlite3VdbeFifoPop s = Some (SQLITE_OK, Some v, s') \<and> fifo_rep s' vs"
proof -
  obtain h f where s: "s = (h, f)" by (cases s)
  from assms s obtain as where R: "pages h (pFirst f) as" "distinct as"
    "\<forall>a\<in>set as. page_ok (the (h a))" "pLast f = (if as = [] then None else Some (last as))"
    "v # vs = heap_slots h as" "nEntry f = Suc (length vs)" by (auto simp: fifo_rep_def)
  from R(5) obtain a bs where as: "as = a # bs" by (cases as) auto
  from R(1) as obtain pg where pg: "pFirst f = Some a" "h a = Some pg" "pages h (pNext pg) bs" by auto
  have ok: "iRead pg < iWrite pg" "iWrite pg \<le> nSlot pg" using R(3) as pg by (auto simp: page_ok_def)
  have nin: "a \<notin> set bs" using R(2) as by simp
  define pg1 where "pg1 = pg\<lparr>iRead := Suc (iRead pg)\<rparr>"
  have vs: "v = aSlot pg (iRead pg)" "vs = page_slots pg1 @ heap_slots h bs"
    using heap_slots_read [of h a pg bs] pg(2) ok(1) nin R(5) as by (simp_all add: pg1_def)
  let ?f1 = "f\<lparr>nEntry := length vs\<rparr>"
  show ?thesis
  proof (cases "iRead pg1 \<ge> iWrite pg1")
    case False
    let ?h = "h(a \<mapsto> pg1)"
    have "pages ?h (pFirst f) as" using R(1) pg(2) by (subst pages_cong [of _ _ h]) (auto simp: pg1_def)
    moreover have "heap_slots ?h as = vs" using as nin vs(2) by simp
    moreover have "page_ok pg1" using False ok by (simp add: page_ok_def pg1_def)
    ultimately have "fifo_rep (?h, ?f1) vs"
      using R(2,3,4) as nin unfolding fifo_rep_def by (auto intro!: exI [of _ as])
    moreover have "vs \<noteq> []" using vs(2) False page_slots_empty [of pg1] by auto
    ultimately show ?thesis
      using False s pg R(6) ok vs(1)
      by (auto simp: sqlite3VdbeFifoPop_def Let_def pg1_def)
  next
    case True
    let ?h = "h(a := None)"
    have bs: "vs = heap_slots h bs" using True vs(2) by (simp add: page_slots_def)
    have emp: "bs = [] \<longleftrightarrow> vs = []"
      using bs R(3) as page_slots_empty by (cases bs) (auto simp: page_ok_def)
    let ?f2 = "f\<lparr>nEntry := length vs, pFirst := pNext pg,
      pLast := (if vs = [] then None else pLast f)\<rparr>"
    have "fifo_rep (?h, ?f2) vs"
      using R(2,3,4) as nin bs pg(3) emp unfolding fifo_rep_def
      by (auto intro!: exI [of _ bs])
    moreover have "pNext pg = None \<longleftrightarrow> vs = []"
      using pg(3) emp by (cases bs) auto
    moreover have "vs = [] \<Longrightarrow> pLast f = Some a"
      using emp R(4) as by simp
    ultimately show ?thesis
      using True s pg R(6) ok vs(1)
      by (auto simp: sqlite3VdbeFifoPop_def Let_def pg1_def)
  qed
qed

lemma free_pages_rep:
  "pages h p as \<Longrightarrow> distinct as \<Longrightarrow> fifo_free_pages p h = Some (h |` (- set as))"
proof (induction as arbitrary: h p)
  case Nil
  then show ?case by (simp add: fifo_free_pages.simps)
next
  case (Cons a as)
  then obtain pg where pg: "p = Some a" "h a = Some pg" "pages h (pNext pg) as" by auto
  have "fifo_free_pages (pNext pg) (h(a := None)) = Some (h(a := None) |` (- set as))"
    by (rule Cons.IH) (use Cons.prems(2) pg(3) in \<open>simp_all del: fun_upd_apply\<close>)
  moreover have "h(a := None) |` (- set as) = h |` (- set (a # as))"
    by (rule ext) (auto simp: restrict_map_def)
  ultimately show ?case using pg by (subst fifo_free_pages.simps) simp
qed

lemma clear_rep:
  assumes "fifo_rep s vs"
  shows "\<exists>h'. sqlite3VdbeFifoClear s = Some (h', sqlite3VdbeFifoInit) \<and> h' \<subseteq>\<^sub>m fst s"
proof -
  obtain h f where s: "s = (h, f)" by (cases s)
  with assms obtain as where "pages h (pFirst f) as" "distinct as" by (auto simp: fifo_rep_def)
  then have "sqlite3VdbeFifoClear s = Some (h |` (- set as), sqlite3VdbeFifoInit)"
    using s free_pages_rep [of h] by (simp add: sqlite3VdbeFifoClear_def)
  then show ?thesis using s by (auto simp: map_le_def restrict_map_def split: if_splits)
qed

subsection \<open>The queue interface\<close>

text \<open>
  What the users of the queue rely on: a push appends or leaves the queue as it was, a pop
  takes the oldest value. \<open>usable\<close> says that the resource given to a push can be used in
  the state.
\<close>

datatype ('r, 'v) queue_op = Push 'r 'v | Pop
datatype 'v queue_out = Pushed bool | Popped "'v option"

fun queue_run ::
  "('r \<Rightarrow> 'v \<Rightarrow> 's \<Rightarrow> (bool \<times> 's) option) \<Rightarrow> ('s \<Rightarrow> ('v option \<times> 's) option) \<Rightarrow>
   ('s \<Rightarrow> 'r, 'v) queue_op list \<Rightarrow> 's \<Rightarrow> ('v queue_out list \<times> 's) option" where
  "queue_run push pop [] s = Some ([], s)"
| "queue_run push pop (Push al v # ops) s =
     (case push (al s) v s of
        None \<Rightarrow> None
      | Some (ok, s1) \<Rightarrow> map_option (\<lambda>(os, s2). (Pushed ok # os, s2)) (queue_run push pop ops s1))"
| "queue_run push pop (Pop # ops) s =
     (case pop s of
        None \<Rightarrow> None
      | Some (v, s1) \<Rightarrow> map_option (\<lambda>(os, s2). (Popped v # os, s2)) (queue_run push pop ops s1))"

text \<open>The abstract queue, replayed against the observed outcomes; \<open>None\<close> if they do not fit.\<close>

fun queue_replay :: "('x, 'v) queue_op list \<Rightarrow> 'v queue_out list \<Rightarrow> 'v list \<Rightarrow> 'v list option" where
  "queue_replay [] [] vs = Some vs"
| "queue_replay (Push al v # ops) (Pushed ok # os) vs =
     queue_replay ops os (if ok then vs @ [v] else vs)"
| "queue_replay (Pop # ops) (Popped None # os) vs = (if vs = [] then queue_replay ops os [] else None)"
| "queue_replay (Pop # ops) (Popped (Some v) # os) vs =
     (case vs of [] \<Rightarrow> None | w # ws \<Rightarrow> if v = w then queue_replay ops os ws else None)"
| "queue_replay _ _ _ = None"

definition allocators_ok :: "('r \<Rightarrow> 's \<Rightarrow> bool) \<Rightarrow> ('s \<Rightarrow> 'r, 'v) queue_op list \<Rightarrow> bool" where
  "allocators_ok usable ops \<longleftrightarrow> (\<forall>al v s. Push al v \<in> set ops \<longrightarrow> usable (al s) s)"

locale fifo_queue =
  fixes rep :: "'s \<Rightarrow> 'v list \<Rightarrow> bool"
    and usable :: "'r \<Rightarrow> 's \<Rightarrow> bool"
    and push :: "'r \<Rightarrow> 'v \<Rightarrow> 's \<Rightarrow> (bool \<times> 's) option"
    and pop :: "'s \<Rightarrow> ('v option \<times> 's) option"
  assumes push: "rep s vs \<Longrightarrow> usable r s \<Longrightarrow>
      \<exists>ok s'. push r v s = Some (ok, s') \<and> rep s' (if ok then vs @ [v] else vs)"
    and pop_empty: "rep s [] \<Longrightarrow> pop s = Some (None, s)"
    and pop_oldest: "rep s (v # vs) \<Longrightarrow> \<exists>s'. pop s = Some (Some v, s') \<and> rep s' vs"
begin

lemma run_refines:
  "rep s vs \<Longrightarrow> allocators_ok usable ops \<Longrightarrow>
   \<exists>os s' vs'. queue_run push pop ops s = Some (os, s') \<and> queue_replay ops os vs = Some vs' \<and> rep s' vs'"
proof (induction ops arbitrary: s vs)
  case Nil
  then show ?case by auto
next
  case (Cons x ops)
  have ok: "allocators_ok usable ops" using Cons.prems(2) by (auto simp: allocators_ok_def)
  show ?case
  proof (cases x)
    case (Push al v)
    then have "usable (al s) s" using Cons.prems(2) by (auto simp: allocators_ok_def)
    with push Cons.prems(1) obtain b s1 where p: "push (al s) v s = Some (b, s1)"
      "rep s1 (if b then vs @ [v] else vs)" by blast
    from Cons.IH [OF p(2) ok] p(1) Push show ?thesis by fastforce
  next
    case Pop
    show ?thesis
    proof (cases vs)
      case Nil
      with Cons.prems have p: "pop s = Some (None, s)" "rep s []" by (auto simp: pop_empty)
      from Cons.IH [OF p(2) ok] p(1) Pop Nil show ?thesis by fastforce
    next
      case (Cons v ws)
      with Cons.prems(1) pop_oldest obtain s1 where p: "pop s = Some (Some v, s1)" "rep s1 ws" by blast
      from Cons.IH [OF p(2) ok] p(1) Pop Cons show ?thesis by fastforce
    qed
  qed
qed

text \<open>Pops alone return the contents in order and then report that the queue is empty.\<close>

lemma drain:
  "rep s vs \<Longrightarrow>
   \<exists>s'. queue_run push pop (replicate (Suc (length vs)) Pop) s =
     Some (map (\<lambda>v. Popped (Some v)) vs @ [Popped None], s') \<and> rep s' []"
proof (induction vs arbitrary: s)
  case Nil
  then show ?case using pop_empty by fastforce
next
  case (Cons v vs)
  with pop_oldest obtain s1 where p: "pop s = Some (Some v, s1)" "rep s1 vs" by blast
  from Cons.IH [OF p(2)] p(1) show ?case by fastforce
qed

end

text \<open>The operations of the code in the shape of the interface.\<close>

definition fifo_push_op :: "malloced \<Rightarrow> i64 \<Rightarrow> page_heap \<times> Fifo \<Rightarrow> (bool \<times> page_heap \<times> Fifo) option" where
  "fifo_push_op m v s = map_option (\<lambda>(rc, s'). (rc = SQLITE_OK, s')) (sqlite3VdbeFifoPush m v s)"

definition fifo_pop_op :: "page_heap \<times> Fifo \<Rightarrow> (i64 option \<times> page_heap \<times> Fifo) option" where
  "fifo_pop_op s = map_option (\<lambda>(rc, v, s'). (v, s')) (sqlite3VdbeFifoPop s)"

interpretation vdbe_fifo: fifo_queue fifo_rep fresh_alloc fifo_push_op fifo_pop_op
proof
  fix s vs m and v :: i64
  assume "fifo_rep s vs" "fresh_alloc m s"
  from push_rep [OF this, of v]
  show "\<exists>ok s'. fifo_push_op m v s = Some (ok, s') \<and> fifo_rep s' (if ok then vs @ [v] else vs)"
    by (fastforce simp: fifo_push_op_def)
next
  fix s assume "fifo_rep s []"
  then show "fifo_pop_op s = Some (None, s)" by (simp add: fifo_pop_op_def pop_rep_Nil)
next
  fix s vs and v :: i64
  assume "fifo_rep s (v # vs)"
  from pop_rep_Cons [OF this] show "\<exists>s'. fifo_pop_op s = Some (Some v, s') \<and> fifo_rep s' vs"
    by (auto simp: fifo_pop_op_def)
qed

subsection \<open>Properties\<close>

text \<open>
  \<bold>\<open>C8\<close> Any sequence of pushes and pops on a fresh queue runs without a failed assertion
  or a dangling pointer, whatever the allocator does, and its outcomes are those of a
  first-in first-out queue in which a push that reports out-of-memory has no effect.
\<close>

theorem fifo_refines_queue:
  assumes "allocators_ok fresh_alloc ops"
  shows "\<exists>os s' vs'.
    queue_run fifo_push_op fifo_pop_op ops (h, sqlite3VdbeFifoInit) = Some (os, s') \<and>
    queue_replay ops os [] = Some vs' \<and> fifo_rep s' vs'"
  using vdbe_fifo.run_refines [OF fifo_rep_init assms] .

theorem fifo_refines_queue_witness:
  "let al = (\<lambda>s :: page_heap \<times> Fifo. (if fst s 7 = None then Some (7, \<lambda>_. 0) else None) :: malloced);
       ops = [Push al 5, Pop, Push al 6, Pop, Pop]
   in \<exists>os s' vs'. queue_run fifo_push_op fifo_pop_op ops (Map.empty, sqlite3VdbeFifoInit) = Some (os, s') \<and>
     queue_replay ops os [] = Some vs' \<and> fifo_rep s' vs'"
  unfolding Let_def
  by (rule fifo_refines_queue) (auto simp: allocators_ok_def fresh_alloc_def)

text \<open>
  Clearing a queue returns it to its initial state: it succeeds on every state that
  represents a queue, frees only page memory and leaves the empty queue.
\<close>

lemma fifo_clear_empties:
  assumes "fifo_rep s vs"
  shows "\<exists>h'. sqlite3VdbeFifoClear s = Some (h', sqlite3VdbeFifoInit) \<and> h' \<subseteq>\<^sub>m fst s \<and>
    fifo_rep (h', sqlite3VdbeFifoInit) []"
  using clear_rep [OF assms] fifo_rep_init by blast

end
