(* ===== verification/UnixLock.thy ===== *)
theory UnixLock
  imports Prelude
begin

text \<open>
  The file locking of \<^verbatim>\<open>os_unix.c\<close>: \<^verbatim>\<open>findLockInfo\<close>, the open routines,
  \<^verbatim>\<open>unixLock\<close>, \<^verbatim>\<open>unixUnlock\<close>, \<^verbatim>\<open>unixCheckReservedLock\<close> and \<^verbatim>\<open>unixClose\<close>, as
  steps of a system of any number of processes with any number of handles each.

  POSIX advisory locks are modelled byte by byte: \<open>lk s i p b\<close> is the lock that process \<open>p\<close>
  holds on byte \<open>b\<close> of the file with inode \<open>i\<close>. \<open>fcntl_setlk\<close> has the documented behaviour of
  \<^verbatim>\<open>F_SETLK\<close>: it fails if another process holds a conflicting lock in the range and
  otherwise replaces the caller's locks there; closing any descriptor of a file drops all
  locks of the process on it. Besides, the operating system may refuse any call: \<open>env n\<close> is
  the error of the \<open>n\<close>-th call a routine makes, if the system injects one.

  The build is the default one, without \<^verbatim>\<open>SQLITE_UNIX_THREADS\<close>. The two hash tables are
  maps from process and inode to the structures, and the pointers \<^verbatim>\<open>pLock\<close> and
  \<^verbatim>\<open>pOpen\<close> of a handle are the lookups under its own key. A failed \<^verbatim>\<open>assert\<close> is the
  result \<open>None\<close>.
\<close>

subsection \<open>Lock levels, lock bytes and the system state\<close>

abbreviation NO_LOCK :: int where "NO_LOCK \<equiv> 0"
abbreviation SHARED_LOCK :: int where "SHARED_LOCK \<equiv> 1"
abbreviation RESERVED_LOCK :: int where "RESERVED_LOCK \<equiv> 2"
abbreviation PENDING_LOCK :: int where "PENDING_LOCK \<equiv> 3"
abbreviation EXCLUSIVE_LOCK :: int where "EXCLUSIVE_LOCK \<equiv> 4"

definition PENDING_BYTE :: nat where "PENDING_BYTE = 0x40000000"
definition RESERVED_BYTE :: nat where "RESERVED_BYTE = PENDING_BYTE + 1"
definition SHARED_FIRST :: nat where "SHARED_FIRST = PENDING_BYTE + 2"
definition SHARED_SIZE :: nat where "SHARED_SIZE = 510"

type_synonym pid = nat
type_synonym inode = nat
type_synonym fd = nat
type_synonym hid = nat

datatype ltype = F_UNLCK | F_RDLCK | F_WRLCK
datatype errno = EAGAIN | EINVAL | EISDIR | EOTHER

record lockInfo =
  cnt :: int
  locktype :: int
  nRef :: int

record openCnt =
  onRef :: int
  nLock :: int
  nPending :: int
  aPending :: "fd list"

record unixFile =
  fpid :: pid
  fino :: inode
  h :: fd
  flocktype :: int

record sys =
  procs :: "pid list"
  lk :: "inode \<Rightarrow> pid \<Rightarrow> nat \<Rightarrow> ltype"
  lockHash :: "pid \<Rightarrow> inode \<Rightarrow> lockInfo option"
  openHash :: "pid \<Rightarrow> inode \<Rightarrow> openCnt option"
  files :: "hid \<Rightarrow> unixFile option"

definition set_file :: "hid \<Rightarrow> unixFile \<Rightarrow> sys \<Rightarrow> sys" where
  "set_file fh f s = s\<lparr>files := (files s)(fh \<mapsto> f)\<rparr>"

definition set_lock :: "pid \<Rightarrow> inode \<Rightarrow> lockInfo option \<Rightarrow> sys \<Rightarrow> sys" where
  "set_lock p i L s = s\<lparr>lockHash := (lockHash s)(p := (lockHash s p)(i := L))\<rparr>"

definition set_open :: "pid \<Rightarrow> inode \<Rightarrow> openCnt option \<Rightarrow> sys \<Rightarrow> sys" where
  "set_open p i C s = s\<lparr>openHash := (openHash s)(p := (openHash s p)(i := C))\<rparr>"

definition set_lk :: "inode \<Rightarrow> pid \<Rightarrow> (nat \<Rightarrow> ltype) \<Rightarrow> sys \<Rightarrow> sys" where
  "set_lk i p k s = s\<lparr>lk := (lk s)(i := (lk s i)(p := k))\<rparr>"

subsection \<open>POSIX advisory locks\<close>

fun lock_conflict :: "ltype \<Rightarrow> ltype \<Rightarrow> bool" where
  "lock_conflict F_UNLCK _ = False"
| "lock_conflict F_RDLCK held \<longleftrightarrow> held = F_WRLCK"
| "lock_conflict F_WRLCK held \<longleftrightarrow> held \<noteq> F_UNLCK"

text \<open>Whether another process holds a lock that conflicts with the request.\<close>

definition lock_blocked :: "pid \<Rightarrow> inode \<Rightarrow> ltype \<Rightarrow> nat \<Rightarrow> nat \<Rightarrow> sys \<Rightarrow> bool" where
  "lock_blocked p i t start len s \<longleftrightarrow>
     list_ex (\<lambda>q. q \<noteq> p \<and> list_ex (\<lambda>b. lock_conflict t (lk s i q b)) [start ..< start + len]) (procs s)"

text \<open>The caller's locks after a successful request; a length of 0 reaches to the end of the file.\<close>

definition lock_update :: "ltype \<Rightarrow> nat \<Rightarrow> nat \<Rightarrow> (nat \<Rightarrow> ltype) \<Rightarrow> nat \<Rightarrow> ltype" where
  "lock_update t start len k = (\<lambda>b. if start \<le> b \<and> (len = 0 \<or> b < start + len) then t else k b)"

definition fcntl_setlk ::
  "errno option \<Rightarrow> pid \<Rightarrow> inode \<Rightarrow> ltype \<Rightarrow> nat \<Rightarrow> nat \<Rightarrow> sys \<Rightarrow> errno option \<times> sys" where
  "fcntl_setlk fault p i t start len s =
     (case fault of
        Some e \<Rightarrow> (Some e, s)
      | None \<Rightarrow>
          if lock_blocked p i t start len s then (Some EAGAIN, s)
          else (None, set_lk i p (lock_update t start len (lk s i p)) s))"

text \<open>Closing a descriptor drops every lock of the process on the file.\<close>

definition close_fd :: "pid \<Rightarrow> inode \<Rightarrow> sys \<Rightarrow> sys" where
  "close_fd p i s = set_lk i p (\<lambda>_. F_UNLCK) s"

definition lock_rc :: "errno \<Rightarrow> rc" where
  "lock_rc e = (if e = EINVAL then SQLITE_NOLFS else SQLITE_BUSY)"

subsection \<open>The code: locking\<close>

text \<open>Without thread support the ownership test is the constant \<^verbatim>\<open>SQLITE_OK\<close>.\<close>

definition transferOwnership :: "unixFile \<Rightarrow> rc" where
  "transferOwnership f = SQLITE_OK"

text \<open>The last lines of \<^verbatim>\<open>unixLock\<close>: record the level reached.\<close>

definition unixLock_finish ::
  "rc \<Rightarrow> hid \<Rightarrow> int \<Rightarrow> unixFile \<Rightarrow> lockInfo \<Rightarrow> sys \<Rightarrow> (rc \<times> sys) option" where
  "unixLock_finish rc fh lt f L s =
     (if rc = SQLITE_OK then
        Some (rc, set_file fh (f\<lparr>flocktype := lt\<rparr>) (set_lock (fpid f) (fino f) (Some (L\<lparr>locktype := lt\<rparr>)) s))
      else if lt = EXCLUSIVE_LOCK then
        Some (rc, set_file fh (f\<lparr>flocktype := PENDING_LOCK\<rparr>)
                    (set_lock (fpid f) (fino f) (Some (L\<lparr>locktype := PENDING_LOCK\<rparr>)) s))
      else Some (rc, s))"

text \<open>The system calls for a SHARED lock, the pending byte being read-locked.\<close>

definition unixLock_shared ::
  "(nat \<Rightarrow> errno option) \<Rightarrow> hid \<Rightarrow> unixFile \<Rightarrow> lockInfo \<Rightarrow> openCnt \<Rightarrow> sys \<Rightarrow> (rc \<times> sys) option" where
  "unixLock_shared env fh f L C s =
     (if \<not> (cnt L = 0 \<and> locktype L = 0) then None else
      let (e1, s1) = fcntl_setlk (env 1) (fpid f) (fino f) F_RDLCK SHARED_FIRST SHARED_SIZE s;
          (e2, s2) = fcntl_setlk (env 2) (fpid f) (fino f) F_UNLCK PENDING_BYTE 1 s1
      in if e2 \<noteq> None then Some (SQLITE_IOERR, s2)
         else case e1 of
           Some e \<Rightarrow> unixLock_finish (lock_rc e) fh SHARED_LOCK f L s2
         | None \<Rightarrow>
             unixLock_finish SQLITE_OK fh SHARED_LOCK (f\<lparr>flocktype := SHARED_LOCK\<rparr>) (L\<lparr>cnt := 1\<rparr>)
               (set_open (fpid f) (fino f) (Some (C\<lparr>nLock := nLock C + 1\<rparr>)) s2))"

text \<open>The system call for a RESERVED or an EXCLUSIVE lock.\<close>

definition unixLock_write ::
  "(nat \<Rightarrow> errno option) \<Rightarrow> hid \<Rightarrow> int \<Rightarrow> unixFile \<Rightarrow> lockInfo \<Rightarrow> sys \<Rightarrow> (rc \<times> sys) option" where
  "unixLock_write env fh lt f L s =
     (if flocktype f = NO_LOCK then None else
      if lt \<noteq> RESERVED_LOCK \<and> lt \<noteq> EXCLUSIVE_LOCK then None else
      let (e, s1) =
        (if lt = RESERVED_LOCK then fcntl_setlk (env 1) (fpid f) (fino f) F_WRLCK RESERVED_BYTE 1 s
         else fcntl_setlk (env 1) (fpid f) (fino f) F_WRLCK SHARED_FIRST SHARED_SIZE s)
      in unixLock_finish (case e of None \<Rightarrow> SQLITE_OK | Some e \<Rightarrow> lock_rc e) fh lt f L s1)"

definition unixLock :: "(nat \<Rightarrow> errno option) \<Rightarrow> hid \<Rightarrow> int \<Rightarrow> sys \<Rightarrow> (rc \<times> sys) option" where
  "unixLock env fh lt s =
     (case files s fh of None \<Rightarrow> None | Some f \<Rightarrow>
      if flocktype f \<ge> lt then Some (SQLITE_OK, s) else
      if \<not> (flocktype f \<noteq> NO_LOCK \<or> lt = SHARED_LOCK) then None else
      if lt = PENDING_LOCK then None else
      if \<not> (lt \<noteq> RESERVED_LOCK \<or> flocktype f = SHARED_LOCK) then None else
      if transferOwnership f \<noteq> SQLITE_OK then Some (transferOwnership f, s) else
      (case lockHash s (fpid f) (fino f) of None \<Rightarrow> None | Some L \<Rightarrow>
      (case openHash s (fpid f) (fino f) of None \<Rightarrow> None | Some C \<Rightarrow>
      if flocktype f \<noteq> locktype L \<and> (locktype L \<ge> PENDING_LOCK \<or> lt > SHARED_LOCK) then
        Some (SQLITE_BUSY, s)
      else if lt = SHARED_LOCK \<and> (locktype L = SHARED_LOCK \<or> locktype L = RESERVED_LOCK) then
        (if \<not> (flocktype f = 0 \<and> cnt L > 0) then None else
         Some (SQLITE_OK,
               set_file fh (f\<lparr>flocktype := SHARED_LOCK\<rparr>)
                 (set_lock (fpid f) (fino f) (Some (L\<lparr>cnt := cnt L + 1\<rparr>))
                   (set_open (fpid f) (fino f) (Some (C\<lparr>nLock := nLock C + 1\<rparr>)) s))))
      else
        let (e, s1) =
          (if lt = SHARED_LOCK \<or> (lt = EXCLUSIVE_LOCK \<and> flocktype f < PENDING_LOCK)
           then fcntl_setlk (env 0) (fpid f) (fino f)
                  (if lt = SHARED_LOCK then F_RDLCK else F_WRLCK) PENDING_BYTE 1 s
           else (None, s))
        in case e of
             Some e \<Rightarrow> Some (lock_rc e, s1)
           | None \<Rightarrow>
               if lt = SHARED_LOCK then unixLock_shared env fh f L C s1
               else if lt = EXCLUSIVE_LOCK \<and> cnt L > 1 then unixLock_finish SQLITE_BUSY fh lt f L s1
               else unixLock_write env fh lt f L s1)))"

subsection \<open>The code: unlocking and closing\<close>

text \<open>Closing the descriptors whose close was deferred.\<close>

definition close_pending :: "pid \<Rightarrow> inode \<Rightarrow> openCnt \<Rightarrow> sys \<Rightarrow> openCnt \<times> sys" where
  "close_pending p i C s =
     (if nLock C = 0 \<and> nPending C > 0 then
        (C\<lparr>aPending := [], nPending := 0\<rparr>, fold (\<lambda>_. close_fd p i) (aPending C) s)
      else (C, s))"

text \<open>Lowering a level above SHARED: the first half of \<^verbatim>\<open>unixUnlock\<close>.\<close>

definition unixUnlock_lower ::
  "(nat \<Rightarrow> errno option) \<Rightarrow> int \<Rightarrow> unixFile \<Rightarrow> lockInfo \<Rightarrow> sys \<Rightarrow> rc \<times> lockInfo \<times> sys" where
  "unixUnlock_lower env lt f L s =
     (let (e0, s1) =
        (if lt = SHARED_LOCK
         then fcntl_setlk (env 0) (fpid f) (fino f) F_RDLCK SHARED_FIRST SHARED_SIZE s
         else (None, s));
        rc0 = (if e0 = None then SQLITE_OK else SQLITE_IOERR);
        (e1, s2) = fcntl_setlk (env 1) (fpid f) (fino f) F_UNLCK PENDING_BYTE 2 s1
      in if e1 = None then (rc0, L\<lparr>locktype := SHARED_LOCK\<rparr>, s2) else (SQLITE_IOERR, L, s2))"

text \<open>Giving up the last level: the second half of \<^verbatim>\<open>unixUnlock\<close>.\<close>

definition unixUnlock_release ::
  "(nat \<Rightarrow> errno option) \<Rightarrow> rc \<Rightarrow> unixFile \<Rightarrow> lockInfo \<Rightarrow> openCnt \<Rightarrow> sys \<Rightarrow>
   (rc \<times> lockInfo \<times> openCnt \<times> sys) option" where
  "unixUnlock_release env rc f L C s =
     (let L1 = L\<lparr>cnt := cnt L - 1\<rparr>;
          (rc1, L2, s1) =
            (if cnt L1 = 0 then
               (let (e, s1) = fcntl_setlk (env 2) (fpid f) (fino f) F_UNLCK 0 0 s in
                if e = None then (rc, L1\<lparr>locktype := NO_LOCK\<rparr>, s1) else (SQLITE_IOERR, L1, s1))
             else (rc, L1, s));
          C1 = C\<lparr>nLock := nLock C - 1\<rparr>
      in if \<not> nLock C1 \<ge> 0 then None else
         let (C2, s2) = close_pending (fpid f) (fino f) C1 s1 in Some (rc1, L2, C2, s2))"

definition unixUnlock :: "(nat \<Rightarrow> errno option) \<Rightarrow> hid \<Rightarrow> int \<Rightarrow> sys \<Rightarrow> (rc \<times> sys) option" where
  "unixUnlock env fh lt s =
     (case files s fh of None \<Rightarrow> None | Some f \<Rightarrow>
      if \<not> lt \<le> SHARED_LOCK then None else
      if flocktype f \<le> lt then Some (SQLITE_OK, s) else
      (case lockHash s (fpid f) (fino f) of None \<Rightarrow> None | Some L \<Rightarrow>
      (case openHash s (fpid f) (fino f) of None \<Rightarrow> None | Some C \<Rightarrow>
      if cnt L = 0 then None else
      if flocktype f > SHARED_LOCK \<and> locktype L \<noteq> flocktype f then None else
      let (rc, L1, s1) =
        (if flocktype f > SHARED_LOCK then unixUnlock_lower env lt f L s else (SQLITE_OK, L, s))
      in case (if lt = NO_LOCK then unixUnlock_release env rc f L1 C s1 else Some (rc, L1, C, s1)) of
           None \<Rightarrow> None
         | Some (rc, L2, C2, s2) \<Rightarrow>
             Some (rc, set_file fh (f\<lparr>flocktype := lt\<rparr>)
                         (set_lock (fpid f) (fino f) (Some L2)
                           (set_open (fpid f) (fino f) (Some C2) s2))))))"

definition unixCheckReservedLock :: "hid \<Rightarrow> sys \<Rightarrow> bool option" where
  "unixCheckReservedLock fh s =
     (case files s fh of None \<Rightarrow> None | Some f \<Rightarrow>
      (case lockHash s (fpid f) (fino f) of None \<Rightarrow> None | Some L \<Rightarrow>
       Some (locktype L > SHARED_LOCK \<or> lock_blocked (fpid f) (fino f) F_WRLCK RESERVED_BYTE 1 s)))"

text \<open>Reference counts: the structure goes away with its last handle.\<close>

definition releaseLockInfo :: "pid \<Rightarrow> inode \<Rightarrow> sys \<Rightarrow> sys" where
  "releaseLockInfo p i s =
     (case lockHash s p i of
        None \<Rightarrow> s
      | Some L \<Rightarrow>
          if nRef L - 1 = 0 then set_lock p i None s
          else set_lock p i (Some (L\<lparr>nRef := nRef L - 1\<rparr>)) s)"

definition releaseOpenCnt :: "pid \<Rightarrow> inode \<Rightarrow> sys \<Rightarrow> sys" where
  "releaseOpenCnt p i s =
     (case openHash s p i of
        None \<Rightarrow> s
      | Some C \<Rightarrow>
          if onRef C - 1 = 0 then set_open p i None s
          else set_open p i (Some (C\<lparr>onRef := onRef C - 1\<rparr>)) s)"

text \<open>\<open>room\<close> says whether \<^verbatim>\<open>realloc\<close> finds memory for the list of deferred closes.\<close>

definition unixClose :: "(nat \<Rightarrow> errno option) \<Rightarrow> bool \<Rightarrow> hid \<Rightarrow> sys \<Rightarrow> (rc \<times> sys) option" where
  "unixClose env room fh s =
     (case files s fh of None \<Rightarrow> None | Some f \<Rightarrow>
      (case unixUnlock env fh NO_LOCK s of None \<Rightarrow> None | Some (rc, s1) \<Rightarrow>
      (case openHash s1 (fpid f) (fino f) of None \<Rightarrow> None | Some C \<Rightarrow>
       let s2 =
         (if nLock C \<noteq> 0 then
            if room then
              set_open (fpid f) (fino f)
                (Some (C\<lparr>aPending := aPending C @ [h f], nPending := nPending C + 1\<rparr>)) s1
            else s1
          else close_fd (fpid f) (fino f) s1);
         s3 = releaseOpenCnt (fpid f) (fino f) (releaseLockInfo (fpid f) (fino f) s2)
       in Some (SQLITE_OK, s3\<lparr>files := (files s3)(fh := None)\<rparr>))))"

subsection \<open>The code: opening\<close>

text \<open>What the system answers while a file is opened: the inode behind the path, whether it
  exists, the descriptors or errors of the two \<^verbatim>\<open>open\<close> calls, whether \<^verbatim>\<open>fstat\<close>
  works, and which of the allocations (the two structures, their hash entries, the handle)
  succeed.\<close>

record open_env =
  path_ino :: inode
  path_exists :: bool
  first_open :: "errno + fd"
  second_open :: "errno + fd"
  fstat_ok :: bool
  lock_mem :: bool
  lock_ins :: bool
  open_mem :: bool
  open_ins :: bool
  file_mem :: bool

definition findLockInfo :: "open_env \<Rightarrow> pid \<Rightarrow> inode \<Rightarrow> sys \<Rightarrow> int \<times> sys" where
  "findLockInfo e p i s =
     (if \<not> fstat_ok e then (1, s) else
      let locked =
        (case lockHash s p i of
           None \<Rightarrow>
             if \<not> lock_mem e \<or> \<not> lock_ins e then None
             else Some (set_lock p i (Some \<lparr>cnt = 0, locktype = 0, nRef = 1\<rparr>) s)
         | Some L \<Rightarrow> Some (set_lock p i (Some (L\<lparr>nRef := nRef L + 1\<rparr>)) s))
      in case locked of
           None \<Rightarrow> (1, s)
         | Some s1 \<Rightarrow>
             (case openHash s1 p i of
                None \<Rightarrow>
                  if \<not> open_mem e \<or> \<not> open_ins e then (1, releaseLockInfo p i s1)
                  else (0, set_open p i
                             (Some \<lparr>onRef = 1, nLock = 0, nPending = 0, aPending = []\<rparr>) s1)
              | Some C \<Rightarrow> (0, set_open p i (Some (C\<lparr>onRef := onRef C + 1\<rparr>)) s1)))"

definition allocateUnixFile :: "open_env \<Rightarrow> hid \<Rightarrow> unixFile \<Rightarrow> sys \<Rightarrow> rc \<times> sys" where
  "allocateUnixFile e fh f s =
     (let f1 = f\<lparr>flocktype := 0\<rparr> in
      if \<not> file_mem e then
        (SQLITE_NOMEM,
         releaseOpenCnt (fpid f1) (fino f1)
           (releaseLockInfo (fpid f1) (fino f1) (close_fd (fpid f1) (fino f1) s)))
      else (SQLITE_OK, set_file fh f1 s))"

text \<open>The common tail of the open routines, once there is a descriptor.\<close>

definition open_finish :: "open_env \<Rightarrow> pid \<Rightarrow> hid \<Rightarrow> fd \<Rightarrow> sys \<Rightarrow> rc \<times> sys" where
  "open_finish e p fh d s =
     (let (err, s1) = findLockInfo e p (path_ino e) s in
      if err \<noteq> 0 then (SQLITE_NOMEM, close_fd p (path_ino e) s1)
      else allocateUnixFile e fh \<lparr>fpid = p, fino = path_ino e, h = d, flocktype = 0\<rparr> s1)"

text \<open>The result also says what was stored in \<^verbatim>\<open>*pReadonly\<close>, if anything.\<close>

definition sqlite3UnixOpenReadWrite ::
  "open_env \<Rightarrow> pid \<Rightarrow> hid \<Rightarrow> sys \<Rightarrow> (rc \<times> int option \<times> sys) option" where
  "sqlite3UnixOpenReadWrite e p fh s =
     (if files s fh \<noteq> None then None else
      case first_open e of
        Inr d \<Rightarrow> (let (rc, s1) = open_finish e p fh d s in Some (rc, Some 0, s1))
      | Inl err \<Rightarrow>
          if err = EISDIR then Some (SQLITE_CANTOPEN, None, s) else
          (case second_open e of
             Inl _ \<Rightarrow> Some (SQLITE_CANTOPEN, None, s)
           | Inr d \<Rightarrow> (let (rc, s1) = open_finish e p fh d s in Some (rc, Some 1, s1))))"

definition sqlite3UnixOpenExclusive ::
  "open_env \<Rightarrow> pid \<Rightarrow> hid \<Rightarrow> sys \<Rightarrow> (rc \<times> sys) option" where
  "sqlite3UnixOpenExclusive e p fh s =
     (if files s fh \<noteq> None then None else
      if path_exists e then Some (SQLITE_CANTOPEN, s) else
      case first_open e of
        Inl _ \<Rightarrow> Some (SQLITE_CANTOPEN, s)
      | Inr d \<Rightarrow> Some (open_finish e p fh d s))"

definition sqlite3UnixOpenReadOnly ::
  "open_env \<Rightarrow> pid \<Rightarrow> hid \<Rightarrow> sys \<Rightarrow> (rc \<times> sys) option" where
  "sqlite3UnixOpenReadOnly e p fh s =
     (if files s fh \<noteq> None then None else
      case first_open e of
        Inl _ \<Rightarrow> Some (SQLITE_CANTOPEN, s)
      | Inr d \<Rightarrow> Some (open_finish e p fh d s))"

subsection \<open>Steps and reachable states\<close>

definition init_sys :: "pid list \<Rightarrow> sys" where
  "init_sys ps = \<lparr>procs = ps, lk = (\<lambda>_ _ _. F_UNLCK), lockHash = (\<lambda>_ _. None),
     openHash = (\<lambda>_ _. None), files = (\<lambda>_. None)\<rparr>"

text \<open>Opening does not go through one of the two error paths that close a descriptor of a file
  the process has already open, see \<open>oom_open_drops_locks\<close> below.\<close>

definition safe_open :: "open_env \<Rightarrow> pid \<Rightarrow> sys \<Rightarrow> bool" where
  "safe_open e p s \<longleftrightarrow> fstat_ok e \<and> file_mem e \<or> lockHash s p (path_ino e) = None"

text \<open>\<open>clean\<close> says that the system refuses no call.\<close>

inductive step :: "bool \<Rightarrow> sys \<Rightarrow> sys \<Rightarrow> bool" for clean where
  Lock: "unixLock env fh lt s = Some (rc, s') \<Longrightarrow> (clean \<longrightarrow> env = (\<lambda>_. None)) \<Longrightarrow> step clean s s'"
| Unlock: "unixUnlock env fh lt s = Some (rc, s') \<Longrightarrow> lt = NO_LOCK \<or> lt = SHARED_LOCK \<Longrightarrow>
    (clean \<longrightarrow> env = (\<lambda>_. None)) \<Longrightarrow> step clean s s'"
| Close: "unixClose env room fh s = Some (rc, s') \<Longrightarrow> (clean \<longrightarrow> env = (\<lambda>_. None)) \<Longrightarrow> step clean s s'"
| OpenReadWrite: "sqlite3UnixOpenReadWrite e p fh s = Some (rc, ro, s') \<Longrightarrow> p \<in> set (procs s) \<Longrightarrow>
    safe_open e p s \<Longrightarrow> step clean s s'"
| OpenExclusive: "sqlite3UnixOpenExclusive e p fh s = Some (rc, s') \<Longrightarrow> p \<in> set (procs s) \<Longrightarrow>
    safe_open e p s \<Longrightarrow> step clean s s'"
| OpenReadOnly: "sqlite3UnixOpenReadOnly e p fh s = Some (rc, s') \<Longrightarrow> p \<in> set (procs s) \<Longrightarrow>
    safe_open e p s \<Longrightarrow> step clean s s'"

inductive reach :: "bool \<Rightarrow> sys \<Rightarrow> bool" for clean where
  init: "reach clean (init_sys ps)"
| more: "reach clean s \<Longrightarrow> step clean s s' \<Longrightarrow> reach clean s'"

inductive_cases stepE: "step clean s s'"

end
