(* ===== verification/UnixLockInv.thy ===== *)
theory UnixLockInv
  imports UnixLock
begin

text \<open>
  The invariant of the lock system of \<^verbatim>\<open>UnixLock\<close> and its preservation by every step, also when
  the operating system refuses calls. \<open>good\<close> is the invariant for one process and one file: the
  reference and lock counts are exact (\<open>counted\<close>), at most one handle is above SHARED and the
  structure of the process records its level (\<open>ranked\<close>), and the operating system holds the
  locks each level stands for (\<open>backed\<close>). \<open>os_ok\<close> says that the granted locks do not
  conflict. \<open>reach_inv\<close> is the result.
\<close>

subsection \<open>The invariant\<close>

text \<open>The levels of the handles of one process on one file.\<close>

definition levels :: "sys \<Rightarrow> pid \<Rightarrow> inode \<Rightarrow> hid \<Rightarrow> int option" where
  "levels s p i x =
     (case files s x of None \<Rightarrow> None
      | Some f \<Rightarrow> if fpid f = p \<and> fino f = i then Some (flocktype f) else None)"

definition holders :: "(hid \<Rightarrow> int option) \<Rightarrow> hid set" where
  "holders A = {x. \<exists>l \<ge> 1. A x = Some l}"

definition in_shared :: "nat \<Rightarrow> bool" where
  "in_shared b \<longleftrightarrow> SHARED_FIRST \<le> b \<and> b < SHARED_FIRST + SHARED_SIZE"

text \<open>The reference counts and lock counts are exact, and deferred closes wait for a lock.\<close>

definition counted :: "lockInfo \<Rightarrow> openCnt \<Rightarrow> (hid \<Rightarrow> int option) \<Rightarrow> bool" where
  "counted L C A \<longleftrightarrow>
     finite (dom A) \<and> dom A \<noteq> {} \<and> nRef L = int (card (dom A)) \<and> onRef C = int (card (dom A)) \<and>
     cnt L = int (card (holders A)) \<and> nLock C = int (card (holders A)) \<and>
     nPending C = int (length (aPending C)) \<and> (nLock C = 0 \<longrightarrow> aPending C = [])"

text \<open>What the operating system holds for a handle of level \<open>l\<close>.\<close>

definition backed :: "(nat \<Rightarrow> ltype) \<Rightarrow> int \<Rightarrow> bool" where
  "backed k l \<longleftrightarrow>
     0 \<le> l \<and> l \<le> 4 \<and>
     (1 \<le> l \<longrightarrow> (\<forall>b. in_shared b \<longrightarrow> k b \<noteq> F_UNLCK)) \<and>
     (l = 2 \<longrightarrow> k RESERVED_BYTE = F_WRLCK) \<and>
     (3 \<le> l \<longrightarrow> k PENDING_BYTE = F_WRLCK) \<and>
     (l = 4 \<longrightarrow> (\<forall>b. in_shared b \<longrightarrow> k b = F_WRLCK))"

text \<open>Within one process at most one handle is above SHARED, its level is the one recorded for
  the process, and an EXCLUSIVE handle is alone.\<close>

definition ranked :: "lockInfo \<Rightarrow> (hid \<Rightarrow> int option) \<Rightarrow> bool" where
  "ranked L A \<longleftrightarrow>
     (\<forall>x l. A x = Some l \<longrightarrow> 2 \<le> l \<longrightarrow>
        locktype L = l \<and> (\<forall>y m. A y = Some m \<longrightarrow> y \<noteq> x \<longrightarrow> m \<le> (if l = 4 then 0 else 1)))"

definition good :: "lockInfo option \<Rightarrow> openCnt option \<Rightarrow> (nat \<Rightarrow> ltype) \<Rightarrow> (hid \<Rightarrow> int option) \<Rightarrow> bool" where
  "good Lo Co k A \<longleftrightarrow>
     (case (Lo, Co) of
        (None, None) \<Rightarrow> dom A = {}
      | (Some L, Some C) \<Rightarrow> counted L C A \<and> ranked L A \<and> (\<forall>x l. A x = Some l \<longrightarrow> backed k l)
      | _ \<Rightarrow> False)"

text \<open>The operating system grants no conflicting locks, and none to unknown processes.\<close>

definition os_ok :: "sys \<Rightarrow> bool" where
  "os_ok s \<longleftrightarrow>
     (\<forall>i p q b. p \<noteq> q \<longrightarrow> lk s i p b = F_WRLCK \<longrightarrow> lk s i q b = F_UNLCK) \<and>
     (\<forall>i p b. p \<notin> set (procs s) \<longrightarrow> lk s i p b = F_UNLCK)"

definition lock_inv :: "sys \<Rightarrow> bool" where
  "lock_inv s \<longleftrightarrow>
     os_ok s \<and> (\<forall>x f. files s x = Some f \<longrightarrow> fpid f \<in> set (procs s)) \<and>
     (\<forall>p i. good (lockHash s p i) (openHash s p i) (lk s i p) (levels s p i))"

lemmas set_defs = set_file_def set_lock_def set_open_def set_lk_def

lemma lock_blocked_iff:
  "lock_blocked p i t a n s \<longleftrightarrow>
     (\<exists>q \<in> set (procs s). q \<noteq> p \<and> (\<exists>b. a \<le> b \<and> b < a + n \<and> lock_conflict t (lk s i q b)))"
  by (simp add: lock_blocked_def list_ex_iff Bex_def conj_assoc)

lemma fcntl_cases:
  assumes "fcntl_setlk e p i t a n s = (r, s')"
  obtains (fail) err where "r = Some err" "s' = s"
  | (ok) "e = None" "r = None" "\<not> lock_blocked p i t a n s" "s' = set_lk i p (lock_update t a n (lk s i p)) s"
  using assms by (auto simp: fcntl_setlk_def split: option.splits if_splits)

lemma fcntl_os_ok:
  assumes f: "fcntl_setlk e p i t a n s = (r, s')" and os: "os_ok s" and p: "p \<in> set (procs s)"
    and n: "n = 0 \<longrightarrow> t = F_UNLCK"
  shows "os_ok s'"
  using f
proof (cases rule: fcntl_cases)
  case fail then show ?thesis using os by simp
next
  case ok
  have nb: "t = F_UNLCK \<or> lk s i q b = F_UNLCK \<or> (t = F_RDLCK \<and> lk s i q b \<noteq> F_WRLCK)"
    if "q \<noteq> p" "a \<le> b" "b < a + n" for q b
  proof (cases "q \<in> set (procs s)")
    case True
    then have "\<not> lock_conflict t (lk s i q b)" using ok(3) that unfolding lock_blocked_iff by blast
    then show ?thesis by (cases t) auto
  next
    case False then show ?thesis using os unfolding os_ok_def by blast
  qed
  show ?thesis unfolding os_ok_def
  proof (intro conjI allI impI)
    fix i' p' q' b assume "p' \<noteq> q'" "lk s' i' p' b = F_WRLCK"
    moreover have "lk s' i' r b = (if i' = i \<and> r = p then lock_update t a n (lk s i p) b else lk s i' r b)" for r
      by (simp add: ok set_lk_def)
    moreover have "lk s i' p' b = F_WRLCK \<Longrightarrow> lk s i' q' b = F_UNLCK" "lk s i' q' b = F_WRLCK \<Longrightarrow> lk s i' p' b = F_UNLCK"
      using os \<open>p' \<noteq> q'\<close> unfolding os_ok_def by metis+
    ultimately show "lk s' i' q' b = F_UNLCK"
      using nb[of q' b] nb[of p' b] n by (auto simp: lock_update_def split: if_splits)
  next
    fix i' p' b assume "p' \<notin> set (procs s')"
    then show "lk s' i' p' b = F_UNLCK"
      using os p unfolding ok os_ok_def by (auto simp: set_lk_def)
  qed
qed

lemma close_fd_os_ok: "os_ok s \<Longrightarrow> os_ok (close_fd p i s)"
  by (auto simp: os_ok_def close_fd_def set_lk_def)

text \<open>An operation on a handle touches only the structures of its process and file.\<close>

definition touches :: "pid \<Rightarrow> inode \<Rightarrow> hid \<Rightarrow> sys \<Rightarrow> sys \<Rightarrow> bool" where
  "touches p i x s s' \<longleftrightarrow>
     procs s' = procs s \<and> (\<forall>y. y \<noteq> x \<longrightarrow> files s' y = files s y) \<and>
     (\<forall>f. files s x = Some f \<longrightarrow> fpid f = p \<and> fino f = i) \<and>
     (\<forall>f. files s' x = Some f \<longrightarrow> fpid f = p \<and> fino f = i) \<and>
     (\<forall>q j. (q, j) \<noteq> (p, i) \<longrightarrow>
        lockHash s' q j = lockHash s q j \<and> openHash s' q j = openHash s q j \<and> lk s' j q = lk s j q)"

lemma levels_touch:
  assumes t: "touches p i x s s'"
  shows "levels s' q j = (if (q, j) = (p, i) then (levels s p i)(x := map_option flocktype (files s' x)) else levels s q j)"
proof -
  note t = t [unfolded touches_def, THEN conjunct1] t [unfolded touches_def, THEN conjunct2, THEN conjunct1, rule_format]
    t [unfolded touches_def, THEN conjunct2, THEN conjunct2, THEN conjunct1, rule_format]
    t [unfolded touches_def, THEN conjunct2, THEN conjunct2, THEN conjunct2, THEN conjunct1, rule_format]
    t [unfolded touches_def, THEN conjunct2, THEN conjunct2, THEN conjunct2, THEN conjunct2, rule_format]
  show ?thesis
  proof
    fix y
    have "levels s' q j y = levels s q j y" if "y \<noteq> x" using t(2)[OF that] by (simp add: levels_def)
    moreover have "levels s' p i x = map_option flocktype (files s' x)"
      using t(4) by (cases "files s' x") (auto simp: levels_def)
    moreover have "levels s q j x = None" if "(q, j) \<noteq> (p, i)"
    proof (cases "files s x")
      case (Some f) then show ?thesis using that t(3)[OF Some] by (auto simp: levels_def)
    qed (simp add: levels_def)
    moreover have "levels s' q j x = None" if "(q, j) \<noteq> (p, i)"
    proof (cases "files s' x")
      case (Some f) then show ?thesis using that t(4)[OF Some] by (auto simp: levels_def)
    qed (simp add: levels_def)
    ultimately show "levels s' q j y =
        (if (q, j) = (p, i) then (levels s p i)(x := map_option flocktype (files s' x)) else levels s q j) y"
      by (cases "y = x"; cases "(q, j) = (p, i)") auto
  qed
qed

lemma lock_invI:
  assumes inv: "lock_inv s" and t: "touches p i x s s'" and p: "p \<in> set (procs s)"
    and os: "os_ok s'"
    and g: "good (lockHash s' p i) (openHash s' p i) (lk s' i p)
              ((levels s p i)(x := map_option flocktype (files s' x)))"
  shows "lock_inv s'"
proof -
  note t = t [unfolded touches_def, THEN conjunct1] t [unfolded touches_def, THEN conjunct2, THEN conjunct1, rule_format]
    t [unfolded touches_def, THEN conjunct2, THEN conjunct2, THEN conjunct1, rule_format]
    t [unfolded touches_def, THEN conjunct2, THEN conjunct2, THEN conjunct2, THEN conjunct1, rule_format]
    t [unfolded touches_def, THEN conjunct2, THEN conjunct2, THEN conjunct2, THEN conjunct2, rule_format]
  note lv = levels_touch [OF assms(2)]
  have "good (lockHash s' q j) (openHash s' q j) (lk s' j q) (levels s' q j)" for q j
  proof (cases "(q, j) = (p, i)")
    case True then show ?thesis using g lv[of q j] by simp
  next
    case False
    have "levels s' q j = levels s q j" using lv[of q j] by (simp only: False if_False)
    then show ?thesis using inv t(5)[OF False] unfolding lock_inv_def by simp
  qed
  moreover have "fpid f \<in> set (procs s')" if "files s' y = Some f" for y f
    using inv t(1) t(2)[of y] t(4) p that unfolding lock_inv_def by (cases "y = x") auto
  ultimately show ?thesis using os unfolding lock_inv_def by blast
qed

lemma holders_upd:
  "holders (A(x := r)) = (if \<exists>l\<ge>1. r = Some l then insert x (holders A) else holders A - {x})"
  by (auto simp: holders_def)

lemma holders_dom: "holders A \<subseteq> dom A"
  by (auto simp: holders_def)

text \<open>A handle changes its level.\<close>

lemma counted_upd:
  assumes c: "counted L C A" and x: "A x = Some l"
    and L: "nRef L' = nRef L" "onRef C' = onRef C"
    and n: "cnt L' = cnt L + of_bool (1 \<le> l') - of_bool (1 \<le> l)"
    and m: "nLock C' = nLock C + of_bool (1 \<le> l') - of_bool (1 \<le> l)"
    and pe: "nPending C' = int (length (aPending C'))" "nLock C' = 0 \<longrightarrow> aPending C' = []"
  shows "counted L' C' (A(x \<mapsto> l'))"
proof -
  have fin: "finite (holders A)" using c holders_dom finite_subset unfolding counted_def by blast
  have "int (card (holders (A(x \<mapsto> l')))) = int (card (holders A)) + of_bool (1 \<le> l') - of_bool (1 \<le> l)"
  proof (cases "1 \<le> l")
    case True
    then have "x \<in> holders A" using x by (auto simp: holders_def)
    moreover from this fin have "0 < card (holders A)" using card_gt_0_iff by blast
    ultimately show ?thesis using fin True by (auto simp: holders_upd insert_absorb card_Diff_singleton of_nat_diff)
  next
    case False
    then have "x \<notin> holders A" using x by (auto simp: holders_def)
    then show ?thesis using fin False by (auto simp: holders_upd)
  qed
  moreover have "dom (A(x \<mapsto> l')) = dom A" using x by auto
  ultimately show ?thesis using c L n m pe unfolding counted_def by simp
qed


lemma set_get [simp]:
  "procs (set_lk i p k s) = procs s" "files (set_lk i p k s) = files s"
  "lockHash (set_lk i p k s) = lockHash s" "openHash (set_lk i p k s) = openHash s"
  "lk (set_lk i p k s) i p = k" "set_lk i p k (set_lk i p k' s) = set_lk i p k s"
  "procs (set_lock p i Lo s) = procs s" "files (set_lock p i Lo s) = files s"
  "lockHash (set_lock p i Lo s) p i = Lo" "openHash (set_lock p i Lo s) = openHash s" "lk (set_lock p i Lo s) = lk s"
  "procs (set_open p i Co s) = procs s" "files (set_open p i Co s) = files s"
  "lockHash (set_open p i Co s) = lockHash s" "openHash (set_open p i Co s) p i = Co" "lk (set_open p i Co s) = lk s"
  "procs (set_file x f s) = procs s" "files (set_file x f s) = (files s)(x \<mapsto> f)"
  "lockHash (set_file x f s) = lockHash s" "openHash (set_file x f s) = openHash s" "lk (set_file x f s) = lk s"
  by (simp_all add: set_defs)

lemma set_triv:
  "lockHash s p i = Lo \<Longrightarrow> set_lock p i Lo s = s"
  "openHash s p i = Co \<Longrightarrow> set_open p i Co s = s"
  "lk s i p = k \<Longrightarrow> set_lk i p k s = s"
  "files s x = Some f \<Longrightarrow> set_file x f s = s"
  by (auto simp: set_defs fun_upd_idem)

lemma os_ok_cong: "procs s' = procs s \<Longrightarrow> lk s' = lk s \<Longrightarrow> os_ok s' = os_ok s"
  by (simp add: os_ok_def)

lemma fcntl_form:
  assumes "fcntl_setlk e p i t a n s = (r, s')" "os_ok s" "p \<in> set (procs s)" "n = 0 \<longrightarrow> t = F_UNLCK"
  shows "os_ok s'" "s' = set_lk i p (if r = None then lock_update t a n (lk s i p) else lk s i p) s"
  using assms fcntl_os_ok [OF assms] by (auto elim!: fcntl_cases simp: set_triv)

text \<open>The structures a handle of a good state points to.\<close>

lemma inv_handle:
  assumes "lock_inv s" "files s x = Some f" "p = fpid f" "i = fino f"
  obtains L C where "lockHash s p i = Some L" "openHash s p i = Some C"
    "levels s p i x = Some (flocktype f)" "p \<in> set (procs s)" "os_ok s"
    "counted L C (levels s p i)" "ranked L (levels s p i)"
    "\<And>y m. levels s p i y = Some m \<Longrightarrow> backed (lk s i p) m"
proof -
  have g: "good (lockHash s p i) (openHash s p i) (lk s i p) (levels s p i)"
    using assms(1) unfolding lock_inv_def by blast
  have lv: "levels s p i x = Some (flocktype f)" using assms by (simp add: levels_def)
  have "os_ok s" "p \<in> set (procs s)" using assms unfolding lock_inv_def by auto
  then show thesis using g lv that unfolding good_def by (auto split: option.splits)
qed

text \<open>The workhorse: a handle moves to level \<open>l\<close>, the locks of its process on its file become
  \<open>k\<close>, the two structures become \<open>L'\<close> and \<open>C'\<close>.\<close>

lemma level_change:
  assumes inv: "lock_inv s" and fx: "files s x = Some f" and pi: "p = fpid f" "i = fino f"
    and L: "lockHash s p i = Some L" and C: "openHash s p i = Some C"
    and s': "s' = set_file x (f\<lparr>flocktype := l\<rparr>) (set_lock p i (Some L') (set_open p i (Some C') (set_lk i p k s)))"
    and os: "os_ok (set_lk i p k s)"
    and refs: "nRef L' = nRef L" "onRef C' = onRef C"
    and n: "cnt L' = cnt L + of_bool (1 \<le> l) - of_bool (1 \<le> flocktype f)"
    and m: "nLock C' = nLock C + of_bool (1 \<le> l) - of_bool (1 \<le> flocktype f)"
    and pe: "nPending C' = int (length (aPending C'))" "nLock C' = 0 \<longrightarrow> aPending C' = []"
    and rk: "ranked L' ((levels s p i)(x \<mapsto> l))"
    and bk: "backed k l" "\<And>y m. levels s p i y = Some m \<Longrightarrow> y \<noteq> x \<Longrightarrow> backed k m"
  shows "lock_inv s'"
proof -
  from inv_handle [OF inv fx pi] L C
  have lv: "levels s p i x = Some (flocktype f)" and p: "p \<in> set (procs s)" and ct: "counted L C (levels s p i)"
    by (metis option.inject)+
  show ?thesis
  proof (rule lock_invI [OF inv _ p])
    show "touches p i x s s'" using fx pi unfolding s' touches_def by (simp add: set_defs)
    show "os_ok s'" using os unfolding s' by (simp add: os_ok_def)
    have "counted L' C' ((levels s p i)(x \<mapsto> l))"
      using counted_upd [OF ct lv refs n m pe] .
    moreover have "backed k m" if "((levels s p i)(x \<mapsto> l)) y = Some m" for y m
      using that bk by (cases "y = x") auto
    ultimately show "good (lockHash s' p i) (openHash s' p i) (lk s' i p)
              ((levels s p i)(x := map_option flocktype (files s' x)))"
      using rk unfolding s' good_def by simp
  qed
qed

text \<open>Only the locks change.\<close>

lemma lk_change:
  assumes inv: "lock_inv s" and fx: "files s x = Some f" and pi: "p = fpid f" "i = fino f"
    and os: "os_ok (set_lk i p k s)" and bk: "\<And>y m. levels s p i y = Some m \<Longrightarrow> backed k m"
  shows "lock_inv (set_lk i p k s)"
proof -
  from inv_handle [OF inv fx pi] obtain L C where *: "lockHash s p i = Some L" "openHash s p i = Some C"
    "levels s p i x = Some (flocktype f)" "p \<in> set (procs s)"
    "counted L C (levels s p i)" "ranked L (levels s p i)" by metis
  show ?thesis
  proof (rule lock_invI [OF inv _ *(4) os])
    show "touches p i x s (set_lk i p k s)" using fx pi by (auto simp: touches_def set_defs)
    have "(levels s p i)(x := map_option flocktype (files (set_lk i p k s) x)) = levels s p i"
      using fx *(3) by (simp add: fun_upd_idem)
    then show "good (lockHash (set_lk i p k s) p i) (openHash (set_lk i p k s) p i) (lk (set_lk i p k s) i p)
              ((levels s p i)(x := map_option flocktype (files (set_lk i p k s) x)))"
      using * bk by (simp add: good_def)
  qed
qed

subsection \<open>Locking keeps the invariant\<close>

lemma counted_pos: "counted L C A \<Longrightarrow> 0 < cnt L \<Longrightarrow> \<exists>y m. A y = Some m \<and> 1 \<le> m"
  by (force simp: counted_def holders_def card_gt_0_iff)

lemma counted_finite: "counted L C A \<Longrightarrow> finite (holders A)"
  unfolding counted_def using holders_dom finite_subset by blast

lemma counted_0: "counted L C A \<Longrightarrow> cnt L = 0 \<Longrightarrow> A y = Some m \<Longrightarrow> m \<le> 0"
  using counted_finite [of L C A] by (force simp: counted_def holders_def)

lemma counted_1:
  assumes c: "counted L C A" and n: "cnt L \<le> 1" and x: "A x = Some l" "1 \<le> l" and y: "A y = Some m" "y \<noteq> x"
  shows "m \<le> 0"
proof (rule ccontr)
  assume "\<not> m \<le> 0"
  then have "{x, y} \<subseteq> holders A" using x y by (auto simp: holders_def)
  then have "card {x, y} \<le> card (holders A)" using counted_finite [OF c] card_mono by blast
  then show False using c n y by (auto simp: counted_def)
qed

lemma backed_0 [simp]: "backed k 0"
  by (simp add: backed_def)

lemma backed_nonneg: "backed k m \<Longrightarrow> 0 \<le> m"
  by (simp add: backed_def)

lemma backed_1: "backed k 1 \<longleftrightarrow> (\<forall>b. in_shared b \<longrightarrow> k b \<noteq> F_UNLCK)"
  by (simp add: backed_def)

lemma backed_mono:
  "backed k m \<Longrightarrow> m \<le> 1 \<Longrightarrow> (\<And>b. in_shared b \<Longrightarrow> k b \<noteq> F_UNLCK \<Longrightarrow> k' b \<noteq> F_UNLCK) \<Longrightarrow> backed k' m"
  by (auto simp: backed_def)

lemma shared_bytes [simp]: "\<not> in_shared PENDING_BYTE" "\<not> in_shared RESERVED_BYTE" "PENDING_BYTE \<noteq> RESERVED_BYTE" "RESERVED_BYTE \<noteq> PENDING_BYTE"
  by (simp_all add: in_shared_def SHARED_FIRST_def RESERVED_BYTE_def)

lemma upd_shared [simp]:
  "lock_update t SHARED_FIRST SHARED_SIZE k b = (if in_shared b then t else k b)"
  by (auto simp: lock_update_def in_shared_def SHARED_SIZE_def)

lemma upd_byte [simp]: "lock_update t a (Suc 0) k b = (if b = a then t else k b)"
  by (auto simp: lock_update_def)

lemma upd_pending [simp]:
  "lock_update t PENDING_BYTE 2 k b = (if b = PENDING_BYTE \<or> b = RESERVED_BYTE then t else k b)"
  by (auto simp: lock_update_def RESERVED_BYTE_def)

lemma lock_rc_nonzero [simp]: "lock_rc e \<noteq> 0"
  by (simp add: lock_rc_def)

lemma ranked_low: "(\<And>y m. A y = Some m \<Longrightarrow> m \<le> 1) \<Longrightarrow> ranked L A"
  by (force simp: ranked_def)

lemma ranked_top:
  assumes "\<And>y m. A y = Some m \<Longrightarrow> y \<noteq> x \<Longrightarrow> m \<le> (if l = 4 then 0 else 1)" "locktype L = l"
  shows "ranked L (A(x \<mapsto> l))"
  using assms unfolding ranked_def by (fastforce split: if_splits)

lemma fcntl_to:
  assumes "fcntl_setlk e p i t a n (set_lk i p k s) = (r, s')" "os_ok (set_lk i p k s)" "p \<in> set (procs s)"
    "n = 0 \<longrightarrow> t = F_UNLCK"
  obtains k' where "s' = set_lk i p k' s" "os_ok (set_lk i p k' s)"
    "k' = (if r = None then lock_update t a n k else k)"
proof -
  have "p \<in> set (procs (set_lk i p k s))" using assms(3) by simp
  note f = fcntl_form [OF assms(1,2) this assms(4)]
  then have "s' = set_lk i p (if r = None then lock_update t a n k else k) s" by simp
  then show thesis using that f(1) by metis
qed

lemma size_pos [simp]: "SHARED_SIZE \<noteq> 0" "0 < SHARED_SIZE"
  by (simp_all add: SHARED_SIZE_def)

lemma shared_inv:
  assumes inv: "lock_inv s" and fx: "files s x = Some f" and pi: "p = fpid f" "i = fino f"
    and L: "lockHash s p i = Some L" and C: "openHash s p i = Some C" and f0: "flocktype f = 0"
    and os: "os_ok (set_lk i p k s)"
    and r: "unixLock_shared env x f L C (set_lk i p k s) = Some (rc, s')"
  shows "lock_inv s'"
proof -
  from inv_handle [OF inv fx pi] L C
  have lv: "levels s p i x = Some 0" and p: "p \<in> set (procs s)" and ct: "counted L C (levels s p i)"
    using f0 by (metis option.inject)+
  obtain e1 s1 where 1: "fcntl_setlk (env 1) p i F_RDLCK SHARED_FIRST SHARED_SIZE (set_lk i p k s) = (e1, s1)"
    by fastforce
  obtain e2 s2 where 2: "fcntl_setlk (env 2) p i F_UNLCK PENDING_BYTE 1 s1 = (e2, s2)" by fastforce
  have c0: "cnt L = 0" "locktype L = 0"
    using r by (auto simp: unixLock_shared_def split: if_splits)
  have low: "m = 0" if "levels s p i y = Some m" for y m
    using counted_0 [OF ct c0(1) that] inv_handle [OF inv fx pi] that backed_nonneg by (metis order_antisym)
  from fcntl_to [OF 1 os p] obtain k1 where k1: "s1 = set_lk i p k1 s" "os_ok (set_lk i p k1 s)"
    "k1 = (if e1 = None then lock_update F_RDLCK SHARED_FIRST SHARED_SIZE k else k)" by auto
  from fcntl_to [OF 2 [unfolded k1(1)] k1(2) p] obtain k2 where s2k: "s2 = set_lk i p k2 s"
    and os2: "os_ok (set_lk i p k2 s)" and k2: "k2 = (if e2 = None then lock_update F_UNLCK PENDING_BYTE 1 k1 else k1)" by auto
  have bk: "backed k2 m" if "levels s p i y = Some m" for y m
    using low [OF that] by simp
  have stay: "lock_inv s2" using lk_change [OF inv fx pi os2 bk] s2k by simp
  show ?thesis
  proof (cases "e1 = None \<and> e2 = None")
    case True
    then have "k2 = lock_update F_UNLCK PENDING_BYTE 1 (lock_update F_RDLCK SHARED_FIRST SHARED_SIZE k)"
      using k1(3) k2 by simp
    then have "backed k2 1" by (auto simp: backed_1)
    moreover have "s' = set_file x (f\<lparr>flocktype := 1\<rparr>) (set_lock p i (Some (L\<lparr>cnt := 1, locktype := 1\<rparr>))
        (set_open p i (Some (C\<lparr>nLock := nLock C + 1\<rparr>)) (set_lk i p k2 s)))"
      using r 1 2 True pi c0 by (simp add: unixLock_shared_def unixLock_finish_def s2k)
    moreover have "ranked (L\<lparr>cnt := 1, locktype := 1\<rparr>) ((levels s p i)(x \<mapsto> 1))"
      by (rule ranked_low) (auto split: if_splits dest: low)
    ultimately show ?thesis
      using ct c0 f0 bk
      by (intro level_change [OF inv fx pi L C _ os2, where l = 1]) (auto simp: counted_def)
  next
    case False
    then have "s' = s2"
      using r 1 2 pi c0 by (auto simp: unixLock_shared_def unixLock_finish_def split: if_splits)
    then show ?thesis using stay by simp
  qed
qed


lemma write_inv:
  assumes inv: "lock_inv s" and fx: "files s x = Some f" and pi: "p = fpid f" "i = fino f"
    and L: "lockHash s p i = Some L" and C: "openHash s p i = Some C"
    and os: "os_ok (set_lk i p k s)" and own: "1 \<le> flocktype f" "flocktype f = locktype L"
    and k: "lt = 4 \<Longrightarrow> k PENDING_BYTE = F_WRLCK" "\<And>y m. levels s p i y = Some m \<Longrightarrow> backed k m"
    and lt: "flocktype f < lt" "lt = 2 \<or> lt = 4"
    and r: "(if lt = 4 \<and> cnt L > 1 then unixLock_finish SQLITE_BUSY x lt f L (set_lk i p k s)
             else unixLock_write env x lt f L (set_lk i p k s)) = Some (rc, s')"
  shows "lock_inv s'"
proof -
  from inv_handle [OF inv fx pi] L C
  have lv: "levels s p i x = Some (flocktype f)" and p: "p \<in> set (procs s)" and ct: "counted L C (levels s p i)"
    and rk: "ranked L (levels s p i)"
    by (metis option.inject)+
  have fb: "backed k (flocktype f)" using k(2) lv by blast
  have le1: "m \<le> 1" if "levels s p i y = Some m" "y \<noteq> x" for y m
  proof (rule ccontr)
    assume "\<not> m \<le> 1"
    then have "locktype L = m" "flocktype f \<le> (if m = 4 then 0 else 1)"
      using rk that lv unfolding ranked_def by (metis one_add_one not_le zless_imp_add1_zle)+
    then show False using \<open>\<not> m \<le> 1\<close> own by (auto split: if_splits)
  qed
  have alone: "m \<le> 0" if "cnt L \<le> 1" "levels s p i y = Some m" "y \<noteq> x" for y m
    using counted_1 [OF ct that(1) lv own(1) that(2,3)] .
  \<comment> \<open>a level reached, with the locks \<open>k'\<close> that back it\<close>
  have reached: "lock_inv s''"
    if "s'' = set_file x (f\<lparr>flocktype := l\<rparr>) (set_lock p i (Some (L\<lparr>locktype := l\<rparr>)) (set_lk i p k' s))"
      "os_ok (set_lk i p k' s)" "backed k' l" "\<And>b. in_shared b \<Longrightarrow> k b \<noteq> F_UNLCK \<Longrightarrow> k' b \<noteq> F_UNLCK"
      "1 \<le> l" "l = 4 \<Longrightarrow> cnt L \<le> 1" for s'' l k'
  proof -
    have "ranked (L\<lparr>locktype := l\<rparr>) ((levels s p i)(x \<mapsto> l))"
      by (rule ranked_top) (use le1 alone that(6) in \<open>auto split: if_splits\<close>)
    moreover have "backed k' m" if "levels s p i y = Some m" "y \<noteq> x" for y m
      using backed_mono [OF k(2) [OF that(1)] le1 [OF that]] \<open>\<And>b. in_shared b \<Longrightarrow> k b \<noteq> F_UNLCK \<Longrightarrow> k' b \<noteq> F_UNLCK\<close> by blast
    moreover have "s'' = set_file x (f\<lparr>flocktype := l\<rparr>) (set_lock p i (Some (L\<lparr>locktype := l\<rparr>))
        (set_open p i (Some C) (set_lk i p k' s)))"
      using that(1) C by (simp add: set_triv)
    ultimately show ?thesis
      using that(2,3,5) ct own
      by (intro level_change [OF inv fx pi L C, where l = l]) (auto simp: counted_def)
  qed
  have pend: "backed k 3" if "lt = 4"
    using fb k(1) [OF that] own(1) by (auto simp: backed_def)
  show ?thesis
  proof (cases "lt = 4 \<and> cnt L > 1")
    case True
    then have "s' = set_file x (f\<lparr>flocktype := 3\<rparr>) (set_lock p i (Some (L\<lparr>locktype := 3\<rparr>)) (set_lk i p k s))"
      using r pi by (simp add: unixLock_finish_def)
    from reached [OF this os pend] True show ?thesis by simp
  next
    case False
    obtain e s1 where e: "(if lt = RESERVED_LOCK then fcntl_setlk (env 1) p i F_WRLCK RESERVED_BYTE 1 (set_lk i p k s)
         else fcntl_setlk (env 1) p i F_WRLCK SHARED_FIRST SHARED_SIZE (set_lk i p k s)) = (e, s1)" by fastforce
    obtain k1 where k1: "s1 = set_lk i p k1 s" "os_ok (set_lk i p k1 s)"
      "k1 = (if e = None then if lt = 2 then lock_update F_WRLCK RESERVED_BYTE 1 k
             else lock_update F_WRLCK SHARED_FIRST SHARED_SIZE k else k)"
    proof (cases "lt = 2")
      case True
      with e have "fcntl_setlk (env 1) p i F_WRLCK RESERVED_BYTE 1 (set_lk i p k s) = (e, s1)" by simp
      from fcntl_to [OF this os p] obtain k' where "s1 = set_lk i p k' s" "os_ok (set_lk i p k' s)"
        "k' = (if e = None then lock_update F_WRLCK RESERVED_BYTE 1 k else k)" by fastforce
      then show thesis by (intro that [of k']) (simp_all add: True)
    next
      case False
      with e have "fcntl_setlk (env 1) p i F_WRLCK SHARED_FIRST SHARED_SIZE (set_lk i p k s) = (e, s1)" by simp
      from fcntl_to [OF this os p] obtain k' where "s1 = set_lk i p k' s" "os_ok (set_lk i p k' s)"
        "k' = (if e = None then lock_update F_WRLCK SHARED_FIRST SHARED_SIZE k else k)" by fastforce
      then show thesis by (intro that [of k']) (simp_all add: False)
    qed
    have keep: "in_shared b \<Longrightarrow> k b \<noteq> F_UNLCK \<Longrightarrow> k1 b \<noteq> F_UNLCK" for b
      by (auto simp: k1(3))
    have fin: "unixLock_finish (case e of None \<Rightarrow> SQLITE_OK | Some e \<Rightarrow> lock_rc e) x lt f L s1 = Some (rc, s')"
      using r False e pi own lt by (auto simp: unixLock_write_def split: if_splits)
    show ?thesis
    proof (cases e)
      case None
      have "backed k1 lt" using fb k(1) lt own(1) None by (auto simp: k1(3) backed_def)
      moreover have "s' = set_file x (f\<lparr>flocktype := lt\<rparr>) (set_lock p i (Some (L\<lparr>locktype := lt\<rparr>)) (set_lk i p k1 s))"
        using fin None pi by (simp add: unixLock_finish_def k1)
      ultimately show ?thesis using reached [OF _ k1(2) _ keep] False lt by fastforce
    next
      case (Some err)
      show ?thesis
      proof (cases "lt = 4")
        case True
        then have "s' = set_file x (f\<lparr>flocktype := 3\<rparr>) (set_lock p i (Some (L\<lparr>locktype := 3\<rparr>)) (set_lk i p k s))"
          using fin Some pi by (simp add: unixLock_finish_def k1)
        from reached [OF this os pend] True show ?thesis by simp
      next
        case False
        then have "s' = set_lk i p k s" using fin Some pi by (simp add: unixLock_finish_def k1)
        then show ?thesis using lk_change [OF inv fx pi os k(2)] by simp
      qed
    qed
  qed
qed

lemma ranked_add:
  assumes rk: "ranked L A" and "locktype L < 3" "locktype L' = locktype L"
  shows "ranked L' (A(x \<mapsto> 1))"
  unfolding ranked_def
proof (intro allI impI)
  fix y l assume y: "(A(x \<mapsto> 1)) y = Some l" "2 \<le> l"
  then have "y \<noteq> x" "A y = Some l" by (auto split: if_splits)
  with rk y(2) have "locktype L = l" "\<And>z m. A z = Some m \<Longrightarrow> z \<noteq> y \<Longrightarrow> m \<le> (if l = 4 then 0 else 1)"
    unfolding ranked_def by blast+
  with assms(2,3) show "locktype L' = l \<and> (\<forall>z m. (A(x \<mapsto> 1)) z = Some m \<longrightarrow> z \<noteq> y \<longrightarrow> m \<le> (if l = 4 then 0 else 1))"
    by auto
qed

lemma unixLock_inv:
  assumes inv: "lock_inv s" and r: "unixLock env x lt s = Some (rc, s')"
  shows "lock_inv s'"
proof -
  obtain f where fx: "files s x = Some f" using r by (auto simp: unixLock_def split: option.splits)
  define p i where pi: "p = fpid f" "i = fino f"
  from inv_handle [OF inv fx pi] obtain L C where L: "lockHash s p i = Some L" and C: "openHash s p i = Some C"
    and lv: "levels s p i x = Some (flocktype f)" and p: "p \<in> set (procs s)" and os: "os_ok s"
    and ct: "counted L C (levels s p i)" and rk: "ranked L (levels s p i)"
    and bk: "\<And>y m. levels s p i y = Some m \<Longrightarrow> backed (lk s i p) m" by metis
  note L' = L [unfolded pi] and C' = C [unfolded pi]
  have self: "set_lk i p (lk s i p) s = s" by (simp add: set_triv)
  have f0: "0 \<le> flocktype f" using bk [OF lv] by (rule backed_nonneg)
  note code = r [unfolded unixLock_def, simplified fx L' C' option.case transferOwnership_def]
  show ?thesis
  proof (cases "flocktype f \<ge> lt \<or> flocktype f \<noteq> locktype L \<and> (locktype L \<ge> PENDING_LOCK \<or> lt > SHARED_LOCK)")
    case True then show ?thesis using code inv by (auto split: if_splits)
  next
    case go: False
    show ?thesis
    proof (cases "lt = SHARED_LOCK \<and> (locktype L = SHARED_LOCK \<or> locktype L = RESERVED_LOCK)")
      case True
      then have a0: "flocktype f = 0" and c: "0 < cnt L" and
        s': "s' = set_file x (f\<lparr>flocktype := SHARED_LOCK\<rparr>)
                 (set_lock p i (Some (L\<lparr>cnt := cnt L + 1\<rparr>))
                   (set_open p i (Some (C\<lparr>nLock := nLock C + 1\<rparr>)) s))"
        using code go f0 by (auto simp: pi split: if_splits)
      obtain y m where "levels s p i y = Some m" "1 \<le> m" using counted_pos [OF ct c] by auto
      then have "backed (lk s i p) 1" using bk by (fastforce simp: backed_def)
      moreover have "ranked (L\<lparr>cnt := cnt L + 1\<rparr>) ((levels s p i)(x \<mapsto> 1))"
        by (rule ranked_add [OF rk]) (use True in auto)
      ultimately show ?thesis
        using s' a0 ct bk os c
        by (intro level_change [OF inv fx pi L C, where l = 1 and k = "lk s i p"])
          (auto simp: self counted_def)
    next
      case share: False
      obtain e s1 where e: "(if lt = SHARED_LOCK \<or> (lt = EXCLUSIVE_LOCK \<and> flocktype f < PENDING_LOCK)
           then fcntl_setlk (env 0) p i (if lt = SHARED_LOCK then F_RDLCK else F_WRLCK) PENDING_BYTE 1 s
           else (None, s)) = (e, s1)" by fastforce
      note code = code [simplified go share pi [symmetric] e if_False prod.case]
      obtain k where k: "s1 = set_lk i p k s" "os_ok (set_lk i p k s)"
        "k = (if (lt = SHARED_LOCK \<or> lt = EXCLUSIVE_LOCK \<and> flocktype f < PENDING_LOCK) \<and> e = None
              then lock_update (if lt = SHARED_LOCK then F_RDLCK else F_WRLCK) PENDING_BYTE 1 (lk s i p) else lk s i p)"
      proof (cases "lt = SHARED_LOCK \<or> (lt = EXCLUSIVE_LOCK \<and> flocktype f < PENDING_LOCK)")
        case True
        with e have "fcntl_setlk (env 0) p i (if lt = SHARED_LOCK then F_RDLCK else F_WRLCK) PENDING_BYTE 1
            (set_lk i p (lk s i p) s) = (e, s1)" by (simp add: self)
        from fcntl_to [OF this _ p] os self show thesis using that True by fastforce
      next
        case False then show thesis using that [of "lk s i p"] e os self by auto
      qed
      have bkk: "backed k m" if "levels s p i y = Some m" for y m
      proof (cases "lt = SHARED_LOCK \<and> e = None")
        case True
        then have "flocktype f = 0" using go f0 by auto
        then have "locktype L < 3" using go by auto
        then have "m \<noteq> 3" "m \<noteq> 4" using rk that unfolding ranked_def by fastforce+
        then show ?thesis using bk [OF that] True by (auto simp: k(3) backed_def)
      next
        case False then show ?thesis using bk [OF that] by (auto simp: k(3) backed_def)
      qed
      show ?thesis
      proof (cases "e = None")
        case False
        then have "s' = s1" using code go by (auto split: if_splits option.splits)
        then show ?thesis using lk_change [OF inv fx pi k(2) bkk] k(1) by simp
      next
        case ok: True
        show ?thesis
        proof (cases "lt = SHARED_LOCK")
          case True
          then have "flocktype f = 0" using go f0 by auto
          then show ?thesis
            using shared_inv [OF inv fx pi L C _ k(2)] code go ok True k(1) by (auto split: if_splits)
        next
          case False
          have own: "1 \<le> flocktype f" "flocktype f = locktype L" "flocktype f < lt"
            using code go False f0 by (auto split: if_splits)
          have w: "(if lt = 4 \<and> cnt L > 1 then unixLock_finish SQLITE_BUSY x lt f L (set_lk i p k s)
             else unixLock_write env x lt f L (set_lk i p k s)) = Some (rc, s')"
            using code go ok False k(1) by (auto split: if_splits)
          then have "lt = 2 \<or> lt = 4" using own by (auto simp: unixLock_write_def split: if_splits)
          moreover have "k PENDING_BYTE = F_WRLCK" if "lt = 4"
            using that ok bk [OF lv] own(3) by (auto simp: k(3) backed_def)
          ultimately show ?thesis
            by (intro write_inv [OF inv fx pi L C k(2) own(1,2) _ _ own(3) _ w]) (use bkk in auto)
        qed
      qed
    qed
  qed
qed


lemma close_pending_form:
  assumes "close_pending p i C (set_lk i p k s) = (C', s')" "nPending C = int (length (aPending C))"
  obtains k' where "s' = set_lk i p k' s" "k' = (if nLock C = 0 \<and> aPending C \<noteq> [] then (\<lambda>_. F_UNLCK) else k)"
    "nLock C' = nLock C" "onRef C' = onRef C" "nPending C' = int (length (aPending C'))"
    "nLock C' = 0 \<longrightarrow> aPending C' = []"
proof -
  have *: "fold (\<lambda>_. close_fd p i) xs (set_lk i p k s) = set_lk i p (if xs = [] then k else (\<lambda>_. F_UNLCK)) s" for xs :: "fd list" and k
    by (induction xs arbitrary: k) (auto simp: close_fd_def)
  show thesis
    using assms that [of "if nLock C = 0 \<and> aPending C \<noteq> [] then (\<lambda>_. F_UNLCK) else k"]
    by (auto simp: close_pending_def * split: if_splits)
qed

lemma release_form:
  assumes r: "unixUnlock_release env rc f L C (set_lk i p k s) = Some (rc', L', C', s')"
    and pi: "p = fpid f" "i = fino f" and os: "os_ok (set_lk i p k s)" and p: "p \<in> set (procs s)"
    and pe: "nPending C = int (length (aPending C))"
  obtains k' where "s' = set_lk i p k' s" "os_ok (set_lk i p k' s)" "nRef L' = nRef L" "onRef C' = onRef C"
    "cnt L' = cnt L - 1" "cnt L \<noteq> 1 \<Longrightarrow> locktype L' = locktype L" "nLock C' = nLock C - 1"
    "cnt L \<noteq> 1 \<Longrightarrow> nLock C \<noteq> 1 \<Longrightarrow> k' = k"
    "nPending C' = int (length (aPending C'))" "nLock C' = 0 \<longrightarrow> aPending C' = []"
proof -
  define L1 where "L1 = L\<lparr>cnt := cnt L - 1\<rparr>"
  obtain e s1 where e: "fcntl_setlk (env 2) p i F_UNLCK 0 0 (set_lk i p k s) = (e, s1)" by fastforce
  from fcntl_to [OF e os p] obtain k1 where k1: "s1 = set_lk i p k1 s" "os_ok (set_lk i p k1 s)" by auto
  obtain L2 k2 where 2: "(if cnt L1 = 0 then
               (if e = None then (rc, L1\<lparr>locktype := NO_LOCK\<rparr>, s1) else (SQLITE_IOERR, L1, s1))
             else (rc, L1, set_lk i p k s)) = (rc', L', set_lk i p k2 s)" "os_ok (set_lk i p k2 s)"
             "cnt L \<noteq> 1 \<Longrightarrow> k2 = k" 
    and 3: "close_pending p i (C\<lparr>nLock := nLock C - 1\<rparr>) (set_lk i p k2 s) = (C', s')"
    using r e k1 os unfolding unixUnlock_release_def Let_def L1_def [symmetric] pi [symmetric]
    by (auto simp: L1_def pi split: if_splits prod.splits)
  have L2: "nRef L' = nRef L" "cnt L' = cnt L - 1" "cnt L \<noteq> 1 \<Longrightarrow> locktype L' = locktype L"
    using 2(1) by (auto simp: L1_def split: if_splits)
  from close_pending_form [OF 3] pe obtain k' where k': "s' = set_lk i p k' s"
    "k' = (if nLock C = 1 \<and> aPending C \<noteq> [] then (\<lambda>_. F_UNLCK) else k2)"
    "nLock C' = nLock C - 1" "onRef C' = onRef C" "nPending C' = int (length (aPending C'))"
    "nLock C' = 0 \<longrightarrow> aPending C' = []" by auto
  have "os_ok (set_lk i p k' s)"
    using close_fd_os_ok [OF 2(2), of p i] 2(2) by (simp add: k'(2) close_fd_def)
  with k' L2 2(3) show thesis by (intro that [of k']) auto
qed

subsection \<open>Unlocking, closing and opening keep the invariant\<close>

lemma lower_form:
  assumes r: "unixUnlock_lower env lt f L (set_lk i p k s) = (rc, L', s')"
    and pi: "p = fpid f" "i = fino f" and os: "os_ok (set_lk i p k s)" and p: "p \<in> set (procs s)"
  obtains k' where "s' = set_lk i p k' s" "os_ok (set_lk i p k' s)" "nRef L' = nRef L" "cnt L' = cnt L"
    "\<And>b. in_shared b \<Longrightarrow> k b \<noteq> F_UNLCK \<Longrightarrow> k' b \<noteq> F_UNLCK"
proof -
  obtain e0 s1 where e0: "(if lt = SHARED_LOCK then fcntl_setlk (env 0) p i F_RDLCK SHARED_FIRST SHARED_SIZE (set_lk i p k s)
         else (None, set_lk i p k s)) = (e0, s1)" by fastforce
  obtain k1 where k1: "s1 = set_lk i p k1 s" "os_ok (set_lk i p k1 s)"
    "\<And>b. in_shared b \<Longrightarrow> k b \<noteq> F_UNLCK \<Longrightarrow> k1 b \<noteq> F_UNLCK"
  proof (cases "lt = SHARED_LOCK")
    case True
    with e0 have "fcntl_setlk (env 0) p i F_RDLCK SHARED_FIRST SHARED_SIZE (set_lk i p k s) = (e0, s1)" by simp
    from fcntl_to [OF this os p] obtain k' where "s1 = set_lk i p k' s" "os_ok (set_lk i p k' s)"
      "k' = (if e0 = None then lock_update F_RDLCK SHARED_FIRST SHARED_SIZE k else k)" by auto
    then show thesis by (intro that [of k']) auto
  next
    case False then show thesis using that [of k] e0 os by simp
  qed
  obtain e1 s2 where e1: "fcntl_setlk (env 1) p i F_UNLCK PENDING_BYTE 2 s1 = (e1, s2)" by fastforce
  from fcntl_to [OF e1 [unfolded k1(1)] k1(2) p] obtain k2 where k2: "s2 = set_lk i p k2 s" "os_ok (set_lk i p k2 s)"
      "k2 = (if e1 = None then lock_update F_UNLCK PENDING_BYTE 2 k1 else k1)" by auto
  have "s' = s2" "nRef L' = nRef L" "cnt L' = cnt L"
    using r e0 e1 unfolding unixUnlock_lower_def Let_def pi [symmetric] by (auto split: if_splits)
  with k2 k1(3) show thesis by (intro that [of k2]) auto
qed

lemma others_low:
  assumes rk: "ranked L A" and x: "A x = Some l" "2 \<le> l" and y: "A y = Some m" "y \<noteq> x"
  shows "m \<le> 1"
proof -
  have "m \<le> (if l = 4 then 0 else 1)" using assms unfolding ranked_def by blast
  then show ?thesis by (auto split: if_splits)
qed

lemma ranked_release:
  assumes rk: "ranked L A" and "locktype L' = locktype L"
  shows "ranked L' (A(x \<mapsto> 0))"
  unfolding ranked_def
proof (intro allI impI)
  fix y l assume y: "(A(x \<mapsto> 0)) y = Some l" "2 \<le> l"
  then have "y \<noteq> x" "A y = Some l" by (auto split: if_splits)
  with rk y(2) have "locktype L = l" "\<And>z m. A z = Some m \<Longrightarrow> z \<noteq> y \<Longrightarrow> m \<le> (if l = 4 then 0 else 1)"
    unfolding ranked_def by blast+
  with assms(2) show "locktype L' = l \<and> (\<forall>z m. (A(x \<mapsto> 0)) z = Some m \<longrightarrow> z \<noteq> y \<longrightarrow> m \<le> (if l = 4 then 0 else 1))"
    by auto
qed

lemma unixUnlock_inv:
  assumes inv: "lock_inv s" and lt: "lt = NO_LOCK \<or> lt = SHARED_LOCK" and r: "unixUnlock env x lt s = Some (rc, s')"
  shows "lock_inv s'"
proof -
  obtain f where fx: "files s x = Some f" using r by (auto simp: unixUnlock_def split: option.splits)
  define p i where pi: "p = fpid f" "i = fino f"
  from inv_handle [OF inv fx pi] obtain L C where L: "lockHash s p i = Some L" and C: "openHash s p i = Some C"
    and lv: "levels s p i x = Some (flocktype f)" and p: "p \<in> set (procs s)" and os: "os_ok s"
    and ct: "counted L C (levels s p i)" and rk: "ranked L (levels s p i)"
    and bk: "\<And>y m. levels s p i y = Some m \<Longrightarrow> backed (lk s i p) m" by metis
  define k where "k = lk s i p"
  have self: "set_lk i p k s = s" by (simp add: k_def set_triv)
  note code = r [unfolded unixUnlock_def, simplified fx L [unfolded pi] C [unfolded pi] option.case, folded pi]
  show ?thesis
  proof (cases "flocktype f \<le> lt")
    case True then show ?thesis using code inv by (auto split: if_splits)
  next
    case hi: False
    obtain rc1 L1 s1 where 1: "(if flocktype f > SHARED_LOCK then unixUnlock_lower env lt f L s else (SQLITE_OK, L, s)) = (rc1, L1, s1)"
      by (metis prod_cases3)
    obtain rc2 L2 C2 s2 where 2: "(if lt = NO_LOCK then unixUnlock_release env rc1 f L1 C s1 else Some (rc1, L1, C, s1)) = Some (rc2, L2, C2, s2)"
      and s': "s' = set_file x (f\<lparr>flocktype := lt\<rparr>) (set_lock p i (Some L2) (set_open p i (Some C2) s2))"
      using code hi lt 1 by (auto split: if_splits option.splits)
    have m1: "locktype L = flocktype f" if "flocktype f > 1"
      using rk lv that unfolding ranked_def by force
    obtain k1 where k1: "s1 = set_lk i p k1 s" "os_ok (set_lk i p k1 s)" "nRef L1 = nRef L" "cnt L1 = cnt L"
      "\<And>b. in_shared b \<Longrightarrow> k b \<noteq> F_UNLCK \<Longrightarrow> k1 b \<noteq> F_UNLCK"
      "flocktype f \<le> 1 \<Longrightarrow> k1 = k \<and> L1 = L"
    proof (cases "flocktype f > 1")
      case True
      with 1 have "unixUnlock_lower env lt f L (set_lk i p k s) = (rc1, L1, s1)" by (simp add: self)
      from lower_form [OF this pi _ p] os self show thesis using that True by (metis not_le)
    next
      case False then show thesis using that [of k] 1 os self by auto
    qed
    have pe: "nPending C = int (length (aPending C))" "nLock C = 0 \<longrightarrow> aPending C = []" "nLock C = cnt L"
      using ct by (auto simp: counted_def)
    have high: "\<And>y m. levels s p i y = Some m \<Longrightarrow> y \<noteq> x \<Longrightarrow> m \<le> 1" if "flocktype f > 1"
      using others_low [OF rk lv] that by auto
    have bk1: "backed k1 m" if "levels s p i y = Some m" "y \<noteq> x" for y m
    proof (cases "flocktype f > 1")
      case True then show ?thesis using backed_mono [OF bk [OF that(1)] high [OF True that]] k1(5) k_def by blast
    next
      case False then show ?thesis using bk [OF that(1)] k1(6) by (simp add: k_def)
    qed
    show ?thesis
    proof (cases "lt = NO_LOCK")
      case False
      then have "ranked L2 ((levels s p i)(x \<mapsto> lt))"
        by (intro ranked_low) (use hi lt high in \<open>auto split: if_splits\<close>)
      moreover have "backed k1 lt" using False lt bk [OF lv] hi k1(5) by (auto simp: backed_def k_def)
      ultimately show ?thesis
        using False lt 2 s' k1 hi bk1 pe
        by (intro level_change [OF inv fx pi L C, where l = lt and k = k1]) auto
    next
      case True
      with 2 have "unixUnlock_release env rc1 f L1 C (set_lk i p k1 s) = Some (rc2, L2, C2, s2)" by (simp add: k1(1))
      from release_form [OF this pi k1(2) p pe(1)] obtain k2 where k2: "s2 = set_lk i p k2 s" "os_ok (set_lk i p k2 s)"
        "nRef L2 = nRef L1" "onRef C2 = onRef C" "cnt L2 = cnt L1 - 1" "cnt L1 \<noteq> 1 \<Longrightarrow> locktype L2 = locktype L1"
        "nLock C2 = nLock C - 1" "cnt L1 \<noteq> 1 \<Longrightarrow> nLock C \<noteq> 1 \<Longrightarrow> k2 = k1"
        "nPending C2 = int (length (aPending C2))" "nLock C2 = 0 \<longrightarrow> aPending C2 = []" by metis
      have alone: "m = 0" if "cnt L = 1" "levels s p i y = Some m" "y \<noteq> x" for y m
        using counted_1 [OF ct _ lv _ that(2,3)] that hi True backed_nonneg [OF bk [OF that(2)]] by simp
      have "backed k2 m" if "levels s p i y = Some m" "y \<noteq> x" for y m
        using bk1 [OF that] alone [OF _ that] k2(8) k1(4) pe(3) by (cases "cnt L = 1") auto
      moreover have "ranked L2 ((levels s p i)(x \<mapsto> 0))"
      proof (cases "cnt L = 1 \<or> flocktype f > 1")
        case True
        then have "m \<le> 1" if "levels s p i y = Some m" "y \<noteq> x" for y m
          using high [OF _ that] alone [OF _ that] by fastforce
        then show ?thesis by (intro ranked_low) (auto split: if_splits)
      next
        case False
        then show ?thesis using ranked_release [OF rk] k2(6) k1(4,6) by auto
      qed
      ultimately show ?thesis
        using True s' k2 k1(3,4) hi pe
        by (intro level_change [OF inv fx pi L C, where l = 0 and k = k2]) auto
    qed
  qed
qed


lemma ranked_sub:
  "ranked L A \<Longrightarrow> locktype L' = locktype L \<Longrightarrow> (\<And>y m. A' y = Some m \<Longrightarrow> A y = Some m) \<Longrightarrow> ranked L' A'"
  unfolding ranked_def by metis

text \<open>A handle goes away: the counters of its structures drop, the last one takes them along.\<close>

lemma good_remove:
  assumes ct: "counted L C A" and rk: "ranked L A" and bk: "\<And>y m. A y = Some m \<Longrightarrow> y \<noteq> x \<Longrightarrow> backed k m"
    and x: "A x = Some 0"
    and C': "onRef C' = onRef C" "nLock C' = nLock C" "nPending C' = int (length (aPending C'))"
      "nLock C' = 0 \<longrightarrow> aPending C' = []"
  shows "good (if nRef L - 1 = 0 then None else Some (L\<lparr>nRef := nRef L - 1\<rparr>))
           (if onRef C' - 1 = 0 then None else Some (C'\<lparr>onRef := onRef C' - 1\<rparr>)) k (A(x := None))"
proof -
  have fin: "finite (dom A)" and n: "nRef L = int (card (dom A))" "onRef C = int (card (dom A))"
    using ct by (auto simp: counted_def)
  have xin: "x \<in> dom A" using x by auto
  have card: "int (card (dom (A(x := None)))) = int (card (dom A)) - 1"
    using fin xin card_gt_0_iff [of "dom A"] by (auto simp: card_Diff_singleton)
  have h: "holders (A(x := None)) = holders A" using x by (auto simp: holders_def)
  show ?thesis
  proof (cases "card (dom A) = 1")
    case True
    then have "dom (A(x := None)) = {}" using card fin by simp
    then show ?thesis using True n C' by (simp add: good_def)
  next
    case False
    then have "card (dom (A(x := None))) \<noteq> 0" using card by simp
    then have "dom (A(x := None)) \<noteq> {}" by (metis card.empty)
    moreover have "ranked (L\<lparr>nRef := nRef L - 1\<rparr>) (A(x := None))"
      by (rule ranked_sub [OF rk]) (auto split: if_splits)
    moreover have "backed k m" if "(A(x := None)) y = Some m" for y m
      using that bk by (auto split: if_splits)
    ultimately show ?thesis using False n C' card ct h fin unfolding good_def counted_def by simp
  qed
qed

lemma release_get:
  "procs (releaseLockInfo p i s) = procs s" "files (releaseLockInfo p i s) = files s"
  "lk (releaseLockInfo p i s) = lk s" "openHash (releaseLockInfo p i s) = openHash s"
  "procs (releaseOpenCnt p i s) = procs s" "files (releaseOpenCnt p i s) = files s"
  "lk (releaseOpenCnt p i s) = lk s" "lockHash (releaseOpenCnt p i s) = lockHash s"
  "lockHash s p i = Some L \<Longrightarrow> lockHash (releaseLockInfo p i s) p i =
     (if nRef L - 1 = 0 then None else Some (L\<lparr>nRef := nRef L - 1\<rparr>))"
  "openHash s p i = Some C \<Longrightarrow> openHash (releaseOpenCnt p i s) p i =
     (if onRef C - 1 = 0 then None else Some (C\<lparr>onRef := onRef C - 1\<rparr>))"
  "(q, j) \<noteq> (p, i) \<Longrightarrow> lockHash (releaseLockInfo p i s) q j = lockHash s q j"
  "(q, j) \<noteq> (p, i) \<Longrightarrow> openHash (releaseOpenCnt p i s) q j = openHash s q j"
  by (auto simp: releaseLockInfo_def releaseOpenCnt_def set_defs split: option.splits)

lemma unlock_handle:
  assumes r: "unixUnlock env x NO_LOCK s = Some (rc, s')" and fx: "files s x = Some f" "0 \<le> flocktype f"
  shows "files s' x = Some (f\<lparr>flocktype := 0\<rparr>)"
proof (cases "flocktype f = 0")
  case True
  then have "f\<lparr>flocktype := 0\<rparr> = f" by (cases f) simp
  then show ?thesis using True r fx by (simp add: unixUnlock_def)
next
  case False
  then show ?thesis using r fx by (auto simp: unixUnlock_def split: option.splits if_splits prod.splits)
qed

lemma unixClose_inv:
  assumes inv: "lock_inv s" and r: "unixClose env room x s = Some (rc, s')"
  shows "lock_inv s'"
proof -
  obtain f0 rc1 s1 where fx0: "files s x = Some f0" and u: "unixUnlock env x NO_LOCK s = Some (rc1, s1)"
    using r by (auto simp: unixClose_def split: option.splits)
  define f p i where f: "f = f0\<lparr>flocktype := 0\<rparr>" and pi0: "p = fpid f0" "i = fino f0"
  have inv1: "lock_inv s1" using unixUnlock_inv [OF inv _ u] by simp
  have "0 \<le> flocktype f0" using inv_handle [OF inv fx0 refl refl] backed_nonneg by metis
  then have fx: "files s1 x = Some f" using unlock_handle [OF u fx0] f by simp
  have pi: "p = fpid f" "i = fino f" by (simp_all add: pi0 f)
  from inv_handle [OF inv1 fx pi] obtain L C where L: "lockHash s1 p i = Some L" and C: "openHash s1 p i = Some C"
    and lv: "levels s1 p i x = Some 0" and p: "p \<in> set (procs s1)" and os: "os_ok s1"
    and ct: "counted L C (levels s1 p i)" and rk: "ranked L (levels s1 p i)"
    and bk: "\<And>y m. levels s1 p i y = Some m \<Longrightarrow> backed (lk s1 i p) m" using f by (metis unixFile.simps(4) unixFile.select_convs(4) unixFile.surjective unixFile.update_convs(4))
  define C' where "C' = (if nLock C \<noteq> 0 \<and> room then C\<lparr>aPending := aPending C @ [h f], nPending := nPending C + 1\<rparr> else C)"
  define k where "k = (if nLock C \<noteq> 0 then lk s1 i p else (\<lambda>_. F_UNLCK))"
  define s2 where "s2 = set_open p i (Some C') (set_lk i p k s1)"
  have s': "s' = (releaseOpenCnt p i (releaseLockInfo p i s2))\<lparr>files := (files s1)(x := None)\<rparr>"
  proof -
    have "h f = h f0" by (simp add: f)
    then have "(if nLock C \<noteq> 0 then if room then set_open p i (Some (C\<lparr>aPending := aPending C @ [h f0], nPending := nPending C + 1\<rparr>)) s1
            else s1 else close_fd p i s1) = s2"
      using C by (simp add: s2_def C'_def k_def close_fd_def set_triv)
    with r have "s' = (releaseOpenCnt p i (releaseLockInfo p i s2))\<lparr>files :=
        (files (releaseOpenCnt p i (releaseLockInfo p i s2)))(x := None)\<rparr>"
      by (simp only: unixClose_def fx0 u option.case prod.case pi0 [symmetric] C Let_def option.inject prod.inject)
    then show ?thesis by (simp add: release_get s2_def)
  qed
  have z: "m = 0" if "nLock C = 0" "levels s1 p i y = Some m" for y m
    using counted_0 [OF ct _ that(2)] that(1) ct backed_nonneg [OF bk [OF that(2)]] by (simp add: counted_def)
  show ?thesis
  proof (rule lock_invI [OF inv1 _ p])
    show "touches p i x s1 s'"
      using fx pi unfolding s' touches_def by (auto simp: release_get s2_def) (auto simp: set_defs)
    have "os_ok (set_lk i p k s1)"
      using os close_fd_os_ok [OF os, of p i] by (auto simp: k_def close_fd_def set_triv)
    then show "os_ok s'" unfolding s' os_ok_def by (simp add: release_get s2_def)
    have "good (lockHash s' p i) (openHash s' p i) k ((levels s1 p i)(x := None))"
    proof -
      have "lockHash s' p i = (if nRef L - 1 = 0 then None else Some (L\<lparr>nRef := nRef L - 1\<rparr>))"
        "openHash s' p i = (if onRef C' - 1 = 0 then None else Some (C'\<lparr>onRef := onRef C' - 1\<rparr>))"
        using L unfolding s' by (simp_all add: release_get s2_def)
      moreover have "backed k m" if "levels s1 p i y = Some m" for y m
        using bk [OF that] z [OF _ that] by (cases "nLock C = 0") (auto simp: k_def)
      moreover have "onRef C' = onRef C" "nLock C' = nLock C" "nPending C' = int (length (aPending C'))"
        "nLock C' = 0 \<longrightarrow> aPending C' = []"
        using ct by (auto simp: C'_def counted_def)
      ultimately show ?thesis
        using good_remove [OF ct rk _ lv, of k C'] by (simp only:)
    qed
    then show "good (lockHash s' p i) (openHash s' p i) (lk s' i p)
              ((levels s1 p i)(x := map_option flocktype (files s' x)))"
      unfolding s' by (simp add: release_get s2_def)
  qed
qed


text \<open>A new handle of level 0.\<close>

lemma good_add:
  assumes g: "good (Some L) (Some C) k A" and x: "A x = None"
  shows "good (Some (L\<lparr>nRef := nRef L + 1\<rparr>)) (Some (C\<lparr>onRef := onRef C + 1\<rparr>)) k (A(x \<mapsto> 0))"
proof -
  have h: "holders (A(x \<mapsto> 0)) = holders A" using x by (auto simp: holders_def)
  have "x \<notin> dom A" using x by auto
  moreover have "ranked (L\<lparr>nRef := nRef L + 1\<rparr>) (A(x \<mapsto> 0))"
    using g by (intro ranked_release [of L]) (simp_all add: good_def)
  moreover have "backed k m" if "(A(x \<mapsto> 0)) y = Some m" for y m
    using that g by (auto simp: good_def split: if_splits)
  ultimately show ?thesis using g h unfolding good_def counted_def by simp
qed

lemma good_first: "good (Some \<lparr>cnt = 0, locktype = 0, nRef = 1\<rparr>)
    (Some \<lparr>onRef = 1, nLock = 0, nPending = 0, aPending = []\<rparr>) k [x \<mapsto> 0]"
proof -
  have "holders [x \<mapsto> 0] = {}" by (auto simp: holders_def)
  then show ?thesis by (simp add: good_def counted_def ranked_def)
qed

lemma open_finish_inv:
  assumes inv: "lock_inv s" and r: "open_finish e p x d s = (rc, s')" and new: "files s x = None"
    and p: "p \<in> set (procs s)" and safe: "safe_open e p s"
  shows "lock_inv s'"
proof -
  define i where "i = path_ino e"
  note safe = safe [unfolded safe_open_def i_def [symmetric]]
  have g: "good (lockHash s p i) (openHash s p i) (lk s i p) (levels s p i)" and os: "os_ok s"
    using inv unfolding lock_inv_def by blast+
  have xA: "levels s p i x = None" using new by (simp add: levels_def)
  show ?thesis
  proof (cases "lockHash s p i")
    case None
    then have C: "openHash s p i = None" and A: "levels s p i = (\<lambda>_. None)"
      using g by (auto simp: good_def split: option.splits)
    define s2 where "s2 = set_open p i (Some \<lparr>onRef = 1, nLock = 0, nPending = 0, aPending = []\<rparr>)
      (set_lock p i (Some \<lparr>cnt = 0, locktype = 0, nRef = 1\<rparr>) s)"
    consider (fail) "s' = close_fd p i s" | (new) f where "s' = set_file x f s2" "flocktype f = 0" "fpid f = p" "fino f = i"
    proof (cases "findLockInfo e p i s")
      case (Pair err s1)
      then consider "err = 1" "s1 = s" | "err = 0" "s1 = s2"
        using None C by (auto simp: findLockInfo_def Let_def s2_def releaseLockInfo_def set_triv split: if_splits)
          (auto simp: set_lock_def fun_upd_idem)
      then show thesis
      proof cases
        case 1 then show thesis using that r Pair by (auto simp: open_finish_def i_def)
      next
        case 2
        have "releaseOpenCnt p i (releaseLockInfo p i (close_fd p i s2)) = close_fd p i s"
          using None C unfolding s2_def releaseOpenCnt_def releaseLockInfo_def close_fd_def
          by (simp add: set_defs fun_upd_idem)
        then show thesis using that r Pair 2 by (auto simp: open_finish_def allocateUnixFile_def Let_def i_def split: if_splits)
      qed
    qed
    then show ?thesis
    proof cases
      case fail
      show ?thesis
      proof (rule lock_invI [OF inv _ p])
        show "touches p i x s s'" using new by (auto simp: fail touches_def close_fd_def set_defs)
        show "os_ok s'" using os fail close_fd_os_ok by simp
        show "good (lockHash s' p i) (openHash s' p i) (lk s' i p)
              ((levels s p i)(x := map_option flocktype (files s' x)))"
          using None C A new by (simp add: fail close_fd_def good_def)
      qed
    next
      case (new f)
      show ?thesis
      proof (rule lock_invI [OF inv _ p])
        show "touches p i x s s'" using \<open>files s x = None\<close> new by (auto simp: touches_def s2_def set_defs)
        show "os_ok s'" using os by (simp add: new(1) s2_def os_ok_def)
        show "good (lockHash s' p i) (openHash s' p i) (lk s' i p)
              ((levels s p i)(x := map_option flocktype (files s' x)))"
          using good_first new A by (simp add: s2_def)
      qed
    qed
  next
    case (Some L)
    then obtain C where C: "openHash s p i = Some C" using g by (auto simp: good_def split: option.splits)
    have ok: "fstat_ok e" "file_mem e" using safe Some by auto
    define s2 where "s2 = set_open p i (Some (C\<lparr>onRef := onRef C + 1\<rparr>)) (set_lock p i (Some (L\<lparr>nRef := nRef L + 1\<rparr>)) s)"
    have s': "s' = set_file x \<lparr>fpid = p, fino = i, h = d, flocktype = 0\<rparr> s2"
      using r Some C ok by (simp add: open_finish_def findLockInfo_def allocateUnixFile_def i_def s2_def)
    show ?thesis
    proof (rule lock_invI [OF inv _ p])
      show "touches p i x s s'" using new by (auto simp: s' touches_def s2_def set_defs)
      show "os_ok s'" using os by (simp add: s' s2_def os_ok_def)
      show "good (lockHash s' p i) (openHash s' p i) (lk s' i p)
            ((levels s p i)(x := map_option flocktype (files s' x)))"
        using good_add [OF g [unfolded Some C] xA] by (simp add: s' s2_def)
    qed
  qed
qed

lemma step_inv: "step clean s s' \<Longrightarrow> lock_inv s \<Longrightarrow> lock_inv s'"
proof (induction rule: step.induct)
  case (Lock env fh lt s rc s') then show ?case by (metis unixLock_inv)
next
  case (Unlock env fh lt s rc s') then show ?case by (metis unixUnlock_inv)
next
  case (Close env room fh s rc s') then show ?case by (metis unixClose_inv)
next
  case (OpenReadWrite e p fh s rc ro s')
  then have "s' = s \<or> (\<exists>d rc. open_finish e p fh d s = (rc, s'))" "files s fh = None"
    by (auto simp: sqlite3UnixOpenReadWrite_def split: if_splits sum.splits prod.splits)
  then show ?case using OpenReadWrite open_finish_inv by blast
next
  case (OpenExclusive e p fh s rc s')
  then have "s' = s \<or> (\<exists>d rc. open_finish e p fh d s = (rc, s'))" "files s fh = None"
    by (auto simp: sqlite3UnixOpenExclusive_def split: if_splits sum.splits)
  then show ?case using OpenExclusive open_finish_inv by blast
next
  case (OpenReadOnly e p fh s rc s')
  then have "s' = s \<or> (\<exists>d rc. open_finish e p fh d s = (rc, s'))" "files s fh = None"
    by (auto simp: sqlite3UnixOpenReadOnly_def split: if_splits sum.splits)
  then show ?case using OpenReadOnly open_finish_inv by blast
qed

lemma init_inv: "lock_inv (init_sys ps)"
  by (simp add: lock_inv_def init_sys_def os_ok_def good_def levels_def dom_def)

lemma reach_inv: "reach clean s \<Longrightarrow> lock_inv s"
  by (induction rule: reach.induct) (auto intro: init_inv step_inv)

end
