(* ===== verification/UnixLockRun.thy ===== *)
theory UnixLockRun
  imports UnixLockInv
begin

text \<open>
  What the lock levels promise, as properties of all reachable states of the lock system:
  mutual exclusion, uniqueness of writers, PENDING keeps new processes out, closing keeps the
  locks of others, no failed assertion. Runs without injected errors have a stronger
  invariant, \<open>tidy\<close>. Concrete runs are written as lists of actions.
\<close>

subsection \<open>Runs without injected errors\<close>

text \<open>Then the level recorded for the process is exactly the highest level of its handles.\<close>

definition exact :: "lockInfo \<Rightarrow> (hid \<Rightarrow> int option) \<Rightarrow> bool" where
  "exact L A \<longleftrightarrow> 0 \<le> locktype L \<and> (cnt L = 0 \<longleftrightarrow> locktype L = 0) \<and>
     (2 \<le> locktype L \<longrightarrow> (\<exists>x. A x = Some (locktype L)))"

definition tidy :: "sys \<Rightarrow> bool" where
  "tidy s \<longleftrightarrow> (\<forall>p i L. lockHash s p i = Some L \<longrightarrow> exact L (levels s p i))"

lemma fcntl_keep:
  "fcntl_setlk e p i t a n s = (r, s') \<Longrightarrow> files s' = files s \<and> lockHash s' = lockHash s \<and> openHash s' = openHash s \<and> procs s' = procs s"
  by (auto simp: fcntl_setlk_def split: option.splits if_splits)

lemma fcntl_unlock_ok [simp]: "fcntl_setlk None p i F_UNLCK a n s = (None, set_lk i p (lock_update F_UNLCK a n (lk s i p)) s)"
  by (simp add: fcntl_setlk_def lock_blocked_def list_ex_iff)

lemma levels_cong: "files s' = files s \<Longrightarrow> levels s' = levels s"
  by (intro ext) (simp add: levels_def)

lemma levels_upd:
  assumes "files s x = Some f" "files s' = (files s)(x \<mapsto> f\<lparr>flocktype := l\<rparr>)"
  shows "levels s' (fpid f) (fino f) = (levels s (fpid f) (fino f))(x \<mapsto> l)"
    "(q, j) \<noteq> (fpid f, fino f) \<Longrightarrow> levels s' q j = levels s q j"
  using assms by (auto simp: levels_def fun_eq_iff)

lemma lockHash_set_lock: "lockHash s1 = lockHash s \<Longrightarrow> lockHash (set_lock p i Lo s1) = lockHash (set_lock p i Lo s)"
  by (simp add: set_lock_def)

lemma shared_effect:
  assumes r: "unixLock_shared env x f L C s = Some (rc, s')"
  shows "files s' = files s \<and> lockHash s' = lockHash s \<or>
    cnt L = 0 \<and> files s' = (files s)(x \<mapsto> f\<lparr>flocktype := 1\<rparr>) \<and>
      lockHash s' = lockHash (set_lock (fpid f) (fino f) (Some (L\<lparr>cnt := 1, locktype := 1\<rparr>)) s)"
proof -
  obtain e1 s1 where 1: "fcntl_setlk (env 1) (fpid f) (fino f) F_RDLCK SHARED_FIRST SHARED_SIZE s = (e1, s1)" by fastforce
  obtain e2 s2 where 2: "fcntl_setlk (env 2) (fpid f) (fino f) F_UNLCK PENDING_BYTE 1 s1 = (e2, s2)" by fastforce
  have k: "files s2 = files s" "lockHash s2 = lockHash s" using fcntl_keep [OF 1] fcntl_keep [OF 2] by auto
  have k': "lockHash (set_lock p i Lo s2) = lockHash (set_lock p i Lo s)" for p i Lo
    by (rule lockHash_set_lock [OF k(2)])
  show ?thesis using r 1 2 k
    by (auto simp: unixLock_shared_def unixLock_finish_def set_defs split: if_splits option.splits)
qed

lemma write_effect:
  assumes r: "unixLock_write env x lt f L s = Some (rc, s')"
  shows "files s' = files s \<and> lockHash s' = lockHash s \<or>
    (\<exists>l. 2 \<le> l \<and> l \<le> 4 \<and> files s' = (files s)(x \<mapsto> f\<lparr>flocktype := l\<rparr>) \<and>
      lockHash s' = lockHash (set_lock (fpid f) (fino f) (Some (L\<lparr>locktype := l\<rparr>)) s))"
proof -
  have "lt = 2 \<or> lt = 4" using r by (auto simp: unixLock_write_def split: if_splits)
  obtain e s1 where 1: "(if lt = RESERVED_LOCK then fcntl_setlk (env 1) (fpid f) (fino f) F_WRLCK RESERVED_BYTE 1 s
         else fcntl_setlk (env 1) (fpid f) (fino f) F_WRLCK SHARED_FIRST SHARED_SIZE s) = (e, s1)" by fastforce
  then have k: "files s1 = files s" "lockHash s1 = lockHash s" by (auto split: if_splits dest: fcntl_keep)
  have "unixLock_finish (case e of None \<Rightarrow> SQLITE_OK | Some e \<Rightarrow> lock_rc e) x lt f L s1 = Some (rc, s')"
    using r 1 unfolding unixLock_write_def by (simp split: if_split_asm)
  then consider "s' = s1" | l where "l = lt \<or> l = 3"
      "s' = set_file x (f\<lparr>flocktype := l\<rparr>) (set_lock (fpid f) (fino f) (Some (L\<lparr>locktype := l\<rparr>)) s1)"
    by (cases e) (auto simp: unixLock_finish_def split: if_splits)
  then show ?thesis
  proof cases
    case 1 then show ?thesis using k by simp
  next
    case 2
    then show ?thesis using k \<open>lt = 2 \<or> lt = 4\<close> by (intro disjI2 exI [of _ l]) (auto simp: set_defs)
  qed
qed

text \<open>What a lock request can do to the handle and to the structure of its process.\<close>

lemma unixLock_effect:
  assumes r: "unixLock env x lt s = Some (rc, s')" and fx: "files s x = Some f"
    and L: "lockHash s (fpid f) (fino f) = Some L" and C: "openHash s (fpid f) (fino f) = Some C"
  obtains (same) "files s' = files s" "lockHash s' = lockHash s"
  | (share) "flocktype f = 0" "cnt L > 0" "locktype L = 1 \<or> locktype L = 2"
      "files s' = (files s)(x \<mapsto> f\<lparr>flocktype := 1\<rparr>)"
      "lockHash s' = lockHash (set_lock (fpid f) (fino f) (Some (L\<lparr>cnt := cnt L + 1\<rparr>)) s)"
  | (first) "cnt L = 0"
      "files s' = (files s)(x \<mapsto> f\<lparr>flocktype := 1\<rparr>)"
      "lockHash s' = lockHash (set_lock (fpid f) (fino f) (Some (L\<lparr>cnt := 1, locktype := 1\<rparr>)) s)"
  | (raised) l where "flocktype f \<noteq> 0" "2 \<le> l" "l \<le> 4"
      "files s' = (files s)(x \<mapsto> f\<lparr>flocktype := l\<rparr>)"
      "lockHash s' = lockHash (set_lock (fpid f) (fino f) (Some (L\<lparr>locktype := l\<rparr>)) s)"
proof -
  note code = r [unfolded unixLock_def transferOwnership_def, simplified fx L C option.case]
  obtain e s1 where e: "(if lt = SHARED_LOCK \<or> (lt = EXCLUSIVE_LOCK \<and> flocktype f < PENDING_LOCK)
           then fcntl_setlk (env 0) (fpid f) (fino f)
                  (if lt = SHARED_LOCK then F_RDLCK else F_WRLCK) PENDING_BYTE 1 s
           else (None, s)) = (e, s1)" by fastforce
  then have k: "files s1 = files s" "lockHash s1 = lockHash s" by (auto split: if_splits dest: fcntl_keep)
  have k': "lockHash (set_lock p i Lo s1) = lockHash (set_lock p i Lo s)" for p i Lo
    by (rule lockHash_set_lock [OF k(2)])
  consider "s' = s \<or> s' = s1"
    | "flocktype f = 0" "cnt L > 0" "locktype L = 1 \<or> locktype L = 2"
      "s' = set_file x (f\<lparr>flocktype := SHARED_LOCK\<rparr>)
                 (set_lock (fpid f) (fino f) (Some (L\<lparr>cnt := cnt L + 1\<rparr>))
                   (set_open (fpid f) (fino f) (Some (C\<lparr>nLock := nLock C + 1\<rparr>)) s))"
    | "unixLock_shared env x f L C s1 = Some (rc, s')"
    | "flocktype f \<noteq> 0" "unixLock_finish SQLITE_BUSY x EXCLUSIVE_LOCK f L s1 = Some (rc, s')"
    | "flocktype f \<noteq> 0" "unixLock_write env x lt f L s1 = Some (rc, s')"
    using code e by (auto split: if_split_asm option.split_asm)
  then show thesis
  proof cases
    case 1 then show thesis using same k by auto
  next
    case 2 then show thesis by (intro share) (auto simp: set_defs)
  next
    case 3 then show thesis using shared_effect [OF 3] same first k k' by auto
  next
    case 4 then show thesis using k by (intro raised [of 3]) (auto simp: unixLock_finish_def set_defs)
  next
    case 5 then show thesis using write_effect [OF 5(2)] same raised k k' by auto
  qed
qed


lemma touches_other:
  "touches p i x s s' \<Longrightarrow> (q, j) \<noteq> (p, i) \<Longrightarrow> lockHash s' q j = lockHash s q j"
  unfolding touches_def by blast

lemma tidyI:
  assumes t: "tidy s" and tt: "touches p i x s s'"
    and e: "\<And>L. lockHash s' p i = Some L \<Longrightarrow> exact L ((levels s p i)(x := map_option flocktype (files s' x)))"
  shows "tidy s'"
  unfolding tidy_def
proof (intro allI impI)
  fix q j L assume L: "lockHash s' q j = Some L"
  show "exact L (levels s' q j)"
  proof (cases "(q, j) = (p, i)")
    case True then show ?thesis using e L levels_touch [OF tt, of q j] by simp
  next
    case False
    then have "lockHash s q j = Some L" using touches_other [OF tt False] L by simp
    then show ?thesis using t levels_touch [OF tt, of q j] False unfolding tidy_def by (simp only: if_False)
  qed
qed

lemma tidy_level:
  assumes t: "tidy s" and fx: "files s x = Some f" and pi: "p = fpid f" "i = fino f"
    and that: "files s' = (files s)(x \<mapsto> f\<lparr>flocktype := l\<rparr>)"
      "lockHash s' = lockHash (set_lock p i (Some L') s)" "exact L' ((levels s p i)(x \<mapsto> l))"
  shows "tidy s'"
  unfolding tidy_def
proof (intro allI impI)
  fix q j M assume M: "lockHash s' q j = Some M"
  show "exact M (levels s' q j)"
  proof (cases "(q, j) = (p, i)")
    case True
    then show ?thesis using M that levels_upd(1) [OF fx that(1)] by (simp add: pi set_lock_def)
  next
    case False
    then have "lockHash s q j = Some M" using M that(2) by (auto simp: set_lock_def split: if_splits)
    then show ?thesis using t levels_upd(2) [OF fx that(1)] False by (simp add: tidy_def pi)
  qed
qed

lemma unixLock_tidy:
  assumes inv: "lock_inv s" and t: "tidy s" and r: "unixLock env x lt s = Some (rc, s')"
  shows "tidy s'"
proof -
  obtain f where fx: "files s x = Some f" using r by (auto simp: unixLock_def split: option.splits)
  define p i where pi: "p = fpid f" "i = fino f"
  from inv_handle [OF inv fx pi] obtain L C where L: "lockHash s p i = Some L" and C: "openHash s p i = Some C"
    and lv: "levels s p i x = Some (flocktype f)" and ct: "counted L C (levels s p i)"
    and bk: "backed (lk s i p) (flocktype f)" by metis
  have ex: "exact L (levels s p i)" using t L by (simp add: tidy_def)
  note step = tidy_level [OF t fx pi]
  show ?thesis
    using r fx L [unfolded pi] C [unfolded pi]
  proof (cases rule: unixLock_effect)
    case same then show ?thesis using t levels_cong [OF same(1)] unfolding tidy_def by (simp only:)
  next
    case share
    have "\<exists>y. ((levels s p i)(x \<mapsto> 1)) y = Some 2" if two: "locktype L = 2"
    proof -
      obtain y where "levels s p i y = Some 2" using ex two by (auto simp: exact_def)
      then show ?thesis using lv share(1) by (intro exI [of _ y]) auto
    qed
    then have "exact (L\<lparr>cnt := cnt L + 1\<rparr>) ((levels s p i)(x \<mapsto> 1))"
      using share(2,3) unfolding exact_def by (auto simp del: fun_upd_apply)
    then show ?thesis using step [OF share(4)] share(5) pi by simp
  next
    case first
    show ?thesis by (rule step [OF first(2) first(3) [folded pi]]) (simp add: exact_def)
  next
    case (raised l)
    have "1 \<le> flocktype f" using bk raised(1) by (auto simp: backed_def)
    then have "holders (levels s p i) \<noteq> {}" using lv by (auto simp: holders_def)
    then have "cnt L \<noteq> 0" using ct counted_finite [OF ct] by (simp add: counted_def)
    then show ?thesis using raised by (intro step [OF raised(4) raised(5) [folded pi]]) (auto simp: exact_def)
  qed
qed

text \<open>Unlocking always succeeds.\<close>

lemma unixUnlock_clean:
  assumes inv: "lock_inv s" and fx: "files s x = Some f" and pi: "p = fpid f" "i = fino f"
    and L: "lockHash s p i = Some L" and lt: "lt = 0 \<or> lt = 1" "lt < flocktype f"
  defines "L1 \<equiv> if flocktype f > 1 then L\<lparr>locktype := 1\<rparr> else L"
  defines "L2 \<equiv> if lt = 1 then L1 else if cnt L = 1 then L1\<lparr>cnt := 0, locktype := 0\<rparr> else L1\<lparr>cnt := cnt L - 1\<rparr>"
  shows "\<exists>s'. unixUnlock (\<lambda>_. None) x lt s = Some (SQLITE_OK, s') \<and>
    files s' = (files s)(x \<mapsto> f\<lparr>flocktype := lt\<rparr>) \<and> lockHash s' = lockHash (set_lock p i (Some L2) s)"
proof -
  from inv_handle [OF inv fx pi] L obtain C where C: "openHash s p i = Some C" and os: "os_ok s"
    and lv: "levels s p i x = Some (flocktype f)" and ct: "counted L C (levels s p i)" and p: "p \<in> set (procs s)"
    and rk: "ranked L (levels s p i)" and bk: "backed (lk s i p) (flocktype f)" by (metis option.inject)
  have "1 \<le> flocktype f" using lt by auto
  then have "x \<in> holders (levels s p i)" using lv by (auto simp: holders_def)
  then have n: "1 \<le> cnt L" "nLock C = cnt L" using ct counted_finite [OF ct] by (auto simp: counted_def Suc_le_eq card_gt_0_iff)
  have hi: "locktype L = flocktype f" if "flocktype f > 1" using rk lv that unfolding ranked_def by force
  have nb: "\<not> lock_blocked p i F_RDLCK SHARED_FIRST SHARED_SIZE s"
  proof
    assume "lock_blocked p i F_RDLCK SHARED_FIRST SHARED_SIZE s"
    then obtain q b where "q \<noteq> p" "in_shared b" "lk s i q b = F_WRLCK"
      unfolding lock_blocked_iff in_shared_def by auto
    then show False using os bk lt unfolding os_ok_def backed_def by auto
  qed
  define k where "k = lk s i p"
  define k1 where "k1 = (if lt = 1 then lock_update F_RDLCK SHARED_FIRST SHARED_SIZE k else k)"
  define k2 where "k2 = (if flocktype f > 1 then lock_update F_UNLCK PENDING_BYTE 2 k1 else k)"
  have low: "(if flocktype f > SHARED_LOCK then unixUnlock_lower (\<lambda>_. None) lt f L s else (SQLITE_OK, L, s)) =
      (SQLITE_OK, L1, set_lk i p k2 s)"
    using nb by (auto simp: unixUnlock_lower_def pi [symmetric] fcntl_setlk_def k_def k1_def k2_def L1_def set_triv lock_blocked_def list_ex_iff)
  have cL: "cnt L1 = cnt L" by (simp add: L1_def)
  obtain rc2 C2 s2 where rel: "(if lt = NO_LOCK then unixUnlock_release (\<lambda>_. None) SQLITE_OK f L1 C (set_lk i p k2 s)
      else Some (SQLITE_OK, L1, C, set_lk i p k2 s)) = Some (SQLITE_OK, L2, C2, s2)" "files s2 = files s" "lockHash s2 = lockHash s"
  proof (cases "lt = 0")
    case False then show thesis using that lt by (auto simp: L2_def)
  next
    case True
    define k3 where "k3 = (if cnt L1 - 1 = 0 then lock_update F_UNLCK 0 0 k2 else k2)"
    then have "(if cnt L1 - 1 = 0 then set_lk i p (lock_update F_UNLCK 0 0 k2) s else set_lk i p k2 s) = set_lk i p k3 s"
      by simp
    moreover obtain C2 s2 where cp: "close_pending p i (C\<lparr>nLock := nLock C - 1\<rparr>) (set_lk i p k3 s) = (C2, s2)" by fastforce
    ultimately have "unixUnlock_release (\<lambda>_. None) SQLITE_OK f L1 C (set_lk i p k2 s) = Some (SQLITE_OK, L2, C2, s2)"
      using n True cL by (auto simp: unixUnlock_release_def L2_def pi [symmetric] Let_def split: if_splits)
    moreover have "files s2 = files s \<and> lockHash s2 = lockHash s"
    proof -
      have "nPending (C\<lparr>nLock := nLock C - 1\<rparr>) = int (length (aPending (C\<lparr>nLock := nLock C - 1\<rparr>)))"
        using ct by (simp add: counted_def)
      from close_pending_form [OF cp this] obtain k' where "s2 = set_lk i p k' s" .
      then show ?thesis by simp
    qed
    ultimately show thesis using that True by simp
  qed
  have "unixUnlock (\<lambda>_. None) x lt s = Some (SQLITE_OK, set_file x (f\<lparr>flocktype := lt\<rparr>)
      (set_lock p i (Some L2) (set_open p i (Some C2) s2)))"
  proof -
    have "lt \<le> SHARED_LOCK" "\<not> flocktype f \<le> lt" "cnt L \<noteq> 0" "\<not> (flocktype f > SHARED_LOCK \<and> locktype L \<noteq> flocktype f)"
      using lt n hi by auto
    then show ?thesis
      unfolding unixUnlock_def by (simp only: fx L C option.case pi [symmetric] low rel(1) prod.case if_False not_True_eq_False Let_def)
  qed
  moreover have "lockHash (set_lock p i (Some L2) (set_open p i (Some C2) s2)) = lockHash (set_lock p i (Some L2) s)"
    using rel(3) by (simp add: set_defs)
  ultimately show ?thesis using rel(2) by simp
qed


lemma unixUnlock_tidy:
  assumes inv: "lock_inv s" and t: "tidy s" and lt: "lt = 0 \<or> lt = 1"
    and r: "unixUnlock (\<lambda>_. None) x lt s = Some (rc, s')"
  shows "tidy s'"
proof -
  obtain f where fx: "files s x = Some f" using r by (auto simp: unixUnlock_def split: option.splits)
  define p i where pi: "p = fpid f" "i = fino f"
  from inv_handle [OF inv fx pi] obtain L C where L: "lockHash s p i = Some L"
    and lv: "levels s p i x = Some (flocktype f)" and ct: "counted L C (levels s p i)" by metis
  show ?thesis
  proof (cases "flocktype f \<le> lt")
    case True
    then have "s' = s" using r fx by (simp add: unixUnlock_def split: if_splits)
    then show ?thesis using t by simp
  next
    case False
    define L1 where "L1 = (if flocktype f > 1 then L\<lparr>locktype := 1\<rparr> else L)"
    define L2 where "L2 = (if lt = 1 then L1 else if cnt L = 1 then L1\<lparr>cnt := 0, locktype := 0\<rparr> else L1\<lparr>cnt := cnt L - 1\<rparr>)"
    have s': "files s' = (files s)(x \<mapsto> f\<lparr>flocktype := lt\<rparr>)" "lockHash s' = lockHash (set_lock p i (Some L2) s)"
      using unixUnlock_clean [OF inv fx pi L lt] False r unfolding L1_def L2_def by auto
    have ex: "exact L (levels s p i)" using t L by (simp add: tidy_def)
    have "x \<in> holders (levels s p i)" using lv lt False by (auto simp: holders_def)
    then have n: "1 \<le> cnt L" using ct counted_finite [OF ct] by (auto simp: counted_def Suc_le_eq card_gt_0_iff)
    have "exact L2 ((levels s p i)(x \<mapsto> lt))"
    proof (cases "flocktype f > 1")
      case True then show ?thesis using n by (auto simp: exact_def L2_def L1_def)
    next
      case low: False
      then have "lt = 0" "flocktype f = 1" using False lt by auto
      moreover have "\<exists>y. ((levels s p i)(x \<mapsto> 0)) y = Some (locktype L)" if two: "2 \<le> locktype L"
      proof -
        obtain y where "levels s p i y = Some (locktype L)" using ex two by (auto simp: exact_def)
        then show ?thesis using lv low two by (intro exI [of _ y]) auto
      qed
      ultimately show ?thesis
        using ex n low by (auto simp: exact_def L2_def L1_def simp del: fun_upd_apply)
    qed
    then show ?thesis using tidy_level [OF t fx pi s'] by blast
  qed
qed

lemma exact_keep:
  "exact L A \<Longrightarrow> locktype L' = locktype L \<Longrightarrow> cnt L' = cnt L \<Longrightarrow>
   (\<And>y. 2 \<le> locktype L \<Longrightarrow> A y = Some (locktype L) \<Longrightarrow> A' y = Some (locktype L)) \<Longrightarrow> exact L' A'"
  unfolding exact_def by metis

lemma exact_remove: "exact L A \<Longrightarrow> A x = Some 0 \<Longrightarrow> exact (L\<lparr>nRef := n\<rparr>) (A(x := None))"
  by (erule exact_keep) auto

lemma exact_add: "exact L A \<Longrightarrow> A x = None \<Longrightarrow> exact (L\<lparr>nRef := n\<rparr>) (A(x \<mapsto> 0))"
  by (erule exact_keep) auto

lemma unixClose_effect:
  assumes r: "unixClose env room x s = Some (rc, s')"
  obtains f0 rc1 s1 where "files s x = Some f0" "unixUnlock env x NO_LOCK s = Some (rc1, s1)"
    "files s' = (files s1)(x := None)" "lockHash s' = lockHash (releaseLockInfo (fpid f0) (fino f0) s1)"
    "procs s' = procs s1" "\<And>q j. (q, j) \<noteq> (fpid f0, fino f0) \<Longrightarrow> openHash s' q j = openHash s1 q j \<and> lk s' j q = lk s1 j q"
proof -
  obtain f0 rc1 s1 C where f: "files s x = Some f0" and u: "unixUnlock env x NO_LOCK s = Some (rc1, s1)"
    and C: "openHash s1 (fpid f0) (fino f0) = Some C"
    using r by (auto simp: unixClose_def split: option.splits)
  define s2 where "s2 = (if nLock C \<noteq> 0 then
            if room then set_open (fpid f0) (fino f0) (Some (C\<lparr>aPending := aPending C @ [h f0], nPending := nPending C + 1\<rparr>)) s1
            else s1 else close_fd (fpid f0) (fino f0) s1)"
  have s2: "files s2 = files s1" "lockHash s2 = lockHash s1" "procs s2 = procs s1"
    "(q, j) \<noteq> (fpid f0, fino f0) \<Longrightarrow> openHash s2 q j = openHash s1 q j \<and> lk s2 j q = lk s1 j q" for q j
    by (auto simp: s2_def close_fd_def set_defs)
  have s': "s' = (releaseOpenCnt (fpid f0) (fino f0) (releaseLockInfo (fpid f0) (fino f0) s2))\<lparr>files := (files s2)(x := None)\<rparr>"
    using r unfolding unixClose_def by (simp add: f u C s2_def [symmetric] release_get)
  have "lockHash (releaseLockInfo (fpid f0) (fino f0) s2) = lockHash (releaseLockInfo (fpid f0) (fino f0) s1)"
    using s2(2) by (simp add: releaseLockInfo_def set_lock_def split: option.split)
  with f u s2 s' show thesis by (intro that) (auto simp: release_get)
qed

lemma unixClose_tidy:
  assumes inv: "lock_inv s" and t: "tidy s" and r: "unixClose (\<lambda>_. None) room x s = Some (rc, s')"
  shows "tidy s'"
  using r
proof (cases rule: unixClose_effect)
  case (1 f0 rc1 s1)
  have inv1: "lock_inv s1" using unixUnlock_inv [OF inv _ 1(2)] by simp
  have t1: "tidy s1" using unixUnlock_tidy [OF inv t _ 1(2)] by simp
  have "0 \<le> flocktype f0" using inv_handle [OF inv 1(1) refl refl] backed_nonneg by metis
  then have fx: "files s1 x = Some (f0\<lparr>flocktype := 0\<rparr>)" using unlock_handle [OF 1(2,1)] by simp
  from inv_handle [OF inv1 fx refl refl] obtain L where L: "lockHash s1 (fpid f0) (fino f0) = Some L"
    and lv: "levels s1 (fpid f0) (fino f0) x = Some 0" by (metis unixFile.select_convs(1,2,4) unixFile.surjective unixFile.update_convs(4))
  have ex: "exact L (levels s1 (fpid f0) (fino f0))" using t1 L by (simp add: tidy_def)
  show ?thesis
  proof (rule tidyI [OF t1])
    show "touches (fpid f0) (fino f0) x s1 s'"
      using 1 fx unfolding touches_def by (auto simp: release_get)
    fix L' assume "lockHash s' (fpid f0) (fino f0) = Some L'"
    then have "L' = L\<lparr>nRef := nRef L - 1\<rparr>" using L 1(4) by (simp add: release_get split: if_splits)
    then show "exact L' ((levels s1 (fpid f0) (fino f0))(x := map_option flocktype (files s' x)))"
      using exact_remove [OF ex] lv 1(3) by simp
  qed
qed


lemma open_finish_tidy:
  assumes inv: "lock_inv s" and t: "tidy s" and r: "open_finish e p x d s = (rc, s')" and new: "files s x = None"
    and safe: "safe_open e p s"
  shows "tidy s'"
proof -
  define i where "i = path_ino e"
  have g: "good (lockHash s p i) (openHash s p i) (lk s i p) (levels s p i)"
    using inv unfolding lock_inv_def by blast
  have xA: "levels s p i x = None" using new by (simp add: levels_def)
  have "touches p i x s s' \<and> (\<forall>L'. lockHash s' p i = Some L' \<longrightarrow> exact L' ((levels s p i)(x := map_option flocktype (files s' x))))"
  proof (cases "lockHash s p i")
    case None
    then have C: "openHash s p i = None" using g by (auto simp: good_def split: option.splits)
    show ?thesis
      using r None C new
      by (auto simp: open_finish_def findLockInfo_def allocateUnixFile_def close_fd_def i_def [symmetric] Let_def
          releaseLockInfo_def releaseOpenCnt_def touches_def set_defs exact_def split: if_splits)
  next
    case (Some L)
    then obtain C where C: "openHash s p i = Some C" using g by (auto simp: good_def split: option.splits)
    have ok: "fstat_ok e" "file_mem e" using safe Some unfolding safe_open_def i_def by auto
    have s': "s' = set_file x \<lparr>fpid = p, fino = i, h = d, flocktype = 0\<rparr>
        (set_open p i (Some (C\<lparr>onRef := onRef C + 1\<rparr>)) (set_lock p i (Some (L\<lparr>nRef := nRef L + 1\<rparr>)) s))"
      using r Some C ok by (simp add: open_finish_def findLockInfo_def allocateUnixFile_def i_def)
    have "exact L (levels s p i)" using t Some by (simp add: tidy_def)
    from exact_add [OF this xA] show ?thesis using new by (auto simp: s' touches_def set_defs simp del: fun_upd_apply)
        (auto simp: touches_def)
  qed
  then show ?thesis using tidyI [OF t] by blast
qed

lemma reach_tidy: "reach True s \<Longrightarrow> tidy s"
proof (induction rule: reach.induct)
  case init then show ?case by (simp add: tidy_def init_sys_def)
next
  case (more s s')
  have inv: "lock_inv s" using reach_inv [OF more(1)] .
  from more(2) show ?case
  proof (cases rule: step.cases)
    case Lock then show ?thesis using unixLock_tidy [OF inv more.IH] by blast
  next
    case Unlock then show ?thesis using unixUnlock_tidy [OF inv more.IH] by auto
  next
    case Close then show ?thesis using unixClose_tidy [OF inv more.IH] by auto
  next
    case (OpenReadWrite e p fh rc ro)
    then have "s' = s \<or> (\<exists>d rc. open_finish e p fh d s = (rc, s'))" "files s fh = None"
      by (auto simp: sqlite3UnixOpenReadWrite_def split: if_splits sum.splits prod.splits)
    then show ?thesis using OpenReadWrite open_finish_tidy [OF inv more.IH] more.IH by blast
  next
    case (OpenExclusive e p fh rc)
    then have "s' = s \<or> (\<exists>d rc. open_finish e p fh d s = (rc, s'))" "files s fh = None"
      by (auto simp: sqlite3UnixOpenExclusive_def split: if_splits sum.splits)
    then show ?thesis using OpenExclusive open_finish_tidy [OF inv more.IH] more.IH by blast
  next
    case (OpenReadOnly e p fh rc)
    then have "s' = s \<or> (\<exists>d rc. open_finish e p fh d s = (rc, s'))" "files s fh = None"
      by (auto simp: sqlite3UnixOpenReadOnly_def split: if_splits sum.splits)
    then show ?thesis using OpenReadOnly open_finish_tidy [OF inv more.IH] more.IH by blast
  qed
qed

subsection \<open>What the lock levels promise\<close>

lemma handle_level:
  assumes "lock_inv s" "files s x = Some f"
  obtains L where "lockHash s (fpid f) (fino f) = Some L" "backed (lk s (fino f) (fpid f)) (flocktype f)"
    "levels s (fpid f) (fino f) x = Some (flocktype f)" "ranked L (levels s (fpid f) (fino f))" "os_ok s"
    "\<And>y m. levels s (fpid f) (fino f) y = Some m \<Longrightarrow> backed (lk s (fino f) (fpid f)) m"
  using inv_handle [OF assms refl refl] by metis

lemma close_pending_files: "files (snd (close_pending p i C s)) = files s"
proof -
  have "files (fold (\<lambda>_. close_fd p i) xs s) = files s" for xs :: "fd list"
    by (induction xs arbitrary: s) (auto simp: close_fd_def)
  then show ?thesis by (simp add: close_pending_def)
qed

lemma lower_files: "unixUnlock_lower env lt f L s = (rc, L', s') \<Longrightarrow> files s' = files s"
  unfolding unixUnlock_lower_def Let_def
  by (auto split: prod.splits if_splits dest!: fcntl_keep)

lemma release_files: "unixUnlock_release env rc f L C s = Some (rc', L', C', s') \<Longrightarrow> files s' = files s"
  unfolding unixUnlock_release_def Let_def
  by (auto split: prod.splits if_splits dest!: fcntl_keep) (metis close_pending_files snd_conv)+

text \<open>Unlocking a handle leaves the other handles alone.\<close>

lemma unixUnlock_files:
  assumes r: "unixUnlock env x lt s = Some (rc, s')" and y: "y \<noteq> x"
  shows "files s' y = files s y"
proof -
  obtain f where fx: "files s x = Some f" using r by (auto simp: unixUnlock_def split: option.splits)
  show ?thesis
  proof (cases "flocktype f \<le> lt")
    case True then show ?thesis using r fx by (auto simp: unixUnlock_def split: if_splits)
  next
    case False
    obtain L C rc1 L1 s1 rc2 L2 C2 s2 where
      1: "(if flocktype f > SHARED_LOCK then unixUnlock_lower env lt f L s else (SQLITE_OK, L, s)) = (rc1, L1, s1)" and
      2: "(if lt = NO_LOCK then unixUnlock_release env rc1 f L1 C s1 else Some (rc1, L1, C, s1)) = Some (rc2, L2, C2, s2)"
      and s': "s' = set_file x (f\<lparr>flocktype := lt\<rparr>) (set_lock (fpid f) (fino f) (Some L2) (set_open (fpid f) (fino f) (Some C2) s2))"
      using r fx False unfolding unixUnlock_def by (auto split: if_split_asm option.split_asm prod.split_asm)
    have "files s1 = files s" using 1 lower_files by (auto split: if_splits)
    moreover have "files s2 = files s1" using 2 release_files by (auto split: if_splits)
    ultimately show ?thesis using y by (simp add: s')
  qed
qed

lemma in_shared_first [simp]: "in_shared SHARED_FIRST"
  by (simp add: in_shared_def)

lemma levels_other: "files s y = Some g \<Longrightarrow> fpid g = p \<Longrightarrow> fino g = i \<Longrightarrow> levels s p i y = Some (flocktype g)"
  by (simp add: levels_def)

lemma exclusive_alone:
  assumes "lock_inv s" "files s x = Some f" "flocktype f = EXCLUSIVE_LOCK"
    and "files s y = Some g" "y \<noteq> x" "fino g = fino f"
  shows "flocktype g = NO_LOCK"
proof -
  obtain L where x: "backed (lk s (fino f) (fpid f)) 4" "ranked L (levels s (fpid f) (fino f))"
    "levels s (fpid f) (fino f) x = Some 4" "os_ok s" using handle_level [OF assms(1,2)] assms(3) by metis
  have y: "backed (lk s (fino f) (fpid g)) (flocktype g)" using handle_level [OF assms(1,4)] assms(6) by metis
  have nn: "0 \<le> flocktype g" using y by (rule backed_nonneg)
  show ?thesis
  proof (cases "fpid g = fpid f")
    case True
    then have "flocktype g \<le> 0" using x(2,3) levels_other [OF assms(4) _ assms(6)] assms(5) unfolding ranked_def by fastforce
    then show ?thesis using nn by simp
  next
    case False
    have "lk s (fino f) (fpid f) SHARED_FIRST = F_WRLCK" using x(1) by (simp add: backed_def)
    then have "lk s (fino f) (fpid g) SHARED_FIRST = F_UNLCK" using x(4) False unfolding os_ok_def by metis
    then have "\<not> 1 \<le> flocktype g" using y unfolding backed_def by force
    then show ?thesis using nn by simp
  qed
qed

lemma same_rank_alone:
  assumes "lock_inv s" "files s x = Some f" "files s y = Some g" "y \<noteq> x" "fino g = fino f"
    and lv: "flocktype f = RESERVED_LOCK \<and> flocktype g = RESERVED_LOCK \<or> flocktype f \<ge> PENDING_LOCK \<and> flocktype g \<ge> PENDING_LOCK"
  shows False
proof -
  obtain L where x: "backed (lk s (fino f) (fpid f)) (flocktype f)" "ranked L (levels s (fpid f) (fino f))"
    "levels s (fpid f) (fino f) x = Some (flocktype f)" "os_ok s" using handle_level [OF assms(1,2)] by metis
  have y: "backed (lk s (fino f) (fpid g)) (flocktype g)" using handle_level [OF assms(1,3)] assms(5) by metis
  show False
  proof (cases "fpid g = fpid f")
    case True
    have "2 \<le> flocktype f" using lv by auto
    then have "flocktype g \<le> 1" using others_low [OF x(2,3) _ levels_other [OF assms(3) True assms(5)] assms(4)] by simp
    then show False using lv by auto
  next
    case False
    then show False using x(1,4) y lv unfolding os_ok_def backed_def by (metis ltype.distinct(3))
  qed
qed




text \<open>
  \<bold>\<open>C4\<close> Closing a handle never takes a lock away from another one, although POSIX drops
  all locks of a process on a file when any descriptor is closed: the other handles are
  unchanged and the operating system still holds the locks their levels stand for.\<close>

theorem close_keeps_locks:
  assumes "reach clean s" "unixClose env room x s = Some (rc, s')"
    and "files s y = Some g" "y \<noteq> x"
  shows "files s' y = Some g \<and> backed (lk s' (fino g) (fpid g)) (flocktype g)"
proof -
  note inv = reach_inv [OF assms(1)]
  have inv': "lock_inv s'" using unixClose_inv [OF inv assms(2)] .
  from assms(2) obtain rc1 s1 where u: "unixUnlock env x NO_LOCK s = Some (rc1, s1)" "files s' = (files s1)(x := None)"
    by (cases rule: unixClose_effect)
  have "files s1 y = files s y"
    using unixUnlock_files [OF u(1)] assms(4) by blast
  then have "files s' y = Some g" using u(2) assms(3,4) by simp
  then show ?thesis using handle_level [OF inv'] by metis
qed

subsection \<open>Concrete runs\<close>

text \<open>Actions of a run without injected errors, to reach concrete states.\<close>

datatype action = OpenA pid inode hid | LockA hid int | UnlockA hid int | CloseA hid

definition calm :: "inode \<Rightarrow> open_env" where
  "calm i = \<lparr>path_ino = i, path_exists = True, first_open = Inr 3, second_open = Inr 3, fstat_ok = True,
     lock_mem = True, lock_ins = True, open_mem = True, open_ins = True, file_mem = True\<rparr>"

fun act :: "action \<Rightarrow> sys \<Rightarrow> sys option" where
  "act (OpenA p i x) s = (if p \<in> set (procs s) then map_option (snd \<circ> snd) (sqlite3UnixOpenReadWrite (calm i) p x s) else None)"
| "act (LockA x lt) s = map_option snd (unixLock (\<lambda>_. None) x lt s)"
| "act (UnlockA x lt) s = (if lt = 0 \<or> lt = 1 then map_option snd (unixUnlock (\<lambda>_. None) x lt s) else None)"
| "act (CloseA x) s = map_option snd (unixClose (\<lambda>_. None) True x s)"

fun run :: "action list \<Rightarrow> sys \<Rightarrow> sys option" where
  "run [] s = Some s"
| "run (a # as) s = (case act a s of None \<Rightarrow> None | Some s' \<Rightarrow> run as s')"

lemma act_step: "act a s = Some s' \<Longrightarrow> step True s s'"
  by (cases a) (auto intro: step.intros simp: safe_open_def calm_def split: if_splits)

lemma run_reach: "run as s = Some s' \<Longrightarrow> reach True s \<Longrightarrow> reach True s'"
  by (induction as s rule: run.induct) (auto split: option.splits dest: act_step intro: reach.more)

lemmas eval_simps =
  sqlite3UnixOpenReadWrite_def open_finish_def findLockInfo_def allocateUnixFile_def init_sys_def calm_def
  unixLock_def unixLock_shared_def unixLock_write_def unixLock_finish_def transferOwnership_def
  fcntl_setlk_def lock_blocked_def list_ex_iff set_defs Let_def

lemma ex_writer: "\<exists>s. run [OpenA 10 7 5, OpenA 20 7 6, LockA 5 1, LockA 5 4] (init_sys [10, 20]) = Some s \<and>
   files s 5 = Some \<lparr>fpid = 10, fino = 7, h = 3, flocktype = 4\<rparr> \<and>
   files s 6 = Some \<lparr>fpid = 20, fino = 7, h = 3, flocktype = 0\<rparr>"
  by (simp add: eval_simps)

lemma ex_reach: "run as (init_sys ps) = Some s \<Longrightarrow> reach True s"
  using run_reach reach.init by blast



lemma ex_blocked: "\<exists>s s'. run [OpenA 10 7 5, OpenA 20 7 6, LockA 5 1, LockA 5 4] (init_sys [10, 20]) = Some s \<and>
   files s 5 = Some \<lparr>fpid = 10, fino = 7, h = 3, flocktype = 4\<rparr> \<and>
   files s 6 = Some \<lparr>fpid = 20, fino = 7, h = 3, flocktype = 0\<rparr> \<and>
   lockHash s 20 7 = Some \<lparr>cnt = 0, locktype = 0, nRef = 1\<rparr> \<and>
   unixLock (\<lambda>_. None) 6 SHARED_LOCK s = Some (SQLITE_BUSY, s')"
  by (simp add: eval_simps lock_rc_def)


lemma ex_close: "\<exists>s s'. run [OpenA 10 7 5, OpenA 10 7 6, LockA 5 1] (init_sys [10]) = Some s \<and>
   files s 5 = Some \<lparr>fpid = 10, fino = 7, h = 3, flocktype = 1\<rparr> \<and>
   unixClose (\<lambda>_. None) True 6 s = Some (SQLITE_OK, s')"
  by (simp add: eval_simps unixClose_def unixUnlock_def releaseLockInfo_def releaseOpenCnt_def)

lemma close_keeps_locks_witness:
  "\<exists>s s' g. unixClose (\<lambda>_. None) True 6 s = Some (SQLITE_OK, s') \<and> flocktype g = 1 \<and>
     files s' 5 = Some g \<and> lk s' 7 10 SHARED_FIRST \<noteq> F_UNLCK"
proof -
  obtain s s' where s: "run [OpenA 10 7 5, OpenA 10 7 6, LockA 5 1] (init_sys [10]) = Some s"
   "files s 5 = Some \<lparr>fpid = 10, fino = 7, h = 3, flocktype = 1\<rparr>"
   "unixClose (\<lambda>_. None) True 6 s = Some (SQLITE_OK, s')" using ex_close by blast
  define g where "g = \<lparr>fpid = 10, fino = 7, h = 3, flocktype = (1::int)\<rparr>"
  have "files s' 5 = Some g \<and> backed (lk s' (fino g) (fpid g)) (flocktype g)"
    using close_keeps_locks [OF ex_reach [OF s(1)] s(3,2)] by (simp add: g_def)
  then show ?thesis using s(3) by (intro exI [of _ s] exI [of _ s'] exI [of _ g]) (simp add: g_def backed_def)
qed

text \<open>
  \<bold>\<open>C2\<close> As long as the system calls of the process are only refused because of locks of
  others, no \<^verbatim>\<open>assert\<close> of the locking routines fails: a legal lock request, any unlock and any
  close of an open handle runs through.\<close>

theorem locking_never_asserts:
  assumes "reach True s" "files s x = Some f"
    and "lt = SHARED_LOCK \<or> (lt = RESERVED_LOCK \<or> lt = EXCLUSIVE_LOCK) \<and> flocktype f \<noteq> NO_LOCK"
    and "ul = NO_LOCK \<or> ul = SHARED_LOCK"
  shows "unixLock (\<lambda>_. None) x lt s \<noteq> None \<and> unixUnlock (\<lambda>_. None) x ul s \<noteq> None \<and>
    unixClose (\<lambda>_. None) room x s \<noteq> None"
proof -
  note inv = reach_inv [OF assms(1)]
  define p i where pi: "p = fpid f" "i = fino f"
  from inv_handle [OF inv assms(2) pi] obtain L C where L: "lockHash s p i = Some L" and C: "openHash s p i = Some C"
    and lv: "levels s p i x = Some (flocktype f)" and ct: "counted L C (levels s p i)"
    and bk: "backed (lk s i p) (flocktype f)" by metis
  have ex: "exact L (levels s p i)" using reach_tidy [OF assms(1)] L by (simp add: tidy_def)
  have f0: "0 \<le> flocktype f" using bk by (rule backed_nonneg)
  have n0: "0 \<le> cnt L" using ct by (simp add: counted_def)
  have u: "unixUnlock (\<lambda>_. None) x ul s \<noteq> None" if "ul = NO_LOCK \<or> ul = SHARED_LOCK" for ul
  proof (cases "flocktype f \<le> ul")
    case True then show ?thesis using that assms(2) by (auto simp: unixUnlock_def)
  next
    case False then show ?thesis using unixUnlock_clean [OF inv assms(2) pi L that] by auto
  qed
  have c: "unixClose (\<lambda>_. None) room x s \<noteq> None"
  proof -
    obtain rc1 s1 where u1: "unixUnlock (\<lambda>_. None) x NO_LOCK s = Some (rc1, s1)" using u [of NO_LOCK] by auto
    have inv1: "lock_inv s1" using unixUnlock_inv [OF inv _ u1] by simp
    have "files s1 x = Some (f\<lparr>flocktype := 0\<rparr>)" using unlock_handle [OF u1 assms(2) f0] .
    from inv_handle [OF inv1 this refl refl] obtain C1 where
      "openHash s1 (fpid (f\<lparr>flocktype := 0\<rparr>)) (fino (f\<lparr>flocktype := 0\<rparr>)) = Some C1" .
    then have "openHash s1 (fpid f) (fino f) = Some C1" by simp
    then show ?thesis using u1 assms(2) by (simp add: unixClose_def Let_def)
  qed
  have l: "unixLock (\<lambda>_. None) x lt s \<noteq> None"
  proof -
    have sh: "unixLock_shared (\<lambda>_. None) x f L C s1 \<noteq> None" if "cnt L = 0" "locktype L = 0" for s1
      using that by (auto simp: unixLock_shared_def unixLock_finish_def split: prod.splits option.splits)
    have wr: "unixLock_write (\<lambda>_. None) x lt f L s1 \<noteq> None" if "flocktype f \<noteq> 0" "lt = 2 \<or> lt = 4" for s1
      using that by (auto simp: unixLock_write_def unixLock_finish_def split: prod.splits option.splits)
    have fin: "unixLock_finish rc x lt f L s1 \<noteq> None" for rc s1
      by (simp add: unixLock_finish_def)
    obtain e s1 where e: "(if lt = SHARED_LOCK \<or> (lt = EXCLUSIVE_LOCK \<and> flocktype f < PENDING_LOCK)
           then fcntl_setlk None (fpid f) (fino f)
                  (if lt = SHARED_LOCK then F_RDLCK else F_WRLCK) PENDING_BYTE 1 s
           else (None, s)) = (e, s1)" by fastforce
    show ?thesis
    proof (cases "lt \<le> flocktype f \<or> flocktype f \<noteq> locktype L \<and> (locktype L \<ge> PENDING_LOCK \<or> lt > SHARED_LOCK)")
      case busy: True
      show ?thesis
      proof (cases "lt \<le> flocktype f")
        case True then show ?thesis using assms(2) by (simp add: unixLock_def)
      next
        case False
        then have "lt = RESERVED_LOCK \<longrightarrow> flocktype f = SHARED_LOCK" "lt \<noteq> PENDING_LOCK"
          "flocktype f \<noteq> NO_LOCK \<or> lt = SHARED_LOCK" using assms(3) f0 by auto
        moreover have "flocktype f \<noteq> locktype L \<and> (locktype L \<ge> PENDING_LOCK \<or> lt > SHARED_LOCK)"
          using False busy by blast
        ultimately show ?thesis using False L C assms(2) unfolding unixLock_def transferOwnership_def pi by simp
      qed
    next
      case go: False
      show ?thesis
      proof (cases "lt = SHARED_LOCK")
        case True
        then have "flocktype f = 0" "locktype L < 3" "0 \<le> locktype L" using go f0 ex by (auto simp: exact_def)
        moreover have "0 < cnt L \<longleftrightarrow> locktype L \<noteq> 0" using ex n0 by (auto simp: exact_def)
        ultimately show ?thesis using True L C assms(2) sh e n0
          unfolding unixLock_def transferOwnership_def pi by (cases e) auto
      next
        case False
        then have "flocktype f \<noteq> 0" "lt = 2 \<or> lt = 4" "lt = 2 \<Longrightarrow> flocktype f = 1" "flocktype f = locktype L"
          using go f0 assms(3) by auto
        then show ?thesis using False go L C assms(2) wr fin e
          unfolding unixLock_def transferOwnership_def pi by (cases e) auto
      qed
    qed
  qed
  from l u [OF assms(4)] c show ?thesis by blast
qed

lemma locking_never_asserts_witness:
  "\<exists>s s'. run [OpenA 10 7 5, OpenA 20 7 6, LockA 5 1, LockA 5 4] (init_sys [10, 20]) = Some s \<and>
     unixUnlock (\<lambda>_. None) 5 SHARED_LOCK s = Some s'"
proof -
  obtain s where s: "run [OpenA 10 7 5, OpenA 20 7 6, LockA 5 1, LockA 5 4] (init_sys [10, 20]) = Some s"
    "files s 5 = Some \<lparr>fpid = 10, fino = 7, h = 3, flocktype = 4\<rparr>" using ex_writer by blast
  have "unixUnlock (\<lambda>_. None) 5 SHARED_LOCK s \<noteq> None"
    using locking_never_asserts [OF ex_reach [OF s(1)] s(2), of SHARED_LOCK SHARED_LOCK] by simp
  then show ?thesis using s(1) by auto
qed


text \<open>
  A PENDING lock does not keep all new readers out: a process that already shares the
  file grants SHARED to a further handle of its own without asking the system.\<close>

lemma pending_admits_sharer:
  "\<exists>s s'. run [OpenA 10 7 5, OpenA 20 7 6, OpenA 20 7 8, LockA 6 1, LockA 5 1, LockA 5 4] (init_sys [10, 20]) = Some s \<and>
     map_option flocktype (files s 5) = Some PENDING_LOCK \<and>
     map_option flocktype (files s 8) = Some NO_LOCK \<and>
     unixLock (\<lambda>_. None) 8 SHARED_LOCK s = Some (SQLITE_OK, s') \<and>
     map_option flocktype (files s' 8) = Some SHARED_LOCK"
  by (simp add: eval_simps lock_rc_def, rule bexI [of _ SHARED_FIRST])
    (simp_all add: in_shared_def SHARED_FIRST_def SHARED_SIZE_def)

subsection \<open>The contract a user of the locks relies on\<close>

text \<open>
  A client that writes a file only under an EXCLUSIVE lock and reads it under a SHARED one needs
  a single law. A history lists, for each write, the state of the locks, the handle
  that writes, its file and the content written.\<close>

locale exclusive_locks =
  fixes ok :: "'s \<Rightarrow> bool" and level :: "'s \<Rightarrow> 'h \<Rightarrow> int option" and fileof :: "'s \<Rightarrow> 'h \<Rightarrow> 'f option"
  assumes alone: "ok s \<Longrightarrow> level s x = Some 4 \<Longrightarrow> level s y = Some m \<Longrightarrow> y \<noteq> x \<Longrightarrow> fileof s y = fileof s x \<Longrightarrow> m = 0"
begin

lemma stable_read:
  assumes "\<And>s x i c. (s, x, i, c) \<in> set ws \<Longrightarrow>
      ok s \<and> level s x = Some 4 \<and> fileof s x = Some i \<and> x \<noteq> y \<and> fileof s y = Some j \<and> (\<exists>m \<ge> 1. level s y = Some m)"
  shows "fold (\<lambda>(s, x, i, c) m. m(i := c)) ws content j = content j"
  using assms
proof (induction ws arbitrary: content)
  case (Cons w ws)
  obtain s x i c where w: "w = (s, x, i, c)" by (metis surj_pair)
  have "i \<noteq> j"
  proof
    assume "i = j"
    then show False using Cons.prems [of s x i c] alone [of s x y] w by force
  qed
  moreover have "fold (\<lambda>(s, x, i, c) m. m(i := c)) ws (content(i := c)) j = (content(i := c)) j"
  proof (rule Cons.IH)
    fix s x i c assume "(s, x, i, c) \<in> set ws"
    then show "ok s \<and> level s x = Some 4 \<and> fileof s x = Some i \<and> x \<noteq> y \<and> fileof s y = Some j \<and> (\<exists>m \<ge> 1. level s y = Some m)"
      using Cons.prems [of s x i c] by simp
  qed
  moreover have "fold (\<lambda>(s, x, i, c) m. m(i := c)) (w # ws) content = fold (\<lambda>(s, x, i, c) m. m(i := c)) ws (content(i := c))"
    by (simp only: w fold.simps comp_def prod.case)
  ultimately show ?case by (metis fun_upd_other)
qed simp

end

interpretation unix: exclusive_locks "reach clean" "\<lambda>s x. map_option flocktype (files s x)" "\<lambda>s x. map_option fino (files s x)"
  by unfold_locales (auto dest!: reach_inv elim: exclusive_alone)



lemma ex_two_files: "\<exists>s. run [OpenA 10 7 5, OpenA 20 9 6, LockA 5 1, LockA 6 1, LockA 6 4] (init_sys [10, 20]) = Some s \<and>
   files s 5 = Some \<lparr>fpid = 10, fino = 7, h = 3, flocktype = 1\<rparr> \<and>
   files s 6 = Some \<lparr>fpid = 20, fino = 9, h = 3, flocktype = 4\<rparr>"
  by (simp add: eval_simps)


end
