(* ===== verification/UnixLockLive.thy ===== *)
theory UnixLockLive
  imports UnixLockRun
begin

text \<open>
  Progress of the lock system of \<^verbatim>\<open>UnixLock\<close>: in runs without injected errors a process without a lock
  level holds no locks (\<open>idle\<close>), so that a waiting writer gets its EXCLUSIVE lock once the others have let go.
\<close>

subsection \<open>Processes without a lock level hold no locks\<close>

text \<open>A process whose lock count on a file is zero, or that does not have the file open, holds no
  lock on it. System calls that fail could leave locks behind, so this is a property of runs
  without injected errors.\<close>

definition idle_at :: "lockInfo option \<Rightarrow> (nat \<Rightarrow> ltype) \<Rightarrow> bool" where
  "idle_at Lo k \<longleftrightarrow> (case Lo of None \<Rightarrow> True | Some L \<Rightarrow> cnt L = 0) \<longrightarrow> k = (\<lambda>_. F_UNLCK)"

definition idle :: "sys \<Rightarrow> bool" where
  "idle s \<longleftrightarrow> (\<forall>p i. idle_at (lockHash s p i) (lk s i p))"

lemma idleI:
  assumes "idle s" "\<And>q j. (q, j) \<noteq> (p, i) \<Longrightarrow> lockHash s' q j = lockHash s q j \<and> lk s' j q = lk s j q"
    "idle_at (lockHash s' p i) (lk s' i p)"
  shows "idle s'"
  using assms unfolding idle_def by (metis prod.inject)

lemma fcntl_lk: "fcntl_setlk e p i t a n s = (r, s') \<Longrightarrow> (q, j) \<noteq> (p, i) \<Longrightarrow> lk s' j q = lk s j q"
  by (auto simp: fcntl_setlk_def set_lk_def split: option.splits if_splits)

lemma finish_lk: "unixLock_finish rc x lt f L s = Some (rc', s') \<Longrightarrow> lk s' = lk s"
  by (auto simp: unixLock_finish_def set_defs split: if_splits)

lemma shared_lk:
  assumes "unixLock_shared env x f L C s = Some (rc, s')" "(q, j) \<noteq> (fpid f, fino f)"
  shows "lk s' j q = lk s j q"
proof -
  obtain e1 s1 where 1: "fcntl_setlk (env 1) (fpid f) (fino f) F_RDLCK SHARED_FIRST SHARED_SIZE s = (e1, s1)" by fastforce
  obtain e2 s2 where 2: "fcntl_setlk (env 2) (fpid f) (fino f) F_UNLCK PENDING_BYTE 1 s1 = (e2, s2)" by fastforce
  have "lk s2 j q = lk s j q" using fcntl_lk [OF 1 assms(2)] fcntl_lk [OF 2 assms(2)] by simp
  moreover have "lk s' = lk s2"
    using assms(1) 1 2 by (auto simp: unixLock_shared_def set_open_def split: if_splits option.splits dest!: finish_lk)
  ultimately show ?thesis by simp
qed

lemma write_lk:
  assumes "unixLock_write env x lt f L s = Some (rc, s')" "(q, j) \<noteq> (fpid f, fino f)"
  shows "lk s' j q = lk s j q"
  using assms(1) fcntl_lk [OF _ assms(2)]
  by (auto simp: unixLock_write_def split: if_splits prod.splits dest!: finish_lk)

lemma unixLock_parts:
  assumes r: "unixLock env x lt s = Some (rc, s')" and fx: "files s x = Some f"
    and L: "lockHash s (fpid f) (fino f) = Some L" and C: "openHash s (fpid f) (fino f) = Some C"
  obtains (none) "s' = s" | (share) "lk s' = lk s" "0 < cnt L"
  | (byte) e s1 where "fcntl_setlk (env 0) (fpid f) (fino f) (if lt = SHARED_LOCK then F_RDLCK else F_WRLCK) PENDING_BYTE 1 s = (e, s1)" "lk s' = lk s1"
      "e = None \<Longrightarrow> lt \<noteq> SHARED_LOCK"
  | (shared) s1 where "fcntl_setlk (env 0) (fpid f) (fino f) F_RDLCK PENDING_BYTE 1 s = (None, s1)" "unixLock_shared env x f L C s1 = Some (rc, s')"
      "lt = SHARED_LOCK"
  | (writer) e s1 where "s1 = s \<or> fcntl_setlk (env 0) (fpid f) (fino f) F_WRLCK PENDING_BYTE 1 s = (e, s1)" "unixLock_write env x lt f L s1 = Some (rc, s')"
  | (busy) "lk s' = lk s"
proof -
  note code = r [unfolded unixLock_def transferOwnership_def, simplified fx L C option.case]
  obtain e s1 where e: "(if lt = SHARED_LOCK \<or> (lt = EXCLUSIVE_LOCK \<and> flocktype f < PENDING_LOCK)
           then fcntl_setlk (env 0) (fpid f) (fino f)
                  (if lt = SHARED_LOCK then F_RDLCK else F_WRLCK) PENDING_BYTE 1 s
           else (None, s)) = (e, s1)" by fastforce
  consider "s' = s"
    | "s' = s1" "e \<noteq> None"
    | "lt = SHARED_LOCK" "e = None" "unixLock_shared env x f L C s1 = Some (rc, s')"
    | "0 < cnt L" "s' = set_file x (f\<lparr>flocktype := SHARED_LOCK\<rparr>)
                 (set_lock (fpid f) (fino f) (Some (L\<lparr>cnt := cnt L + 1\<rparr>))
                   (set_open (fpid f) (fino f) (Some (C\<lparr>nLock := nLock C + 1\<rparr>)) s))"
    | "lt \<noteq> SHARED_LOCK" "unixLock_finish SQLITE_BUSY x EXCLUSIVE_LOCK f L s1 = Some (rc, s')"
    | "lt \<noteq> SHARED_LOCK" "unixLock_write env x lt f L s1 = Some (rc, s')"
    using code e by (auto split: if_split_asm option.split_asm)
  then show thesis
  proof cases
    case 1 then show thesis by (rule none)
  next
    case 2 then show thesis using e none byte [of e s1] by (auto split: if_splits)
  next
    case 3 then show thesis using e shared [of s1] by simp
  next
    case 4 then show thesis by (intro share) (auto simp: set_defs)
  next
    case 5 then show thesis using e finish_lk [OF 5(2)] byte [of e s1] busy by (auto split: if_splits)
  next
    case 6 then show thesis using e writer [of s1 e] by (auto split: if_splits)
  qed
qed

lemma unixLock_lk:
  assumes r: "unixLock env x lt s = Some (rc, s')" and fx: "files s x = Some f"
    and L: "lockHash s (fpid f) (fino f) = Some L" and C: "openHash s (fpid f) (fino f) = Some C" and o: "(q, j) \<noteq> (fpid f, fino f)"
  shows "lk s' j q = lk s j q"
  using r fx L C
proof (cases rule: unixLock_parts)
  case (byte e s1)
  then show ?thesis using fcntl_lk [OF byte(1) o] by simp
next
  case (shared s1)
  then show ?thesis using fcntl_lk [OF shared(1) o] shared_lk [OF shared(2) o] by simp
next
  case (writer e s1)
  then show ?thesis using fcntl_lk [OF _ o, of "env 0" F_WRLCK PENDING_BYTE 1 s e s1] write_lk [OF writer(2) o] by auto
qed simp_all

lemma clear_twice: "lock_update F_UNLCK a n (lock_update t a n (\<lambda>_. F_UNLCK)) = (\<lambda>_. F_UNLCK)"
  by (auto simp: lock_update_def)

lemma unixLock_idle:
  assumes inv: "lock_inv s" and t: "tidy s" and d: "idle s" and r: "unixLock (\<lambda>_. None) x lt s = Some (rc, s')"
  shows "idle s'"
proof -
  obtain f where fx: "files s x = Some f" using r by (auto simp: unixLock_def split: option.splits)
  define p i where pi: "p = fpid f" "i = fino f"
  from inv_handle [OF inv fx pi] obtain L C where L: "lockHash s p i = Some L" and C: "openHash s p i = Some C"
    and lv: "levels s p i x = Some (flocktype f)" and ct: "counted L C (levels s p i)"
    and bk: "backed (lk s i p) (flocktype f)" by metis
  have ex: "exact L (levels s p i)" using t L by (simp add: tidy_def)
  have f0: "0 \<le> flocktype f" using bk by (rule backed_nonneg)
  have n0: "0 \<le> cnt L" using ct by (simp add: counted_def)
  note code = r [unfolded unixLock_def transferOwnership_def, simplified fx L [unfolded pi] C [unfolded pi] option.case]
  have lh: "lockHash s' q j = lockHash s q j" if "(q, j) \<noteq> (p, i)" for q j
    by (cases rule: unixLock_effect [OF r fx L [unfolded pi] C [unfolded pi]]) (use that in \<open>auto simp: set_lock_def pi\<close>)
  have other: "lk s' j q = lk s j q" if "(q, j) \<noteq> (p, i)" for q j by (rule unixLock_lk [OF r fx L [unfolded pi] C [unfolded pi]]) (use that in \<open>simp add: pi\<close>)
  have at: "idle_at (lockHash s p i) (lk s i p)" using d by (simp add: idle_def)
  have "idle_at (lockHash s' p i) (lk s' i p)"
  proof (cases "cnt L = 0")
    case False
    then have "\<exists>L'. lockHash s' p i = Some L' \<and> cnt L' \<noteq> 0"
      by (cases rule: unixLock_effect [OF r fx L [unfolded pi] C [unfolded pi]]) (use L n0 in \<open>auto simp: set_lock_def pi\<close>)
    then show ?thesis by (auto simp: idle_at_def)
  next
    case True
    then have k: "lk s i p = (\<lambda>_. F_UNLCK)" and l0: "locktype L = 0" using at L ex by (auto simp: idle_at_def exact_def)
    have fl: "flocktype f = 0"
    proof (rule ccontr)
      assume "flocktype f \<noteq> 0"
      then have "x \<in> holders (levels s p i)" using lv f0 by (auto simp: holders_def)
      then show False using True ct counted_finite [OF ct] by (auto simp: counted_def)
    qed
    consider "s' = s" | s1 where "fcntl_setlk None p i F_RDLCK PENDING_BYTE 1 s = (None, s1)"
        "unixLock_shared (\<lambda>_. None) x f L C s1 = Some (rc, s')"
      using code fl l0 by (auto simp: pi split: if_split_asm option.split_asm prod.split_asm elim!: fcntl_cases)
    then show ?thesis
    proof cases
      case 1 then show ?thesis using at by simp
    next
      case (2 s1)
      have s1: "lk s1 i p = lock_update F_RDLCK PENDING_BYTE 1 (\<lambda>_. F_UNLCK)" using 2(1) k by (auto elim!: fcntl_cases)
      obtain e1 s2 where e1: "fcntl_setlk None p i F_RDLCK SHARED_FIRST SHARED_SIZE s1 = (e1, s2)" by fastforce
      show ?thesis
      proof (cases e1)
        case None
        then have "\<exists>L'. lockHash s' p i = Some L' \<and> cnt L' \<noteq> 0"
          using 2(2) e1 by (auto simp: unixLock_shared_def unixLock_finish_def pi set_defs split: if_splits)
        then show ?thesis by (auto simp: idle_at_def)
      next
        case (Some err)
        then have "lk s' i p = lock_update F_UNLCK PENDING_BYTE 1 (lk s1 i p)"
          using 2(2) e1 by (auto simp: unixLock_shared_def unixLock_finish_def pi set_defs elim!: fcntl_cases split: if_splits)
        then show ?thesis using s1 clear_twice by (simp add: idle_at_def)
      qed
    qed
  qed
  then show ?thesis using idleI [OF d] lh other by blast
qed

lemma close_fds_lk:
  "lk (fold (\<lambda>_. close_fd p i) xs s) j q = (if xs \<noteq> [] \<and> (q, j) = (p, i) then (\<lambda>_. F_UNLCK) else lk s j q)"
  by (induction xs arbitrary: s) (auto simp: close_fd_def set_lk_def)

lemma close_pending_lk:
  "close_pending p i C s = (C', s') \<Longrightarrow> (q, j) \<noteq> (p, i) \<or> lk s i p = (\<lambda>_. F_UNLCK) \<Longrightarrow> lk s' j q = lk s j q"
  by (auto simp: close_pending_def close_fds_lk split: if_splits)

lemma lower_lk:
  assumes "unixUnlock_lower env lt f L s = (rc, L', s')" "(q, j) \<noteq> (fpid f, fino f)"
  shows "lk s' j q = lk s j q"
proof -
  obtain e0 s1 where e0: "(if lt = SHARED_LOCK then fcntl_setlk (env 0) (fpid f) (fino f) F_RDLCK SHARED_FIRST SHARED_SIZE s
         else (None, s)) = (e0, s1)" by fastforce
  obtain e1 s2 where e1: "fcntl_setlk (env 1) (fpid f) (fino f) F_UNLCK PENDING_BYTE 2 s1 = (e1, s2)" by fastforce
  have "lk s1 j q = lk s j q" using e0 fcntl_lk [OF _ assms(2)] by (auto split: if_splits)
  moreover have "s' = s2" using assms(1) e0 e1 by (auto simp: unixUnlock_lower_def split: if_splits)
  ultimately show ?thesis using fcntl_lk [OF e1 assms(2)] by simp
qed

lemma release_lk:
  assumes r: "unixUnlock_release env rc f L C s = Some (rc', L', C', s')"
  shows "(q, j) \<noteq> (fpid f, fino f) \<Longrightarrow> lk s' j q = lk s j q"
    "env 2 = None \<Longrightarrow> cnt L = 1 \<Longrightarrow> lk s' (fino f) (fpid f) = (\<lambda>_. F_UNLCK)"
proof -
  obtain e s1 where e: "fcntl_setlk (env 2) (fpid f) (fino f) F_UNLCK 0 0 s = (e, s1)" by fastforce
  obtain s2 C0 where s2: "close_pending (fpid f) (fino f) C0 s2 = (C', s')" "s2 = (if cnt L = 1 then s1 else s)"
    using r e by (auto simp: unixUnlock_release_def Let_def split: if_splits prod.splits)
  show "lk s' j q = lk s j q" if o: "(q, j) \<noteq> (fpid f, fino f)"
    using close_pending_lk [OF s2(1)] fcntl_lk [OF e o] o s2(2) by (simp split: if_splits)
  show "lk s' (fino f) (fpid f) = (\<lambda>_. F_UNLCK)" if "env 2 = None" "cnt L = 1"
  proof -
    have "lk s2 (fino f) (fpid f) = (\<lambda>_. F_UNLCK)" using e that s2(2) by (auto simp: lock_update_def)
    then show ?thesis using close_pending_lk [OF s2(1)] by simp
  qed
qed

lemma release_lockHash: "unixUnlock_release env rc f L C s = Some (rc', L', C', s') \<Longrightarrow> lockHash s' = lockHash s"
proof -
  have "lockHash (fold (\<lambda>_. close_fd p i) xs s) = lockHash s" for p i s and xs :: "fd list"
    by (induction xs arbitrary: s) (auto simp: close_fd_def set_lk_def)
  then have "close_pending p i C s = (C', s') \<Longrightarrow> lockHash s' = lockHash s" for p i C C' s s'
    by (auto simp: close_pending_def split: if_splits)
  then show "unixUnlock_release env rc f L C s = Some (rc', L', C', s') \<Longrightarrow> lockHash s' = lockHash s"
    by (fastforce simp: unixUnlock_release_def Let_def split: if_splits prod.splits dest: fcntl_keep)
qed

lemma unlock_parts:
  assumes r: "unixUnlock env x lt s = Some (rc, s')" and fx: "files s x = Some f" and L: "lockHash s (fpid f) (fino f) = Some L"
    and l: "\<not> flocktype f \<le> lt"
  obtains C rc1 L1 s1 rc2 L2 C2 s2 where
    "(if flocktype f > SHARED_LOCK then unixUnlock_lower env lt f L s else (SQLITE_OK, L, s)) = (rc1, L1, s1)"
    "(if lt = NO_LOCK then unixUnlock_release env rc1 f L1 C s1 else Some (rc1, L1, C, s1)) = Some (rc2, L2, C2, s2)"
    "s' = set_file x (f\<lparr>flocktype := lt\<rparr>) (set_lock (fpid f) (fino f) (Some L2) (set_open (fpid f) (fino f) (Some C2) s2))"
  using r fx L l unfolding unixUnlock_def by (auto split: if_split_asm option.split_asm prod.split_asm)

lemma unixUnlock_lk:
  assumes r: "unixUnlock env x lt s = Some (rc, s')" and fx: "files s x = Some f" and L: "lockHash s (fpid f) (fino f) = Some L"
  shows "(q, j) \<noteq> (fpid f, fino f) \<Longrightarrow> lk s' j q = lk s j q \<and> lockHash s' q j = lockHash s q j"
    "env 2 = None \<Longrightarrow> cnt L = 1 \<Longrightarrow> lt = 0 \<Longrightarrow> lt < flocktype f \<Longrightarrow> lk s' (fino f) (fpid f) = (\<lambda>_. F_UNLCK)"
proof -
  show "lk s' j q = lk s j q \<and> lockHash s' q j = lockHash s q j" if o: "(q, j) \<noteq> (fpid f, fino f)"
  proof (cases "flocktype f \<le> lt")
    case True
    then have "s' = s" using r fx by (auto simp: unixUnlock_def split: if_splits)
    then show ?thesis by simp
  next
    case False
    obtain C rc1 L1 s1 rc2 L2 C2 s2 where 2:
      "(if flocktype f > SHARED_LOCK then unixUnlock_lower env lt f L s else (SQLITE_OK, L, s)) = (rc1, L1, s1)"
      "(if lt = NO_LOCK then unixUnlock_release env rc1 f L1 C s1 else Some (rc1, L1, C, s1)) = Some (rc2, L2, C2, s2)"
      "s' = set_file x (f\<lparr>flocktype := lt\<rparr>) (set_lock (fpid f) (fino f) (Some L2) (set_open (fpid f) (fino f) (Some C2) s2))"
      by (rule unlock_parts [OF r fx L False])
    have "lk s1 j q = lk s j q" using 2(1) lower_lk [OF _ o] by (auto split: if_splits)
    moreover have "lk s2 j q = lk s1 j q" using 2(2) release_lk(1) [OF _ o] by (auto split: if_splits)
    moreover have "lockHash s1 = lockHash s"
      using 2(1) by (auto simp: unixUnlock_lower_def split: if_splits prod.splits dest!: fcntl_keep)
    moreover have "lockHash s2 = lockHash s1" using 2(2) by (auto split: if_splits dest: release_lockHash)
    ultimately show ?thesis using o by (auto simp: 2(3) set_defs)
  qed
  show "lk s' (fino f) (fpid f) = (\<lambda>_. F_UNLCK)" if c: "env 2 = None" "cnt L = 1" "lt = 0" "lt < flocktype f"
  proof -
    have "\<not> flocktype f \<le> lt" using c by simp
    then obtain C rc1 L1 s1 rc2 L2 C2 s2 where 2:
      "(if flocktype f > SHARED_LOCK then unixUnlock_lower env lt f L s else (SQLITE_OK, L, s)) = (rc1, L1, s1)"
      "(if lt = NO_LOCK then unixUnlock_release env rc1 f L1 C s1 else Some (rc1, L1, C, s1)) = Some (rc2, L2, C2, s2)"
      "s' = set_file x (f\<lparr>flocktype := lt\<rparr>) (set_lock (fpid f) (fino f) (Some L2) (set_open (fpid f) (fino f) (Some C2) s2))"
      by (rule unlock_parts [OF r fx L])
    have "cnt L1 = 1" using 2(1) c(2) by (auto simp: unixUnlock_lower_def split: if_splits prod.splits)
    then show ?thesis using 2(2) c release_lk(2) by (auto simp: 2(3) set_defs)
  qed
qed

text \<open>Unlocking, closing and opening without injected errors keep idle processes idle.\<close>

lemma unixUnlock_idle:
  assumes inv: "lock_inv s" and d: "idle s" and lt: "lt = 0 \<or> lt = 1" and r: "unixUnlock (\<lambda>_. None) x lt s = Some (rc, s')"
  shows "idle s'"
proof -
  obtain f where fx: "files s x = Some f" using r by (auto simp: unixUnlock_def split: option.splits)
  from inv_handle [OF inv fx refl refl] obtain L C where L: "lockHash s (fpid f) (fino f) = Some L"
    and lv: "levels s (fpid f) (fino f) x = Some (flocktype f)" and ct: "counted L C (levels s (fpid f) (fino f))" by metis
  note other = unixUnlock_lk(1) [OF r fx L]
  show ?thesis
  proof (cases "flocktype f \<le> lt")
    case True
    then have "s' = s" using r fx by (auto simp: unixUnlock_def split: if_splits)
    then show ?thesis using d by simp
  next
    case False
    then have h: "x \<in> holders (levels s (fpid f) (fino f))" using lv lt by (auto simp: holders_def)
    then have n: "1 \<le> cnt L" using ct counted_finite [OF ct] by (auto simp: counted_def Suc_le_eq card_gt_0_iff)
    have lh: "lockHash s' (fpid f) (fino f) = Some (let L1 = if flocktype f > 1 then L\<lparr>locktype := 1\<rparr> else L in
        if lt = 1 then L1 else if cnt L = 1 then L1\<lparr>cnt := 0, locktype := 0\<rparr> else L1\<lparr>cnt := cnt L - 1\<rparr>)"
      using unixUnlock_clean [OF inv fx refl refl L lt] False r by (auto simp: set_lock_def Let_def)
    have "idle_at (lockHash s' (fpid f) (fino f)) (lk s' (fino f) (fpid f))"
      using unixUnlock_lk(2) [OF r fx L] n False lt unfolding lh idle_at_def by (auto simp: Let_def split: if_splits)
    then show ?thesis using idleI [OF d] other by blast
  qed
qed

lemma unixClose_idle:
  assumes inv: "lock_inv s" and d: "idle s" and r: "unixClose (\<lambda>_. None) room x s = Some (rc, s')"
  shows "idle s'"
proof -
  obtain f rc1 s1 C where fx: "files s x = Some f" and u: "unixUnlock (\<lambda>_. None) x NO_LOCK s = Some (rc1, s1)"
    and C: "openHash s1 (fpid f) (fino f) = Some C"
    using r by (auto simp: unixClose_def split: option.splits)
  have inv1: "lock_inv s1" and d1: "idle s1" using unixUnlock_inv [OF inv _ u] unixUnlock_idle [OF inv d _ u] by simp_all
  have "0 \<le> flocktype f" using inv_handle [OF inv fx refl refl] backed_nonneg by metis
  then have fx1: "files s1 x = Some (f\<lparr>flocktype := 0\<rparr>)" using unlock_handle [OF u fx] by simp
  have e: "fpid f = fpid (f\<lparr>flocktype := 0\<rparr>)" "fino f = fino (f\<lparr>flocktype := 0\<rparr>)" by simp_all
  obtain L C1 where L: "lockHash s1 (fpid f) (fino f) = Some L" and C1: "openHash s1 (fpid f) (fino f) = Some C1"
    and lv0: "levels s1 (fpid f) (fino f) x = Some (flocktype (f\<lparr>flocktype := 0\<rparr>))" and ct1: "counted L C1 (levels s1 (fpid f) (fino f))"
    by (rule inv_handle [OF inv1 fx1 e])
  have lv: "levels s1 (fpid f) (fino f) x = Some 0" and ct: "counted L C (levels s1 (fpid f) (fino f))" using lv0 ct1 C C1 by simp_all
  define s2 where "s2 = (if nLock C \<noteq> 0 then
            if room then set_open (fpid f) (fino f) (Some (C\<lparr>aPending := aPending C @ [h f], nPending := nPending C + 1\<rparr>)) s1
            else s1 else close_fd (fpid f) (fino f) s1)"
  have s': "s' = (releaseOpenCnt (fpid f) (fino f) (releaseLockInfo (fpid f) (fino f) s2))\<lparr>files := (files s2)(x := None)\<rparr>"
    using r unfolding unixClose_def by (simp add: fx u C s2_def [symmetric] release_get)
  have s2: "lockHash s2 = lockHash s1" "(q, j) \<noteq> (fpid f, fino f) \<Longrightarrow> lk s2 j q = lk s1 j q" for q j
    by (auto simp: s2_def close_fd_def set_defs)
  have one: "cnt L = 0" if "nRef L = 1"
  proof -
    have "card (dom (levels s1 (fpid f) (fino f))) = 1" using that ct by (simp add: counted_def)
    then have "dom (levels s1 (fpid f) (fino f)) = {x}" using lv by (metis card_1_singletonE domI singletonD)
    then have "levels s1 (fpid f) (fino f) y = Some m \<Longrightarrow> y = x" for y m by (metis domI singletonD)
    then have "holders (levels s1 (fpid f) (fino f)) = {}" using lv unfolding holders_def by force
    then show ?thesis using ct by (simp add: counted_def)
  qed
  have "idle_at (lockHash s' (fpid f) (fino f)) (lk s' (fino f) (fpid f))"
  proof (cases "cnt L = 0")
    case True
    then have "lk s2 (fino f) (fpid f) = (\<lambda>_. F_UNLCK)" using ct by (simp add: s2_def close_fd_def set_lk_def counted_def)
    then show ?thesis by (simp add: s' release_get idle_at_def)
  next
    case False
    then have "lockHash s' (fpid f) (fino f) = Some (L\<lparr>nRef := nRef L - 1\<rparr>)"
      using one L s2(1) by (auto simp: s' release_get)
    then show ?thesis using False by (simp add: idle_at_def)
  qed
  moreover have "lockHash s' q j = lockHash s1 q j \<and> lk s' j q = lk s1 j q" if "(q, j) \<noteq> (fpid f, fino f)" for q j
    using s2 that by (simp add: s' release_get)
  ultimately show ?thesis using idleI [OF d1] by blast
qed

lemma open_finish_idle:
  assumes inv: "lock_inv s" and d: "idle s" and r: "open_finish e p x dd s = (rc, s')" and safe: "safe_open e p s"
  shows "idle s'"
proof -
  define i where "i = path_ino e"
  have at: "idle_at (lockHash s p i) (lk s i p)" using d by (simp add: idle_def)
  have g: "good (lockHash s p i) (openHash s p i) (lk s i p) (levels s p i)"
    using inv unfolding lock_inv_def by blast
  have "idle_at (lockHash s' p i) (lk s' i p) \<and> (\<forall>q j. (q, j) \<noteq> (p, i) \<longrightarrow> lockHash s' q j = lockHash s q j \<and> lk s' j q = lk s j q)"
  proof (cases "lockHash s p i")
    case None
    then have C: "openHash s p i = None" using g by (auto simp: good_def split: option.splits)
    have k: "lk s i p = (\<lambda>_. F_UNLCK)" using at None by (simp add: idle_at_def)
    have "lk s' i p = (\<lambda>_. F_UNLCK) \<and> (\<forall>q j. (q, j) \<noteq> (p, i) \<longrightarrow> lockHash s' q j = lockHash s q j \<and> lk s' j q = lk s j q)"
      using r None C k
      by (auto simp: open_finish_def findLockInfo_def allocateUnixFile_def close_fd_def i_def [symmetric] Let_def
          releaseLockInfo_def releaseOpenCnt_def set_defs split: if_splits)
    then show ?thesis by (simp add: idle_at_def)
  next
    case (Some L)
    then obtain C where C: "openHash s p i = Some C" using g by (auto simp: good_def split: option.splits)
    have ok: "fstat_ok e" "file_mem e" using safe Some unfolding safe_open_def i_def by auto
    have s': "s' = set_file x \<lparr>fpid = p, fino = i, h = dd, flocktype = 0\<rparr>
        (set_open p i (Some (C\<lparr>onRef := onRef C + 1\<rparr>)) (set_lock p i (Some (L\<lparr>nRef := nRef L + 1\<rparr>)) s))"
      using r Some C ok by (simp add: open_finish_def findLockInfo_def allocateUnixFile_def i_def)
    show ?thesis using at Some by (auto simp: s' set_defs idle_at_def)
  qed
  then show ?thesis using idleI [OF d] by blast
qed

lemma reach_idle: "reach True s \<Longrightarrow> idle s"
proof (induction rule: reach.induct)
  case init then show ?case by (simp add: idle_def idle_at_def init_sys_def)
next
  case (more s s')
  have inv: "lock_inv s" using reach_inv [OF more(1)] .
  have op: "idle s'" if "\<exists>d rc. open_finish e p fh d s = (rc, s')" "safe_open e p s" for e p fh
    using that open_finish_idle [OF inv more.IH] by blast
  from more(2) show ?case
  proof (cases rule: step.cases)
    case Lock then show ?thesis using unixLock_idle [OF inv reach_tidy [OF more(1)] more.IH] by blast
  next
    case Unlock then show ?thesis using unixUnlock_idle [OF inv more.IH] by auto
  next
    case Close then show ?thesis using unixClose_idle [OF inv more.IH] by auto
  next
    case (OpenReadWrite e p fh rc ro)
    then have "s' = s \<or> (\<exists>d rc. open_finish e p fh d s = (rc, s'))"
      by (auto simp: sqlite3UnixOpenReadWrite_def split: if_splits sum.splits prod.splits)
    then show ?thesis using OpenReadWrite op more.IH by blast
  next
    case (OpenExclusive e p fh rc)
    then have "s' = s \<or> (\<exists>d rc. open_finish e p fh d s = (rc, s'))"
      by (auto simp: sqlite3UnixOpenExclusive_def split: if_splits sum.splits)
    then show ?thesis using OpenExclusive op more.IH by blast
  next
    case (OpenReadOnly e p fh rc)
    then have "s' = s \<or> (\<exists>d rc. open_finish e p fh d s = (rc, s'))"
      by (auto simp: sqlite3UnixOpenReadOnly_def split: if_splits sum.splits)
    then show ?thesis using OpenReadOnly op more.IH by blast
  qed
qed

lemma others_idle:
  assumes "reach True s" "\<And>y g. files s y = Some g \<Longrightarrow> fino g = i \<Longrightarrow> fpid g = q \<Longrightarrow> flocktype g = 0"
  shows "lk s i q = (\<lambda>_. F_UNLCK)"
proof -
  have g: "good (lockHash s q i) (openHash s q i) (lk s i q) (levels s q i)"
    using reach_inv [OF assms(1)] unfolding lock_inv_def by blast
  have "holders (levels s q i) = {}" using assms(2) by (auto simp: holders_def levels_def split: option.splits if_splits)
  then have "case lockHash s q i of None \<Rightarrow> True | Some L \<Rightarrow> cnt L = 0"
    using g by (auto simp: good_def counted_def split: option.splits)
  then show ?thesis using reach_idle [OF assms(1)] unfolding idle_def idle_at_def by blast
qed

lemma not_blocked: "(\<And>q. q \<noteq> p \<Longrightarrow> lk s i q = (\<lambda>_. F_UNLCK)) \<Longrightarrow> \<not> lock_blocked p i t a n (set_lk i p k s)"
  by (cases t) (auto simp: lock_blocked_iff set_lk_def)

lemma alone_granted:
  assumes r: "reach True s" and fx: "files s x = Some f" "1 \<le> flocktype f"
    and al: "\<And>y g. files s y = Some g \<Longrightarrow> y \<noteq> x \<Longrightarrow> fino g = fino f \<Longrightarrow> flocktype g = 0"
  shows "\<exists>s' g. unixLock (\<lambda>_. None) x EXCLUSIVE_LOCK s = Some (SQLITE_OK, s') \<and> files s' x = Some g \<and> flocktype g = EXCLUSIVE_LOCK"
proof -
  define p i where pi: "p = fpid f" "i = fino f"
  note inv = reach_inv [OF r]
  from inv_handle [OF inv fx(1) pi] obtain L C where L: "lockHash s p i = Some L" and C: "openHash s p i = Some C"
    and lv: "levels s p i x = Some (flocktype f)" and ct: "counted L C (levels s p i)"
    and bk: "backed (lk s i p) (flocktype f)" and rk: "ranked L (levels s p i)" by metis
  have ex: "exact L (levels s p i)" using reach_tidy [OF r] L by (simp add: tidy_def)
  have lo: "levels s p i y = Some m \<Longrightarrow> y \<noteq> x \<Longrightarrow> m = 0" for y m
    using al pi by (auto simp: levels_def split: option.splits if_splits)
  have "holders (levels s p i) = {x}" using lv fx(2) lo by (force simp: holders_def)
  then have c1: "cnt L = 1" using ct by (simp add: counted_def)
  have own: "flocktype f = locktype L"
  proof (cases "2 \<le> flocktype f")
    case True then show ?thesis using rk lv unfolding ranked_def by metis
  next
    case False
    have "\<not> 2 \<le> locktype L"
    proof
      assume "2 \<le> locktype L"
      then obtain y where "levels s p i y = Some (locktype L)" using ex by (auto simp: exact_def)
      then show False using lo [of y] lv False \<open>2 \<le> locktype L\<close> by (cases "y = x") auto
    qed
    moreover have "locktype L \<noteq> 0" "0 \<le> locktype L" using ex c1 by (auto simp: exact_def)
    ultimately show ?thesis using False fx(2) by simp
  qed
  have "lk s i q = (\<lambda>_. F_UNLCK)" if "q \<noteq> p" for q
  proof (rule others_idle [OF r])
    fix y g assume "files s y = Some g" "fino g = i" "fpid g = q"
    then show "flocktype g = 0" using al [of y g] that fx(1) pi by (cases "y = x") auto
  qed
  then have nb: "\<not> lock_blocked p i t a n (set_lk i p k s)" for t a n k using not_blocked by blast
  have self: "set_lk i p (lk s i p) s = s" by (simp add: set_lk_def)
  have ok: "fcntl_setlk None p i t a n (set_lk i p k s) = (None, set_lk i p (lock_update t a n k) s)" for t a n k
    using nb by (simp add: fcntl_setlk_def)
  have ok0: "fcntl_setlk None p i t a n s = (None, set_lk i p (lock_update t a n (lk s i p)) s)" for t a n
    using ok [of t a n "lk s i p"] by (simp add: self)
  show ?thesis
  proof (cases "4 \<le> flocktype f")
    case True
    then have "flocktype f = 4" using bk by (simp add: backed_def)
    then show ?thesis using fx by (simp add: unixLock_def)
  next
    case False
    obtain k where k: "(if flocktype f < PENDING_LOCK then fcntl_setlk None p i F_WRLCK PENDING_BYTE 1 s else (None, s)) = (None, set_lk i p k s)"
      using ok0 self by (cases "flocktype f < PENDING_LOCK") (auto, metis)
    have "unixLock (\<lambda>_. None) x EXCLUSIVE_LOCK s = unixLock_write (\<lambda>_. None) x EXCLUSIVE_LOCK f L (set_lk i p k s)"
      using fx False L C own c1 k unfolding unixLock_def transferOwnership_def by (simp add: pi cong: if_cong)
    also have "\<dots> = Some (SQLITE_OK, set_file x (f\<lparr>flocktype := 4\<rparr>)
        (set_lock p i (Some (L\<lparr>locktype := 4\<rparr>)) (set_lk i p (lock_update F_WRLCK SHARED_FIRST SHARED_SIZE k) s)))"
      using fx(2) by (simp add: unixLock_write_def unixLock_finish_def pi [symmetric] ok)
    finally show ?thesis by (simp add: set_file_def)
  qed
qed

text \<open>The handles of a list give up their locks, one after the other.\<close>

fun unlock_all :: "hid list \<Rightarrow> sys \<Rightarrow> sys option" where
  "unlock_all [] s = Some s"
| "unlock_all (y # ys) s = (case unixUnlock (\<lambda>_. None) y NO_LOCK s of Some (rc, s') \<Rightarrow> if rc = SQLITE_OK then unlock_all ys s' else None | None \<Rightarrow> None)"

lemma unlock_ok:
  assumes "reach True s" "files s y = Some f"
  shows "\<exists>s'. unixUnlock (\<lambda>_. None) y NO_LOCK s = Some (SQLITE_OK, s') \<and> reach True s' \<and> files s' = (files s)(y \<mapsto> f\<lparr>flocktype := 0\<rparr>)"
proof -
  note inv = reach_inv [OF assms(1)]
  from inv_handle [OF inv assms(2) refl refl] obtain L where L: "lockHash s (fpid f) (fino f) = Some L"
    and bk: "backed (lk s (fino f) (fpid f)) (flocktype f)" by metis
  have f0: "0 \<le> flocktype f" using bk by (rule backed_nonneg)
  obtain s' where s': "unixUnlock (\<lambda>_. None) y NO_LOCK s = Some (SQLITE_OK, s')" "files s' = (files s)(y \<mapsto> f\<lparr>flocktype := 0\<rparr>)"
  proof (cases "flocktype f = 0")
    case True
    then have "f\<lparr>flocktype := 0\<rparr> = f" by (cases f) simp
    then have "files s = (files s)(y \<mapsto> f\<lparr>flocktype := 0\<rparr>)" using assms(2) by (simp add: fun_upd_idem)
    then show thesis using True assms(2) that [of s] by (simp add: unixUnlock_def)
  next
    case False
    then have "0 < flocktype f" using f0 by simp
    then show thesis using unixUnlock_clean [OF inv assms(2) refl refl L, of 0] that by auto
  qed
  moreover have "reach True s'" using reach.more [OF assms(1)] step.Unlock [OF s'(1)] by blast
  ultimately show ?thesis by blast
qed

lemma unlock_all_ok:
  "reach True s \<Longrightarrow> (\<And>y. y \<in> set ys \<Longrightarrow> files s y \<noteq> None) \<Longrightarrow>
   \<exists>s'. unlock_all ys s = Some s' \<and> reach True s' \<and> (\<forall>y. y \<notin> set ys \<longrightarrow> files s' y = files s y) \<and>
     (\<forall>y\<in>set ys. files s' y = map_option (\<lambda>f. f\<lparr>flocktype := 0\<rparr>) (files s y))"
proof (induction ys arbitrary: s)
  case (Cons y ys)
  obtain f where f: "files s y = Some f" using Cons.prems(2) [of y] by auto
  obtain s1 where s1: "unixUnlock (\<lambda>_. None) y NO_LOCK s = Some (SQLITE_OK, s1)" "reach True s1" "files s1 = (files s)(y \<mapsto> f\<lparr>flocktype := 0\<rparr>)"
    using unlock_ok [OF Cons.prems(1) f] by blast
  have "z \<in> set ys \<Longrightarrow> files s1 z \<noteq> None" for z using Cons.prems(2) [of z] s1(3) by auto
  from Cons.IH [OF s1(2) this] obtain s' where s': "unlock_all ys s1 = Some s'" "reach True s'"
    "\<forall>y. y \<notin> set ys \<longrightarrow> files s' y = files s1 y" "\<forall>y\<in>set ys. files s' y = map_option (\<lambda>f. f\<lparr>flocktype := 0\<rparr>) (files s1 y)" by blast
  have "files s' y = Some (f\<lparr>flocktype := 0\<rparr>)" using s'(3,4) s1(3) by (cases "y \<in> set ys") simp_all
  then show ?case using s1 s' f by (intro exI [of _ s']) auto
qed simp

text \<open>
  \<bold>\<open>C39\<close> No writer waits for ever: a handle with at least a SHARED lock gets its EXCLUSIVE lock as soon
  as the other handles of the file, in whatever process, have let go of theirs, in any order; and
  letting go never fails.\<close>

theorem exclusive_eventually_granted:
  assumes "reach True s" "files s x = Some f" "1 \<le> flocktype f"
    and "set ys = {y. y \<noteq> x \<and> (\<exists>g. files s y = Some g \<and> fino g = fino f)}"
  shows "\<exists>s1 s2 g. unlock_all ys s = Some s1 \<and> unixLock (\<lambda>_. None) x EXCLUSIVE_LOCK s1 = Some (SQLITE_OK, s2) \<and>
    files s2 x = Some g \<and> flocktype g = EXCLUSIVE_LOCK"
proof -
  obtain s1 where s1: "unlock_all ys s = Some s1" "reach True s1" "\<forall>y. y \<notin> set ys \<longrightarrow> files s1 y = files s y"
     "\<forall>y\<in>set ys. files s1 y = map_option (\<lambda>f. f\<lparr>flocktype := 0\<rparr>) (files s y)"
    using unlock_all_ok [OF assms(1), of ys] assms(4) by auto
  have "files s1 x = Some f" using s1(3) assms(2,4) by simp
  moreover have "flocktype g = 0" if g: "files s1 y = Some g" "y \<noteq> x" "fino g = fino f" for y g
  proof (cases "y \<in> set ys")
    case True then show ?thesis using s1(4) g(1) by auto
  next
    case False then show ?thesis using s1(3) g assms(4) by auto
  qed
  ultimately show ?thesis using alone_granted [OF s1(2) _ assms(3)] s1(1) by blast
qed

text \<open>A writer of one process with RESERVED waits for a reader of another.\<close>

lemma ex_waiting: "\<exists>s. run [OpenA 10 7 5, OpenA 20 7 6, LockA 5 1, LockA 6 1, LockA 5 2, LockA 5 4] (init_sys [10, 20]) = Some s \<and>
   files s = (\<lambda>_. None)(5 \<mapsto> \<lparr>fpid = 10, fino = 7, h = 3, flocktype = 3\<rparr>, 6 \<mapsto> \<lparr>fpid = 20, fino = 7, h = 3, flocktype = 1\<rparr>)"
proof -
  have e: "\<exists>b\<in>{SHARED_FIRST..<SHARED_FIRST + SHARED_SIZE}. (in_shared b \<longrightarrow> b \<noteq> PENDING_BYTE) \<and> in_shared b"
    by (rule bexI [of _ SHARED_FIRST]) (auto, simp add: SHARED_FIRST_def)
  have n: "\<not> (\<forall>b\<in>{SHARED_FIRST..<SHARED_FIRST + SHARED_SIZE}. in_shared b \<longrightarrow> b = PENDING_BYTE)" using e by blast
  show ?thesis by (simp add: eval_simps e n) (auto simp: fun_eq_iff)
qed

lemma exclusive_eventually_granted_witness:
  "\<exists>s s1 s2 g. run [OpenA 10 7 5, OpenA 20 7 6, LockA 5 1, LockA 6 1, LockA 5 2, LockA 5 4] (init_sys [10, 20]) = Some s \<and>
    unlock_all [6] s = Some s1 \<and> unixLock (\<lambda>_. None) 5 EXCLUSIVE_LOCK s1 = Some (SQLITE_OK, s2) \<and>
    files s2 5 = Some g \<and> flocktype g = EXCLUSIVE_LOCK"
proof -
  obtain s where s: "run [OpenA 10 7 5, OpenA 20 7 6, LockA 5 1, LockA 6 1, LockA 5 2, LockA 5 4] (init_sys [10, 20]) = Some s"
    "files s = (\<lambda>_. None)(5 \<mapsto> \<lparr>fpid = 10, fino = 7, h = 3, flocktype = 3\<rparr>, 6 \<mapsto> \<lparr>fpid = 20, fino = 7, h = 3, flocktype = 1\<rparr>)"
    using ex_waiting by blast
  have "files s 5 = Some \<lparr>fpid = 10, fino = 7, h = 3, flocktype = 3\<rparr>" "set [6] = {y. y \<noteq> 5 \<and> (\<exists>g. files s y = Some g \<and> fino g = 7)}"
    by (auto simp: s(2))
  then show ?thesis using exclusive_eventually_granted [OF ex_reach [OF s(1)], of 5 _ "[6]"] s(1) by fastforce
qed

end
