(* ===== verification/Str.thy ===== *)
theory Str
  imports Prelude
begin

text \<open>
  The string and number helpers of \<^verbatim>\<open>util.c\<close>: case folding and comparison, dequoting,
  the recognition and conversion of numbers, hexadecimal blobs, and the misuse detector on
  the \<^verbatim>\<open>magic\<close> field of a connection.

  A read-only string argument is its bytes before the terminator, read with \<open>cat\<close>; moving the
  pointer is moving the index. \<^verbatim>\<open>sqlite3AtoF\<close> computes in floating point and is not modelled.
\<close>

subsection \<open>Case folding and comparison\<close>

definition UpperToLower_table :: "u8 list" where
  "UpperToLower_table =
    [0, 1, 2, 3, 4, 5, 6, 7, 8, 9, 10, 11, 12, 13, 14, 15, 16, 17,
     18, 19, 20, 21, 22, 23, 24, 25, 26, 27, 28, 29, 30, 31, 32, 33, 34, 35,
     36, 37, 38, 39, 40, 41, 42, 43, 44, 45, 46, 47, 48, 49, 50, 51, 52, 53,
     54, 55, 56, 57, 58, 59, 60, 61, 62, 63, 64, 97, 98, 99, 100, 101, 102, 103,
     104, 105, 106, 107, 108, 109, 110, 111, 112, 113, 114, 115, 116, 117, 118, 119, 120, 121,
     122, 91, 92, 93, 94, 95, 96, 97, 98, 99, 100, 101, 102, 103, 104, 105, 106, 107,
     108, 109, 110, 111, 112, 113, 114, 115, 116, 117, 118, 119, 120, 121, 122, 123, 124, 125,
     126, 127, 128, 129, 130, 131, 132, 133, 134, 135, 136, 137, 138, 139, 140, 141, 142, 143,
     144, 145, 146, 147, 148, 149, 150, 151, 152, 153, 154, 155, 156, 157, 158, 159, 160, 161,
     162, 163, 164, 165, 166, 167, 168, 169, 170, 171, 172, 173, 174, 175, 176, 177, 178, 179,
     180, 181, 182, 183, 184, 185, 186, 187, 188, 189, 190, 191, 192, 193, 194, 195, 196, 197,
     198, 199, 200, 201, 202, 203, 204, 205, 206, 207, 208, 209, 210, 211, 212, 213, 214, 215,
     216, 217, 218, 219, 220, 221, 222, 223, 224, 225, 226, 227, 228, 229, 230, 231, 232, 233,
     234, 235, 236, 237, 238, 239, 240, 241, 242, 243, 244, 245, 246, 247, 248, 249, 250, 251,
     252, 253, 254, 255]"

definition UpperToLower :: "u8 \<Rightarrow> u8" where
  "UpperToLower c = UpperToLower_table ! unat c"

text \<open>The difference of two table entries, as a C \<^verbatim>\<open>int\<close>.\<close>

definition cdiff :: "u8 \<Rightarrow> u8 \<Rightarrow> int" where
  "cdiff a b = uint a - uint b"

function StrICmp_at :: "bytes \<Rightarrow> bytes \<Rightarrow> nat \<Rightarrow> int" where
  "StrICmp_at a b i =
     (if cat a i \<noteq> 0 \<and> UpperToLower (cat a i) = UpperToLower (cat b i) then StrICmp_at a b (Suc i)
      else cdiff (UpperToLower (cat a i)) (UpperToLower (cat b i)))"
  by pat_completeness auto
termination
  by (relation "measure (\<lambda>(a, b, i). length a - i)") (auto simp: cat_def split: if_splits)
declare StrICmp_at.simps [simp del]

definition sqlite3StrICmp :: "bytes \<Rightarrow> bytes \<Rightarrow> int" where
  "sqlite3StrICmp zLeft zRight = StrICmp_at zLeft zRight 0"

text \<open>The loop of \<^verbatim>\<open>sqlite3StrNICmp\<close>: \<open>n\<close> is \<^verbatim>\<open>N\<close> before the test; when the test
  \<^verbatim>\<open>N-- > 0\<close> itself fails, \<^verbatim>\<open>N\<close> is negative afterwards and the result is 0.\<close>

function StrNICmp_at :: "bytes \<Rightarrow> bytes \<Rightarrow> nat \<Rightarrow> int \<Rightarrow> int" where
  "StrNICmp_at a b i n =
     (if n > 0 \<and> cat a i \<noteq> 0 \<and> UpperToLower (cat a i) = UpperToLower (cat b i)
      then StrNICmp_at a b (Suc i) (n - 1)
      else if n - 1 < 0 then 0 else cdiff (UpperToLower (cat a i)) (UpperToLower (cat b i)))"
  by pat_completeness auto
termination
  by (relation "measure (\<lambda>(a, b, i, n). nat n)") auto
declare StrNICmp_at.simps [simp del]

definition sqlite3StrNICmp :: "bytes \<Rightarrow> bytes \<Rightarrow> int \<Rightarrow> int" where
  "sqlite3StrNICmp zLeft zRight n = StrNICmp_at zLeft zRight 0 n"


lemma UpperToLower_table_eq:
  "UpperToLower_table = map (\<lambda>i. of_nat (if 65 \<le> i \<and> i \<le> 90 then i + 32 else i)) [0..<256]"
  by (simp add: UpperToLower_table_def upt_conv_Cons)

lemma UpperToLower_eq: "UpperToLower c = (if 65 \<le> c \<and> c \<le> 90 then c + 32 else c)"
proof -
  have c: "unat c < 256" by (rule u8_less)
  have le: "65 \<le> c \<longleftrightarrow> 65 \<le> unat c" "c \<le> 90 \<longleftrightarrow> unat c \<le> 90" by (simp_all add: word_le_nat_alt)
  show ?thesis using c unfolding UpperToLower_def UpperToLower_table_eq le by simp
qed

lemma UpperToLower_0 [simp]: "UpperToLower c = 0 \<longleftrightarrow> c = 0" "UpperToLower 0 = 0"
proof -
  have "c + 32 \<noteq> 0" if "65 \<le> c" "c \<le> 90"
  proof
    assume "c + 32 = 0"
    then have "c = - 32" by (simp add: eq_neg_iff_add_eq_0)
    then show False using that by simp
  qed
  then show "UpperToLower c = 0 \<longleftrightarrow> c = 0" "UpperToLower 0 = 0" by (auto simp: UpperToLower_eq)
qed

text \<open>The reference order: compare the folded bytes one by one, the terminator being smallest.\<close>

fun lexdiff :: "bytes \<Rightarrow> bytes \<Rightarrow> int" where
  "lexdiff [] [] = 0"
| "lexdiff [] (b # bs) = - uint b"
| "lexdiff (a # as) [] = uint a"
| "lexdiff (a # as) (b # bs) = (if a = b then lexdiff as bs else uint a - uint b)"

definition nul_free :: "bytes \<Rightarrow> bool" where
  "nul_free z \<longleftrightarrow> 0 \<notin> set z"

lemma nul_free_simps [simp]: "nul_free []" "nul_free (c # z) \<longleftrightarrow> c \<noteq> 0 \<and> nul_free z"
  by (auto simp: nul_free_def)

lemma nul_free_drop [simp]: "nul_free z \<Longrightarrow> nul_free (drop i z)"
  by (auto simp: nul_free_def dest: in_set_dropD)

lemma cat_drop: "cat z i = cat (drop i z) 0"
  by (simp add: cat_def)

lemma lexdiff_step:
  "lexdiff (map UpperToLower (drop i a)) (map UpperToLower (drop i b)) =
     (if cat a i \<noteq> 0 \<and> UpperToLower (cat a i) = UpperToLower (cat b i)
      then lexdiff (map UpperToLower (drop (Suc i) a)) (map UpperToLower (drop (Suc i) b))
      else cdiff (UpperToLower (cat a i)) (UpperToLower (cat b i)))"
  if "nul_free a" "nul_free b"
proof -
  have *: "drop (Suc i) z = tl (drop i z)" for z :: bytes by (simp add: drop_Suc tl_drop)
  have "nul_free (drop i a)" "nul_free (drop i b)" using that by auto
  then show ?thesis
    unfolding * cat_drop [of a i] cat_drop [of b i]
    by (cases "drop i a"; cases "drop i b") (auto simp: cdiff_def)
qed

lemma StrICmp_at_eq:
  "nul_free a \<Longrightarrow> nul_free b \<Longrightarrow>
   StrICmp_at a b i = lexdiff (map UpperToLower (drop i a)) (map UpperToLower (drop i b))"
proof (induction a b i rule: StrICmp_at.induct)
  case (1 a b i)
  then show ?case by (simp add: StrICmp_at.simps [of a b i] lexdiff_step [of a b i])
qed

lemma lexdiff_take_step:
  "lexdiff (map UpperToLower (take (Suc n) (drop i a))) (map UpperToLower (take (Suc n) (drop i b))) =
     (if cat a i \<noteq> 0 \<and> UpperToLower (cat a i) = UpperToLower (cat b i)
      then lexdiff (map UpperToLower (take n (drop (Suc i) a))) (map UpperToLower (take n (drop (Suc i) b)))
      else cdiff (UpperToLower (cat a i)) (UpperToLower (cat b i)))"
  if "nul_free a" "nul_free b"
proof -
  have *: "drop (Suc i) z = tl (drop i z)" for z :: bytes by (simp add: drop_Suc tl_drop)
  have "nul_free (drop i a)" "nul_free (drop i b)" using that by auto
  then show ?thesis
    unfolding * cat_drop [of a i] cat_drop [of b i]
    by (cases "drop i a"; cases "drop i b") (auto simp: cdiff_def)
qed

lemma StrNICmp_at_eq:
  "nul_free a \<Longrightarrow> nul_free b \<Longrightarrow>
   StrNICmp_at a b i n = lexdiff (map UpperToLower (take (nat n) (drop i a))) (map UpperToLower (take (nat n) (drop i b)))"
proof (induction a b i n rule: StrNICmp_at.induct)
  case (1 a b i n)
  show ?case
  proof (cases "n > 0")
    case False
    then show ?thesis by (simp add: StrNICmp_at.simps [of a b i n])
  next
    case True
    then have n: "nat n = Suc (nat (n - 1))" by simp
    show ?thesis
      using 1 True unfolding n lexdiff_take_step [OF "1.prems"]
      by (simp add: StrNICmp_at.simps [of a b i n])
  qed
qed

lemma lexdiff_0 [simp]: "lexdiff a b = 0 \<longleftrightarrow> a = b" if "nul_free a" "nul_free b"
  using that by (induction a b rule: lexdiff.induct) (auto simp: uint_0_iff)

lemma lexdiff_neg: "lexdiff b a = - lexdiff a b"
  by (induction a b rule: lexdiff.induct) auto

lemma lexdiff_pos: "nul_free z \<Longrightarrow> 0 \<le> lexdiff z [] \<and> lexdiff [] z \<le> 0"
  by (cases z) auto

lemma lexdiff_trans:
  "lexdiff a b \<le> 0 \<Longrightarrow> lexdiff b c \<le> 0 \<Longrightarrow> nul_free a \<Longrightarrow> nul_free b \<Longrightarrow> nul_free c \<Longrightarrow> lexdiff a c \<le> 0"
proof (induction a b arbitrary: c rule: lexdiff.induct)
  case (4 a as b bs)
  then show ?case by (cases c) (auto split: if_splits simp: uint_0_iff)
next
  case (2 b bs) then show ?case using lexdiff_pos [of c] by simp
next
  case (3 a as) then show ?case by (auto simp: uint_0_iff)
qed simp

lemma nul_free_lower [simp]: "nul_free (map UpperToLower z) \<longleftrightarrow> nul_free z"
  by (induction z) auto

lemma nul_free_take [simp]: "nul_free z \<Longrightarrow> nul_free (take n z)"
  by (auto simp: nul_free_def dest: in_set_takeD)


subsection \<open>Numbers in text\<close>

abbreviation is_digit :: "u8 \<Rightarrow> bool" where "is_digit c \<equiv> 48 \<le> c \<and> c \<le> 57"

text \<open>\<^verbatim>\<open>isdigit\<close> of the C library, in the C locale.\<close>

definition isdigit :: "u8 \<Rightarrow> bool" where
  "isdigit c \<longleftrightarrow> is_digit c"

abbreviation SQLITE_UTF8 :: u8 where "SQLITE_UTF8 \<equiv> 1"
abbreviation SQLITE_UTF16BE :: u8 where "SQLITE_UTF16BE \<equiv> 3"

definition enc_incr :: "u8 \<Rightarrow> nat" where
  "enc_incr enc = (if enc = SQLITE_UTF8 then 1 else 2)"

lemma enc_incr_pos [simp]: "0 < enc_incr enc" "enc_incr enc \<noteq> 0"
  by (simp_all add: enc_incr_def)

lemma isdigit_cat: "isdigit (cat z i) \<Longrightarrow> i < length z"
  by (auto simp: isdigit_def cat_def split: if_splits)

function skip_digits :: "u8 \<Rightarrow> bytes \<Rightarrow> nat \<Rightarrow> nat" where
  "skip_digits enc z i = (if isdigit (cat z i) then skip_digits enc z (i + enc_incr enc) else i)"
  by pat_completeness auto
termination
  by (relation "measure (\<lambda>(enc, z, i). length z - i)") (auto dest: isdigit_cat intro: diff_less_mono2)
declare skip_digits.simps [simp del]

text \<open>The exponent and the final test; the second component is what was stored through
  \<^verbatim>\<open>realnum\<close>.\<close>

definition IsNumber_exp :: "bytes \<Rightarrow> u8 \<Rightarrow> nat \<Rightarrow> int \<Rightarrow> bool \<times> int option" where
  "IsNumber_exp z enc i r =
     (if cat z i = 101 \<or> cat z i = 69 then
        let i4 = i + enc_incr enc;
            i5 = (if cat z i4 = 43 \<or> cat z i4 = 45 then i4 + enc_incr enc else i4)
        in if \<not> isdigit (cat z i5) then (False, Some r)
           else (cat z (skip_digits enc z i5) = 0, Some 1)
      else (cat z i = 0, Some r))"

definition sqlite3IsNumber :: "bytes \<Rightarrow> u8 \<Rightarrow> bool \<times> int option" where
  "sqlite3IsNumber z enc =
     (let incr = enc_incr enc;
          i0 = (if enc = SQLITE_UTF16BE then 1 else 0);
          i1 = (if cat z i0 = 45 \<or> cat z i0 = 43 then i0 + incr else i0)
      in if \<not> isdigit (cat z i1) then (False, None) else
      let i2 = skip_digits enc z (i1 + incr)
      in if cat z i2 = 46 then
           if \<not> isdigit (cat z (i2 + incr)) then (False, Some 0)
           else IsNumber_exp z enc (skip_digits enc z (i2 + incr)) 1
         else IsNumber_exp z enc i2 0)"

text \<open>The digit loop of \<^verbatim>\<open>sqlite3atoi64\<close>, with its wrap-around.\<close>

function atoi64_loop :: "bytes \<Rightarrow> nat \<Rightarrow> i64 \<Rightarrow> nat \<times> i64" where
  "atoi64_loop z i v =
     (if is_digit (cat z i) then atoi64_loop z (Suc i) (v * 10 + ucast (cat z i) - 48) else (i, v))"
  by pat_completeness auto
termination
  by (relation "measure (\<lambda>(z, i, v). length z - i)") (auto simp: cat_def split: if_splits)
declare atoi64_loop.simps [simp del]

text \<open>\<^verbatim>\<open>memcmp\<close> of the first \<open>n\<close> bytes: negative, zero or positive.\<close>

fun memcmp :: "bytes \<Rightarrow> bytes \<Rightarrow> nat \<Rightarrow> int" where
  "memcmp a b 0 = 0"
| "memcmp a b (Suc n) = (if cat a 0 = cat b 0 then memcmp (tl a) (tl b) n else cdiff (cat a 0) (cat b 0))"

definition max_i64_text :: bytes where
  "max_i64_text = [57,50,50,51,51,55,50,48,51,54,56,53,52,55,55,53,56,48,55]"

definition max_i32_text :: bytes where
  "max_i32_text = [50,49,52,55,52,56,51,54,52,55]"

definition sqlite3atoi64 :: "bytes \<Rightarrow> i64 \<times> bool" where
  "sqlite3atoi64 zNum =
     (let neg = cat zNum 0 = 45;
          z = (if neg \<or> cat zNum 0 = 43 then tl zNum else zNum);
          (i, v) = atoi64_loop z 0 0
      in (if neg then - v else v,
          cat z i = 0 \<and> i > 0 \<and> (i < 19 \<or> i = 19 \<and> memcmp z max_i64_text 19 \<le> 0)))"

function count_digits :: "bytes \<Rightarrow> nat \<Rightarrow> nat" where
  "count_digits z i = (if is_digit (cat z i) then count_digits z (Suc i) else i)"
  by pat_completeness auto
termination
  by (relation "measure (\<lambda>(z, i). length z - i)") (auto simp: cat_def split: if_splits)
declare count_digits.simps [simp del]

definition sqlite3FitsIn32Bits :: "bytes \<Rightarrow> bool" where
  "sqlite3FitsIn32Bits zNum =
     (let z = (if cat zNum 0 = 45 \<or> cat zNum 0 = 43 then tl zNum else zNum);
          i = count_digits z 0
      in i < 10 \<or> i = 10 \<and> memcmp z max_i32_text 10 \<le> 0)"

definition sqlite3FitsIn64Bits :: "bytes \<Rightarrow> bool" where
  "sqlite3FitsIn64Bits zNum =
     (let z = (if cat zNum 0 = 45 \<or> cat zNum 0 = 43 then tl zNum else zNum);
          i = count_digits z 0
      in i < 19 \<or> i = 19 \<and> memcmp z max_i64_text 19 \<le> 0)"

text \<open>\<^verbatim>\<open>atoi\<close> of the C library: white space, a sign, digits; the value is the
  mathematical one, of which C promises nothing when it is not an \<^verbatim>\<open>int\<close>.\<close>

definition dec_value :: "bytes \<Rightarrow> int" where
  "dec_value ds = foldl (\<lambda>v c. v * 10 + (uint c - 48)) 0 ds"

definition isspace :: "u8 \<Rightarrow> bool" where
  "isspace c \<longleftrightarrow> c = 32 \<or> 9 \<le> c \<and> c \<le> 13"

definition atoi :: "bytes \<Rightarrow> int" where
  "atoi z =
     (let y = dropWhile isspace z;
          ds = takeWhile isdigit (if cat y 0 = 45 \<or> cat y 0 = 43 then tl y else y)
      in if cat y 0 = 45 then - dec_value ds else dec_value ds)"

definition sqlite3GetInt32 :: "bytes \<Rightarrow> int option" where
  "sqlite3GetInt32 zNum = (if sqlite3FitsIn32Bits zNum then Some (atoi zNum) else None)"

subsection \<open>Hexadecimal blobs\<close>

text \<open>The failed \<^verbatim>\<open>assert\<close> is \<open>None\<close>.\<close>

definition hexToInt :: "u8 \<Rightarrow> int option" where
  "hexToInt h =
     (if 48 \<le> h \<and> h \<le> 57 then Some (uint h - 48)
      else if 97 \<le> h \<and> h \<le> 102 then Some (uint h - 97 + 10)
      else if 65 \<le> h \<and> h \<le> 70 then Some (uint h - 65 + 10)
      else None)"

fun hex_pairs :: "bytes \<Rightarrow> bytes option" where
  "hex_pairs (a # b # z) =
     (case (hexToInt a, hexToInt b) of
        (Some x, Some y) \<Rightarrow> map_option (Cons (of_int (or (x * 16) y))) (hex_pairs z)
      | _ \<Rightarrow> None)"
| "hex_pairs _ = Some []"

text \<open>\<open>ok\<close> is the success of \<^verbatim>\<open>sqliteMalloc\<close>. The outer \<open>None\<close> is a failed assertion or a
  write through a null pointer, the inner one the null result.\<close>

definition sqlite3HexToBlob :: "bool \<Rightarrow> bytes \<Rightarrow> bytes option option" where
  "sqlite3HexToBlob ok z =
     (if odd (length z) then Some None
      else if z = [] then Some (if ok then Some [] else None)
      else if \<not> ok then None
      else map_option Some (hex_pairs z))"

subsection \<open>Quotes\<close>

text \<open>The in-place loop over the buffer \<open>z\<close>, which ends with the terminator.\<close>

function dequote_loop :: "u8 \<Rightarrow> nat \<Rightarrow> nat \<Rightarrow> bytes \<Rightarrow> bytes" where
  "dequote_loop quote i j z =
     (if cat z i = 0 then z
      else if cat z i = quote then
        if cat z (i + 1) = quote then dequote_loop quote (i + 2) (j + 1) (z[j := quote])
        else z[j := 0]
      else dequote_loop quote (i + 1) (j + 1) (z[j := cat z i]))"
  by pat_completeness auto
termination
  by (relation "measure (\<lambda>(q, i, j, z). length z - i)") (auto simp: cat_def split: if_splits)
declare dequote_loop.simps [simp del]

definition sqlite3Dequote :: "bytes \<Rightarrow> bytes" where
  "sqlite3Dequote z =
     (if cat z 0 = 39 \<or> cat z 0 = 34 \<or> cat z 0 = 96 then dequote_loop (cat z 0) 1 0 z
      else if cat z 0 = 91 then dequote_loop 93 1 0 z
      else z)"

subsection \<open>The misuse detector\<close>

abbreviation SQLITE_MAGIC_OPEN :: u32 where "SQLITE_MAGIC_OPEN \<equiv> 0xa029a697"
abbreviation SQLITE_MAGIC_CLOSED :: u32 where "SQLITE_MAGIC_CLOSED \<equiv> 0x9f3c2d33"
abbreviation SQLITE_MAGIC_BUSY :: u32 where "SQLITE_MAGIC_BUSY \<equiv> 0xf03b7906"
abbreviation SQLITE_MAGIC_ERROR :: u32 where "SQLITE_MAGIC_ERROR \<equiv> 0xb5357930"
abbreviation SQLITE_Interrupt :: u32 where "SQLITE_Interrupt \<equiv> 4"

record conn =
  magic :: u32
  flags :: u32

definition sqlite3SafetyOn :: "conn \<Rightarrow> bool \<times> conn" where
  "sqlite3SafetyOn db =
     (if magic db = SQLITE_MAGIC_OPEN then (False, db\<lparr>magic := SQLITE_MAGIC_BUSY\<rparr>)
      else if magic db = SQLITE_MAGIC_BUSY then
        (True, db\<lparr>magic := SQLITE_MAGIC_ERROR, flags := flags db OR SQLITE_Interrupt\<rparr>)
      else (True, db))"

definition sqlite3SafetyOff :: "conn \<Rightarrow> bool \<times> conn" where
  "sqlite3SafetyOff db =
     (if magic db = SQLITE_MAGIC_BUSY then (False, db\<lparr>magic := SQLITE_MAGIC_OPEN\<rparr>)
      else if magic db = SQLITE_MAGIC_OPEN then
        (True, db\<lparr>magic := SQLITE_MAGIC_ERROR, flags := flags db OR SQLITE_Interrupt\<rparr>)
      else (True, db))"

definition sqlite3SafetyCheck :: "conn option \<Rightarrow> bool" where
  "sqlite3SafetyCheck dbo =
     (case dbo of None \<Rightarrow> True
      | Some db \<Rightarrow> magic db \<noteq> SQLITE_MAGIC_CLOSED \<and> magic db \<noteq> SQLITE_MAGIC_OPEN \<and> magic db \<noteq> SQLITE_MAGIC_BUSY)"

subsection \<open>The recogniser of numbers\<close>

definition strip_sign :: "bytes \<Rightarrow> bytes" where
  "strip_sign y = (if cat y 0 = 45 \<or> cat y 0 = 43 then tl y else y)"

lemma cat_cong_drop: "cat z i = cat (drop i z) 0"
  by (simp add: cat_def)

lemma drop_Suc_tl: "drop (Suc i) z = tl (drop i z)"
  by (simp add: drop_Suc tl_drop)

lemma isdigit_0 [simp]: "\<not> isdigit 0" "\<not> isdigit 45" "\<not> isdigit 43" "\<not> isdigit 46" "\<not> isdigit 101" "\<not> isdigit 69"
  by (simp_all add: isdigit_def)

lemma cat_nonempty: "isdigit (cat y 0) \<Longrightarrow> y \<noteq> []"
  by auto

lemma drop_skip: "drop (skip_digits SQLITE_UTF8 z i) z = dropWhile isdigit (drop i z)"
proof (induction "SQLITE_UTF8" z i rule: skip_digits.induct)
  case (1 z i)
  show ?case
  proof (cases "isdigit (cat z i)")
    case True
    then obtain c r where r: "drop i z = c # r" "isdigit c"
      using cat_cong_drop [of z i] by (cases "drop i z") auto
    have "drop (skip_digits SQLITE_UTF8 z (Suc i)) z = dropWhile isdigit (drop (Suc i) z)"
      using 1 True by (simp add: enc_incr_def)
    then show ?thesis using True r by (simp add: skip_digits.simps [of _ z i] enc_incr_def drop_Suc_tl)
  next
    case False
    then show ?thesis
      using cat_cong_drop [of z i] by (cases "drop i z") (auto simp: skip_digits.simps [of _ z i])
  qed
qed

lemma skip_from_digit: "isdigit (cat z i) \<Longrightarrow> skip_digits SQLITE_UTF8 z (Suc i) = skip_digits SQLITE_UTF8 z i"
  by (simp add: skip_digits.simps [of _ z i] enc_incr_def)

text \<open>The recogniser on the rest of the text, in place of the index.\<close>

definition exp_tail :: "bytes \<Rightarrow> bool" where
  "exp_tail y \<longleftrightarrow>
     (if cat y 0 = 101 \<or> cat y 0 = 69 then
        isdigit (cat (strip_sign (tl y)) 0) \<and> cat (dropWhile isdigit (strip_sign (tl y))) 0 = 0
      else cat y 0 = 0)"

definition isnum_list :: "bytes \<Rightarrow> bool \<times> int option" where
  "isnum_list z =
     (let y = strip_sign z; y2 = dropWhile isdigit y; y3 = dropWhile isdigit (tl y2) in
      if \<not> isdigit (cat y 0) then (False, None)
      else if cat y2 0 = 46 then
        if isdigit (cat (tl y2) 0) then (exp_tail y3, Some 1) else (False, Some 0)
      else (exp_tail y2, Some (if cat y2 0 = 101 \<or> cat y2 0 = 69 then
              (if isdigit (cat (strip_sign (tl y2)) 0) then 1 else 0) else 0)))"

lemma enc_utf8: "enc_incr SQLITE_UTF8 = 1"
  by (simp add: enc_incr_def)

lemma IsNumber_exp_eq:
  "IsNumber_exp z SQLITE_UTF8 i r = (exp_tail (drop i z),
     Some (if (cat z i = 101 \<or> cat z i = 69) \<and> isdigit (cat (strip_sign (tl (drop i z))) 0) then 1 else r))"
proof -
  define i5 where "i5 = (if cat z (i + 1) = 43 \<or> cat z (i + 1) = 45 then i + 1 + 1 else i + 1)"
  have "drop i5 z = strip_sign (tl (drop i z))"
    using cat_cong_drop [of z "Suc i"] by (auto simp: i5_def strip_sign_def drop_Suc_tl)
  then have "cat z i5 = cat (strip_sign (tl (drop i z))) 0"
    "cat z (skip_digits SQLITE_UTF8 z i5) = cat (dropWhile isdigit (strip_sign (tl (drop i z)))) 0"
    using cat_cong_drop [of z i5] cat_cong_drop [of z "skip_digits SQLITE_UTF8 z i5"] by (simp_all add: drop_skip)
  moreover have "IsNumber_exp z SQLITE_UTF8 i r =
     (if cat z i = 101 \<or> cat z i = 69 then
        if \<not> isdigit (cat z i5) then (False, Some r) else (cat z (skip_digits SQLITE_UTF8 z i5) = 0, Some 1)
      else (cat z i = 0, Some r))"
    unfolding IsNumber_exp_def Let_def by (simp only: i5_def enc_utf8)
  ultimately show ?thesis
    using cat_cong_drop [of z i] unfolding exp_tail_def by simp
qed

lemma IsNumber_list: "sqlite3IsNumber z SQLITE_UTF8 = isnum_list z"
proof -
  define i1 where "i1 = (if cat z 0 = 45 \<or> cat z 0 = 43 then 1 else 0 :: nat)"
  define i2 where "i2 = skip_digits SQLITE_UTF8 z i1"
  define i3 where "i3 = skip_digits SQLITE_UTF8 z (Suc i2)"
  have d1: "drop i1 z = strip_sign z" by (simp add: i1_def strip_sign_def drop_Suc)
  have d2: "drop i2 z = dropWhile isdigit (strip_sign z)" by (simp add: i2_def drop_skip d1)
  have d3: "drop i3 z = dropWhile isdigit (tl (drop i2 z))" by (simp add: i3_def drop_skip drop_Suc_tl)
  have sk: "skip_digits SQLITE_UTF8 z (Suc i1) = i2" if "isdigit (cat z i1)"
    using skip_from_digit [OF that] by (simp add: i2_def)
  have e0: "(if SQLITE_UTF8 = SQLITE_UTF16BE then 1 else 0 :: nat) = 0" by simp
  have i1': "(if cat z 0 = 45 \<or> cat z 0 = 43 then 0 + 1 else 0) = i1" by (simp add: i1_def)
  have "sqlite3IsNumber z SQLITE_UTF8 =
     (if \<not> isdigit (cat z i1) then (False, None)
      else if cat z (skip_digits SQLITE_UTF8 z (i1 + 1)) = 46 then
        if \<not> isdigit (cat z (skip_digits SQLITE_UTF8 z (i1 + 1) + 1)) then (False, Some 0)
        else IsNumber_exp z SQLITE_UTF8 (skip_digits SQLITE_UTF8 z (skip_digits SQLITE_UTF8 z (i1 + 1) + 1)) 1
      else IsNumber_exp z SQLITE_UTF8 (skip_digits SQLITE_UTF8 z (i1 + 1)) 0)"
    unfolding sqlite3IsNumber_def Let_def by (simp only: e0 i1' enc_utf8)
  also have "\<dots> =
     (if \<not> isdigit (cat z i1) then (False, None)
      else if cat z i2 = 46 then
        if \<not> isdigit (cat z (Suc i2)) then (False, Some 0) else IsNumber_exp z SQLITE_UTF8 i3 1
      else IsNumber_exp z SQLITE_UTF8 i2 0)"
    using sk by (simp add: i3_def)
  finally have "sqlite3IsNumber z SQLITE_UTF8 = \<dots>" .
  then show ?thesis
    using cat_cong_drop [of z i1] cat_cong_drop [of z i2] cat_cong_drop [of z "Suc i2"]
    unfolding isnum_list_def IsNumber_exp_eq d1 d3 by (simp add: d2 drop_Suc_tl Let_def)
qed


text \<open>The grammar: sign, digits, an optional fraction, an optional exponent.\<close>

definition sgn_text :: "bytes \<Rightarrow> bool" where
  "sgn_text t \<longleftrightarrow> t = [] \<or> t = [45] \<or> t = [43]"

definition digits :: "bytes \<Rightarrow> bool" where
  "digits t \<longleftrightarrow> t \<noteq> [] \<and> list_all isdigit t"

definition frac_text :: "bytes \<Rightarrow> bool" where
  "frac_text t \<longleftrightarrow> t = [] \<or> (hd t = 46 \<and> digits (tl t))"

definition exp_text :: "bytes \<Rightarrow> bool" where
  "exp_text t \<longleftrightarrow> t = [] \<or> ((hd t = 101 \<or> hd t = 69) \<and> (\<exists>s ds. tl t = s @ ds \<and> sgn_text s \<and> digits ds))"

lemma strip_split: "\<exists>s. y = s @ strip_sign y \<and> sgn_text s"
  by (cases y) (auto simp: strip_sign_def sgn_text_def)

lemma digits_hd: "digits ds \<Longrightarrow> isdigit (cat (ds @ r) 0)"
  by (cases ds) (auto simp: digits_def)

lemma strip_sgn: "sgn_text s \<Longrightarrow> digits ds \<Longrightarrow> strip_sign (s @ ds @ r) = ds @ r"
  using digits_hd [of ds r] by (auto simp: sgn_text_def strip_sign_def)

lemma digits_dropWhile: "digits ds \<Longrightarrow> \<not> isdigit (cat r 0) \<Longrightarrow> dropWhile isdigit (ds @ r) = r"
  by (cases r) (auto simp: digits_def list_all_iff dropWhile_append2)

lemma digits_split: "isdigit (cat y 0) \<Longrightarrow> \<exists>ds. y = ds @ dropWhile isdigit y \<and> digits ds"
proof (intro exI conjI)
  assume d: "isdigit (cat y 0)"
  show "y = takeWhile isdigit y @ dropWhile isdigit y" by simp
  show "digits (takeWhile isdigit y)"
    using d by (cases y) (auto simp: digits_def list_all_iff dest: set_takeWhileD)
qed

lemma cat_0_Nil: "nul_free y \<Longrightarrow> cat y 0 = 0 \<longleftrightarrow> y = []"
  by (cases y) auto

lemma nul_free_append [simp]: "nul_free (a @ b) \<longleftrightarrow> nul_free a \<and> nul_free b"
  by (auto simp: nul_free_def)

lemma exp_tail_iff: "nul_free y \<Longrightarrow> exp_tail y \<longleftrightarrow> exp_text y"
proof
  assume nf: "nul_free y" and t: "exp_tail y"
  show "exp_text y"
  proof (cases "cat y 0 = 101 \<or> cat y 0 = 69")
    case True
    then obtain c r where y: "y = c # r" "c = 101 \<or> c = 69" by (cases y) auto
    obtain s where s: "r = s @ strip_sign r" "sgn_text s" using strip_split by blast
    have d: "isdigit (cat (strip_sign r) 0)" "cat (dropWhile isdigit (strip_sign r)) 0 = 0"
      using t y by (auto simp: exp_tail_def)
    obtain ds where ds: "strip_sign r = ds @ dropWhile isdigit (strip_sign r)" "digits ds" using digits_split [OF d(1)] by blast
    have "nul_free (dropWhile isdigit (strip_sign r))"
      using nf y s ds(1) by (metis nul_free_append nul_free_simps(2))
    then have "strip_sign r = ds" using d(2) cat_0_Nil ds(1) by (metis append_Nil2)
    then show ?thesis using y s ds(2) by (auto simp: exp_text_def)
  next
    case False
    then show ?thesis using t cat_0_Nil [OF nf] by (simp add: exp_tail_def exp_text_def)
  qed
next
  assume nf: "nul_free y" and t: "exp_text y"
  show "exp_tail y"
  proof (cases y)
    case Nil then show ?thesis by (simp add: exp_tail_def)
  next
    case (Cons c r)
    then obtain s ds where "c = 101 \<or> c = 69" "r = s @ ds" "sgn_text s" "digits ds"
      using t by (auto simp: exp_text_def)
    moreover from this have "cat (dropWhile isdigit ds) 0 = 0"
      using digits_dropWhile [of ds "[]"] by (metis append_Nil2 cat_Nil isdigit_0(1))
    ultimately show ?thesis
      using Cons strip_sgn [of s ds "[]"] digits_hd [of ds "[]"]
      by (auto simp: exp_tail_def)
  qed
qed

lemma exp_text_hd: "exp_text e \<Longrightarrow> \<not> isdigit (cat e 0) \<and> cat e 0 \<noteq> 46"
  by (cases e) (auto simp: exp_text_def)

lemma isnum_iff:
  assumes nf: "nul_free z"
  shows "fst (isnum_list z) \<longleftrightarrow>
    (\<exists>s d f e. z = s @ d @ f @ e \<and> sgn_text s \<and> digits d \<and> frac_text f \<and> exp_text e \<and>
       snd (isnum_list z) = Some (if f = [] \<and> e = [] then 0 else 1))"
proof
  assume t: "fst (isnum_list z)"
  define y where "y = strip_sign z"
  define y2 where "y2 = dropWhile isdigit y"
  define y3 where "y3 = dropWhile isdigit (tl y2)"
  obtain s where s: "z = s @ y" "sgn_text s" using strip_split unfolding y_def by blast
  have d: "isdigit (cat y 0)" using t by (auto simp: isnum_list_def y_def Let_def split: if_splits)
  obtain ds where ds: "y = ds @ y2" "digits ds" using digits_split [OF d] unfolding y2_def by blast
  have nf2: "nul_free y2" using nf s ds by simp
  show "\<exists>s d f e. z = s @ d @ f @ e \<and> sgn_text s \<and> digits d \<and> frac_text f \<and> exp_text e \<and>
       snd (isnum_list z) = Some (if f = [] \<and> e = [] then 0 else 1)"
  proof (cases "cat y2 0 = 46")
    case True
    then obtain r where r: "y2 = 46 # r" by (cases y2) auto
    have y3: "y3 = dropWhile isdigit r" by (simp add: y3_def r)
    have d2: "isdigit (cat r 0)" and e: "exp_tail y3" and sn: "snd (isnum_list z) = Some 1"
      using t True r d by (auto simp: isnum_list_def y_def [symmetric] y2_def [symmetric] y3 Let_def split: if_splits)
    obtain fs where fs: "r = fs @ y3" "digits fs" using digits_split [OF d2] unfolding y3 by auto
    have "nul_free y3" using nf2 r fs by simp
    then have "exp_text y3" using e exp_tail_iff by blast
    then show ?thesis
      using s ds r fs sn by (intro exI [of _ s] exI [of _ ds] exI [of _ "46 # fs"] exI [of _ y3]) (auto simp: frac_text_def)
  next
    case False
    then have e: "exp_tail y2" and sn: "snd (isnum_list z) = Some (if cat y2 0 = 101 \<or> cat y2 0 = 69 then
              (if isdigit (cat (strip_sign (tl y2)) 0) then 1 else 0) else 0)"
      using t d by (auto simp: isnum_list_def y_def [symmetric] y2_def [symmetric] Let_def split: if_splits)
    have ex: "exp_text y2" using e exp_tail_iff [OF nf2] by blast
    have "snd (isnum_list z) = Some (if y2 = [] then 0 else 1)"
      using e unfolding sn exp_tail_def cat_0_Nil [OF nf2] by (auto split: if_splits)
    then show ?thesis
      using s ds ex by (intro exI [of _ s] exI [of _ ds] exI [of _ "[]"] exI [of _ y2]) (auto simp: frac_text_def)
  qed
next
  assume "\<exists>s d f e. z = s @ d @ f @ e \<and> sgn_text s \<and> digits d \<and> frac_text f \<and> exp_text e \<and>
       snd (isnum_list z) = Some (if f = [] \<and> e = [] then 0 else 1)"
  then obtain s d f e where z: "z = s @ d @ f @ e" and p: "sgn_text s" "digits d" "frac_text f" "exp_text e" by blast
  have y: "strip_sign z = d @ f @ e" using strip_sgn [OF p(1,2)] z by simp
  have fe: "\<not> isdigit (cat (f @ e) 0)" using p(3) exp_text_hd [OF p(4)] by (cases f) (auto simp: frac_text_def)
  have y2: "dropWhile isdigit (d @ f @ e) = f @ e" using digits_dropWhile [OF p(2) fe] .
  have nfe: "nul_free e" using nf z by simp
  have et: "exp_tail e" using exp_tail_iff [OF nfe] p(4) by simp
  show "fst (isnum_list z)"
  proof (cases f)
    case Nil
    then show ?thesis using digits_hd [OF p(2)] y y2 exp_text_hd [OF p(4)] et by (simp add: isnum_list_def)
  next
    case (Cons c r)
    then have f: "f = 46 # r" "digits r" using p(3) by (auto simp: frac_text_def)
    have "dropWhile isdigit (r @ e) = e" using digits_dropWhile [OF f(2)] exp_text_hd [OF p(4)] by blast
    then show ?thesis using digits_hd [OF p(2)] digits_hd [OF f(2)] y y2 f(1) et by (simp add: isnum_list_def)
  qed
qed

subsection \<open>Decimal conversion\<close>

lemma dec_step: "foldl (\<lambda>v c. v * 10 + (uint c - 48)) v ds = v * 10 ^ length ds + dec_value ds"
  unfolding dec_value_def
proof (induction ds arbitrary: v)
  case (Cons c ds)
  show ?case using Cons [of "v * 10 + (uint c - 48)"] Cons [of "0 * 10 + (uint c - 48)"]
    by (simp add: algebra_simps)
qed simp

lemma dec_value_Nil [simp]: "dec_value [] = 0"
  by (simp add: dec_value_def)

lemma dec_value_Cons: "dec_value (c # ds) = (uint c - 48) * 10 ^ length ds + dec_value ds"
  using dec_step [of "uint c - 48" ds] by (simp add: dec_value_def)

lemma isdigit_uint: "isdigit c \<longleftrightarrow> 48 \<le> uint c \<and> uint c \<le> 57"
  by (simp add: isdigit_def word_le_def)

lemma dec_value_bounds: "list_all isdigit ds \<Longrightarrow> 0 \<le> dec_value ds \<and> dec_value ds < 10 ^ length ds"
proof (induction ds)
  case (Cons c ds)
  then have c: "0 \<le> uint c - 48" "uint c - 48 \<le> 9" and d: "0 \<le> dec_value ds" "dec_value ds < 10 ^ length ds"
    by (auto simp: isdigit_uint)
  have "(uint c - 48) * 10 ^ length ds \<le> 9 * 10 ^ length ds" using c by (intro mult_right_mono) auto
  moreover have "0 \<le> (uint c - 48) * 10 ^ length ds" using c by simp
  ultimately show ?case using d unfolding dec_value_Cons by (simp only: length_Cons power_Suc) linarith
qed simp

lemma atoi64_loop_digit:
  "atoi64_loop z i v = (if isdigit (cat z i) then atoi64_loop z (Suc i) (v * 10 + ucast (cat z i) - 48) else (i, v))"
  by (subst atoi64_loop.simps) (simp add: isdigit_def)

lemma count_digits_digit: "count_digits z i = (if isdigit (cat z i) then count_digits z (Suc i) else i)"
  by (subst count_digits.simps) (simp add: isdigit_def)

lemma atoi64_loop_eq:
  "atoi64_loop z i (of_int w) =
     (i + length (takeWhile isdigit (drop i z)),
      of_int (foldl (\<lambda>v c. v * 10 + (uint c - 48)) w (takeWhile isdigit (drop i z))))"
proof (induction z i "of_int w :: i64" arbitrary: w rule: atoi64_loop.induct)
  case (1 z i)
  show ?case
  proof (cases "isdigit (cat z i)")
    case True
    then obtain c r where r: "drop i z = c # r" "isdigit c" "cat z i = c"
      using cat_cong_drop [of z i] by (cases "drop i z") auto
    have step: "(of_int w :: i64) * 10 + ucast (cat z i) - 48 = of_int (w * 10 + (uint c - 48))"
      by (simp add: r(3))
    have t: "drop (Suc i) z = r" by (simp add: drop_Suc_tl r(1))
    have "atoi64_loop z i (of_int w) = atoi64_loop z (Suc i) (of_int (w * 10 + (uint c - 48)))"
      by (subst atoi64_loop_digit) (simp only: True if_True step)
    also have "\<dots> = (Suc i + length (takeWhile isdigit r),
      of_int (foldl (\<lambda>v c. v * 10 + (uint c - 48)) (w * 10 + (uint c - 48)) (takeWhile isdigit r)))"
      using 1(1) [OF True [unfolded isdigit_def] step] by (simp only: t)
    finally show ?thesis using r by simp
  next
    case False
    then have "takeWhile isdigit (drop i z) = []" using cat_cong_drop [of z i] by (cases "drop i z") auto
    moreover have "atoi64_loop z i (of_int w) = (i, of_int w)"
      using False by (subst atoi64_loop_digit) simp
    ultimately show ?thesis by simp
  qed
qed

lemma atoi64_loop_0: "atoi64_loop z 0 0 = (length (takeWhile isdigit z), of_int (dec_value (takeWhile isdigit z)))"
  using atoi64_loop_eq [of z 0 0] by (simp add: dec_value_def)

lemma count_digits_eq: "count_digits z i = i + length (takeWhile isdigit (drop i z))"
proof (induction z i rule: count_digits.induct)
  case (1 z i)
  show ?case
  proof (cases "isdigit (cat z i)")
    case True
    then obtain c r where r: "drop i z = c # r" "isdigit c" using cat_cong_drop [of z i] by (cases "drop i z") auto
    then show ?thesis using 1 True by (simp add: count_digits_digit [of z i] isdigit_def [symmetric] drop_Suc_tl)
  next
    case False
    then have "takeWhile isdigit (drop i z) = []" using cat_cong_drop [of z i] by (cases "drop i z") auto
    then show ?thesis using False by (simp add: count_digits_digit [of z i])
  qed
qed

text \<open>Comparing digit strings of the same length compares their values.\<close>

lemma memcmp_digits:
  "length a = n \<Longrightarrow> length b = n \<Longrightarrow> list_all isdigit a \<Longrightarrow> list_all isdigit b \<Longrightarrow>
   memcmp (a @ r) b n \<le> 0 \<longleftrightarrow> dec_value a \<le> dec_value b"
proof (induction n arbitrary: a b)
  case (Suc n)
  then obtain x a' y b' where ab: "a = x # a'" "b = y # b'" by (metis length_Suc_conv)
  have bd: "0 \<le> dec_value a'" "dec_value a' < 10 ^ n" "0 \<le> dec_value b'" "dec_value b' < 10 ^ n"
    using dec_value_bounds [of a'] dec_value_bounds [of b'] Suc.prems ab by auto
  show ?case
  proof (cases "x = y")
    case True
    then show ?thesis using Suc ab by (simp add: dec_value_Cons)
  next
    case False
    have "(uint x - 48) * 10 ^ n + dec_value a' \<le> (uint y - 48) * 10 ^ n + dec_value b' \<longleftrightarrow> uint x - uint y \<le> 0"
    proof (cases "uint x < uint y")
      case True
      then have "(uint x - 48 + 1) * 10 ^ n \<le> (uint y - 48) * 10 ^ n" by (intro mult_right_mono) auto
      then show ?thesis using True bd by (simp add: algebra_simps)
    next
      case False
      then have "uint y < uint x" using \<open>x \<noteq> y\<close> by (metis linorder_neqE_linordered_idom uint_same)
      then have "(uint y - 48 + 1) * 10 ^ n \<le> (uint x - 48) * 10 ^ n" by (intro mult_right_mono) auto
      then show ?thesis using \<open>uint y < uint x\<close> bd by (simp add: algebra_simps)
    qed
    then show ?thesis using False Suc.prems ab by (simp add: dec_value_Cons cdiff_def)
  qed
qed simp

lemma max_texts:
  "dec_value max_i64_text = 2 ^ 63 - 1" "length max_i64_text = 19" "list_all isdigit max_i64_text"
  "dec_value max_i32_text = 2 ^ 31 - 1" "length max_i32_text = 10" "list_all isdigit max_i32_text"
  by (simp_all add: max_i64_text_def max_i32_text_def dec_value_def isdigit_def)

lemma in_range_test:
  assumes d: "list_all isdigit ds" and m: "dec_value m = M" "length m = n" "list_all isdigit m" and M: "10 ^ (n - 1) \<le> M + 1"
    and n: "0 < n"
  shows "(length ds < n \<or> length ds = n \<and> memcmp (ds @ r) m n \<le> 0) \<longleftrightarrow> length ds \<le> n \<and> dec_value ds \<le> M"
proof (cases "length ds < n")
  case True
  have "dec_value ds < 10 ^ length ds" using dec_value_bounds [OF d] by simp
  also have "(10 :: int) ^ length ds \<le> 10 ^ (n - 1)" using True by (intro power_increasing) auto
  finally show ?thesis using True M by simp
next
  case False
  then show ?thesis using memcmp_digits [of ds n m r] assms by auto
qed

text \<open>Any text is a sign, digits and a rest that does not begin with a digit.\<close>

lemma strip_sign_eq: "(if cat z 0 = 45 \<or> cat z 0 = 43 then tl z else z) = strip_sign z"
  by (simp add: strip_sign_def)

lemma takeWhile_digits: "list_all isdigit ds \<Longrightarrow> \<not> isdigit (cat r 0) \<Longrightarrow> takeWhile isdigit (ds @ r) = ds"
  by (cases r) (auto simp: list_all_iff takeWhile_append2)

definition signed_value :: "bytes \<Rightarrow> bytes \<Rightarrow> int" where
  "signed_value s ds = (if s = [45] then - dec_value ds else dec_value ds)"

lemma sgn_strip:
  assumes "sgn_text s" "\<not> isdigit (cat r 0)" "list_all isdigit ds" "s = [] \<longrightarrow> ds = [] \<longrightarrow> cat r 0 \<noteq> 45 \<and> cat r 0 \<noteq> 43"
  shows "strip_sign (s @ ds @ r) = ds @ r" "cat (s @ ds @ r) 0 = 45 \<longleftrightarrow> s = [45]"
  using assms by (cases ds; auto simp: sgn_text_def strip_sign_def isdigit_def)+

lemma sint_of_int64: "- (2 ^ 63) \<le> v \<Longrightarrow> v < 2 ^ 63 \<Longrightarrow> sint (of_int v :: i64) = v"
  by (simp add: signed_of_int signed_take_bit_int_eq_self)


subsection \<open>Hexadecimal digits\<close>

definition hex_digit :: "u8 \<Rightarrow> u8" where
  "hex_digit n = (if n < 10 then n + 48 else n + 87)"

definition hex_text :: "bytes \<Rightarrow> bytes" where
  "hex_text b = concat (map (\<lambda>c. [hex_digit (shr c 4), hex_digit (c AND 15)]) b)"

lemma hexToInt_digit:
  assumes "n < 16"
  shows "hexToInt (hex_digit n) = Some (uint n)"
proof -
  have n: "uint n < 16" using assms by (simp add: word_less_def)
  have "uint (n + 48) = uint n + 48" "uint (n + 87) = uint n + 87"
    using n uint_add_lem [of n 48] uint_add_lem [of n 87] by auto
  then show ?thesis using n by (auto simp: hexToInt_def hex_digit_def word_le_def word_less_def)
qed

lemma hex_pair_value: "of_int (or (uint (shr c 4) * 16) (uint (c AND 15))) = (c :: u8)"
proof (rule bit_word_eqI)
  fix n assume "n < LENGTH(8)"
  have 15: "(15 :: u8) = mask 4" by (simp add: mask_numeral)
  have 16: "uint (shr c 4) * 16 = push_bit 4 (uint (shr c 4))" by (simp add: push_bit_eq_mult)
  show "bit (of_int (or (uint (shr c 4) * 16) (uint (c AND 15))) :: u8) n = bit c n"
    unfolding 15 16 using \<open>n < LENGTH(8)\<close> by (auto simp: bit_simps)
qed

lemma hex_pairs_text: "hex_pairs (hex_text b) = Some b"
proof (induction b)
  case (Cons c b)
  have "shr c 4 < 16" by (simp add: word_less_nat_alt word_arith) (use u8_less [of c] in linarith)
  moreover have "c AND 15 < 16"
    using and_mask_less' [of 4 c] by (simp add: mask_numeral)
  ultimately show ?case
    using Cons by (simp add: hex_text_def hexToInt_digit hex_pair_value)
qed (simp add: hex_text_def)

lemma even_hex: "even (length (hex_text b))"
  by (induction b) (auto simp: hex_text_def)

lemma digit_not_space: "isdigit c \<Longrightarrow> \<not> isspace c"
  by (auto simp: isdigit_def isspace_def word_le_def)

subsection \<open>Dequoting\<close>

definition str_of :: "bytes \<Rightarrow> bytes" where
  "str_of z = takeWhile (\<lambda>c. c \<noteq> 0) z"

definition escape :: "u8 \<Rightarrow> bytes \<Rightarrow> bytes" where
  "escape q s = concat (map (\<lambda>c. if c = q then [q, q] else [c]) s)"

lemma str_of_end: "nul_free (take j z) \<Longrightarrow> j < length z \<Longrightarrow> str_of (z[j := 0]) = take j z"
proof -
  assume nf: "nul_free (take j z)" and j: "j < length z"
  have "z[j := 0] = take j z @ 0 # drop (Suc j) z" using j by (simp add: upd_conv_take_nth_drop)
  then show ?thesis using nf by (simp add: str_of_def nul_free_def takeWhile_append)
qed

lemma dequote_loop_escape:
  "drop i z = escape q s @ q # r \<Longrightarrow> cat r 0 \<noteq> q \<Longrightarrow> j < i \<Longrightarrow> q \<noteq> 0 \<Longrightarrow> nul_free s \<Longrightarrow> nul_free (take j z) \<Longrightarrow>
   str_of (dequote_loop q i j z) = take j z @ s"
proof (induction s arbitrary: i j z)
  case Nil
  then have c: "cat z i = q" "cat z (Suc i) \<noteq> q"
    using cat_cong_drop [of z i] cat_cong_drop [of z "Suc i"] by (auto simp: escape_def drop_Suc_tl)
  have "i < length z" using Nil.prems(1) by (metis append_is_Nil_conv drop_all list.discI not_le)
  then show ?case using c Nil by (simp add: dequote_loop.simps [of q i j z] str_of_end)
next
  case (Cons c s)
  have il: "i < length z" using Cons.prems(1) by (metis append_is_Nil_conv drop_all list.discI not_le)
  then have jl: "j < length z" using Cons.prems by simp
  have upd: "take (Suc j) (z[j := c]) = take j z @ [c]" using jl by (simp add: take_Suc_conv_app_nth)
  have nf: "nul_free (take (Suc j) (z[j := c]))" using upd Cons.prems by simp
  show ?case
  proof (cases "c = q")
    case True
    then have d: "drop i z = q # q # escape q s @ q # r" using Cons.prems(1) by (simp add: escape_def)
    have "cat z i = q" "cat z (Suc i) = q"
      using d cat_cong_drop [of z i] cat_cong_drop [of z "Suc i"] by (auto simp: drop_Suc_tl)
    then have "dequote_loop q i j z = dequote_loop q (i + 2) (Suc j) (z[j := c])"
      using Cons.prems True by (simp add: dequote_loop.simps [of q i j z])
    moreover have "drop (i + 2) (z[j := c]) = escape q s @ q # r"
      using d Cons.prems(3) by (simp add: drop_Suc_tl)
    ultimately show ?thesis using Cons.IH [of "i + 2" "z[j := c]" "Suc j"] Cons.prems nf upd by simp
  next
    case False
    then have d: "drop i z = c # escape q s @ q # r" using Cons.prems(1) by (simp add: escape_def)
    have "cat z i = c" using d cat_cong_drop [of z i] by auto
    then have "dequote_loop q i j z = dequote_loop q (Suc i) (Suc j) (z[j := c])"
      using Cons.prems False by (simp add: dequote_loop.simps [of q i j z])
    moreover have "drop (Suc i) (z[j := c]) = escape q s @ q # r"
      using d Cons.prems(3) by (simp add: drop_Suc_tl)
    ultimately show ?thesis using Cons.IH [of "Suc i" "z[j := c]" "Suc j"] Cons.prems nf upd by simp
  qed
qed

subsection \<open>Properties\<close>

text \<open>
  \<bold>\<open>C14\<close> \<^verbatim>\<open>sqlite3StrICmp\<close> and \<^verbatim>\<open>sqlite3StrNICmp\<close> order strings by their case-folded bytes:
  the result is that of comparing the folded strings (their first \<open>n\<close> bytes), so it is zero
  exactly for strings equal but for case, changes sign when the arguments are swapped, and is
  transitive.
\<close>

theorem stricmp_folds_case:
  assumes "nul_free a" "nul_free b" "nul_free c"
  shows "sqlite3StrICmp a b = lexdiff (map UpperToLower a) (map UpperToLower b) \<and>
    sqlite3StrNICmp a b n = lexdiff (map UpperToLower (take (nat n) a)) (map UpperToLower (take (nat n) b)) \<and>
    (sqlite3StrICmp a b = 0 \<longleftrightarrow> map UpperToLower a = map UpperToLower b) \<and>
    sqlite3StrICmp b a = - sqlite3StrICmp a b \<and>
    (sqlite3StrICmp a b \<le> 0 \<longrightarrow> sqlite3StrICmp b c \<le> 0 \<longrightarrow> sqlite3StrICmp a c \<le> 0)"
  using assms lexdiff_trans [of "map UpperToLower a" "map UpperToLower b" "map UpperToLower c"]
    lexdiff_neg [of "map UpperToLower b" "map UpperToLower a"]
  by (simp add: sqlite3StrICmp_def sqlite3StrNICmp_def StrICmp_at_eq StrNICmp_at_eq)

theorem stricmp_folds_case_witness:
  "sqlite3StrICmp [65, 98] [97, 66] = 0 \<longleftrightarrow> map UpperToLower [65, 98] = map UpperToLower [97, 66]"
  using stricmp_folds_case [of "[65, 98]" "[97, 66]" "[]" 0] by simp





text \<open>
  \<^verbatim>\<open>sqlite3GetInt32\<close> on a sign, digits and any further text: it succeeds exactly for at most
  ten digits of a value up to \<open>2 ^ 31 - 1\<close>, and returns the value, so the conversion by
  \<^verbatim>\<open>atoi\<close> never overflows.
\<close>

lemma getint32_exact:
  assumes "sgn_text s" "digits ds" "\<not> isdigit (cat r 0)"
  shows "sqlite3GetInt32 (s @ ds @ r) =
    (if length ds \<le> 10 \<and> dec_value ds \<le> 2 ^ 31 - 1 then Some (signed_value s ds) else None)"
proof -
  have d: "list_all isdigit ds" "ds \<noteq> []" using assms by (auto simp: digits_def)
  have st: "strip_sign (s @ ds @ r) = ds @ r" and neg: "cat (s @ ds @ r) 0 = 45 \<longleftrightarrow> s = [45]"
    using sgn_strip [OF assms(1,3), of ds] d by auto
  have tw: "takeWhile isdigit (ds @ r) = ds" using takeWhile_digits [OF d(1) assms(3)] .
  have sp: "dropWhile isspace (s @ ds @ r) = s @ ds @ r"
    using assms(1) d digit_not_space by (cases ds) (auto simp: sgn_text_def isspace_def)
  have "sqlite3FitsIn32Bits (s @ ds @ r) \<longleftrightarrow> length ds < 10 \<or> length ds = 10 \<and> memcmp (ds @ r) max_i32_text 10 \<le> 0"
    unfolding sqlite3FitsIn32Bits_def Let_def strip_sign_eq
    unfolding st count_digits_eq by (simp add: tw)
  also have "\<dots> \<longleftrightarrow> length ds \<le> 10 \<and> dec_value ds \<le> 2 ^ 31 - 1"
    using in_range_test [OF d(1) max_texts(4-6), of r] by simp
  finally have fits: "sqlite3FitsIn32Bits (s @ ds @ r) \<longleftrightarrow> length ds \<le> 10 \<and> dec_value ds \<le> 2 ^ 31 - 1" .
  have "atoi (s @ ds @ r) = signed_value s ds"
    unfolding atoi_def Let_def sp strip_sign_eq
    unfolding st tw neg by (simp add: signed_value_def)
  then show ?thesis by (simp add: sqlite3GetInt32_def fits)
qed

text \<open>
  Decoding the hexadecimal text of any bytes returns them, when memory is available.
\<close>

lemma hex_roundtrip: "sqlite3HexToBlob True (hex_text b) = Some (Some b)"
proof -
  note even_hex [of b]
  moreover have "hex_text b = [] \<longleftrightarrow> b = []" by (cases b) (auto simp: hex_text_def)
  ultimately show ?thesis using hex_pairs_text [of b] by (simp add: sqlite3HexToBlob_def)
qed

text \<open>
  Out of memory is not handled: if \<^verbatim>\<open>sqliteMalloc\<close> returns a null pointer, decoding a
  nonempty text of even length writes through it.
\<close>

lemma hex_oom_writes_null: "sqlite3HexToBlob False (hex_text (c # b)) = None"
proof -
  have "even (length (hex_text (c # b)))" by (rule even_hex)
  then show ?thesis by (simp add: sqlite3HexToBlob_def hex_text_def)
qed

text \<open>
  Dequoting is the inverse of quoting: a string whose quotes are doubled and that is
  enclosed in single, double or grave quotes comes back, whatever follows the closing quote.
\<close>

lemma dequote_roundtrip:
  assumes "q = 39 \<or> q = 34 \<or> q = 96" "nul_free s" "cat r 0 \<noteq> q"
  shows "str_of (sqlite3Dequote (q # escape q s @ q # r)) = s"
proof -
  have "q \<noteq> 0" using assms by auto
  have "str_of (dequote_loop q 1 0 (q # escape q s @ q # r)) = take 0 (q # escape q s @ q # r) @ s"
    by (rule dequote_loop_escape [OF _ assms(3)]) (use assms \<open>q \<noteq> 0\<close> in auto)
  then show ?thesis using assms(1) by (auto simp: sqlite3Dequote_def)
qed

end
