(* ===== verification/Hash.thy ===== *)
theory Hash
  imports Str "HOL-Library.Monad_Syntax"
begin

text \<open>
  The hash table of \<^verbatim>\<open>hash.c\<close>: all elements are on one doubly linked list, the elements of a
  bucket are neighbours there, and a bucket holds a pointer to its first element and their
  number.

  Elements live in a heap, a map from addresses to records; following a pointer that is not
  mapped and a failed \<^verbatim>\<open>assert\<close> are the result \<open>None\<close>. The results of \<^verbatim>\<open>sqliteMalloc\<close>
  are arguments. The memory behind a key pointer is its bytes, read with \<open>cat\<close>; it does not
  change while the key is in the table, which the callers have to ensure when \<^verbatim>\<open>copyKey\<close> is 0.
\<close>

unbundle bit_operations_syntax

subsection \<open>The data\<close>

type_synonym ptr = nat

record HashElem =
  hnext :: "addr option"
  hprev :: "addr option"
  hdata :: ptr
  hpKey :: bytes
  hnKey :: int

record ht_entry =
  hcount :: int
  hchain :: "addr option"

record Hash =
  keyClass :: int
  copyKey :: bool
  hnum :: int
  hfirst :: "addr option"
  htsize :: int
  ht :: "ht_entry list option"

type_synonym heap = "addr \<Rightarrow> HashElem option"

abbreviation SQLITE_HASH_STRING :: int where "SQLITE_HASH_STRING \<equiv> 3"
abbreviation SQLITE_HASH_BINARY :: int where "SQLITE_HASH_BINARY \<equiv> 4"

definition sqlite3HashInit :: "int \<Rightarrow> bool \<Rightarrow> Hash option" where
  "sqlite3HashInit kc ck =
     (if \<not> (kc \<ge> SQLITE_HASH_STRING \<and> kc \<le> SQLITE_HASH_BINARY) then None
      else Some \<lparr>keyClass = kc, copyKey = ck, hnum = 0, hfirst = None, htsize = 0, ht = None\<rparr>)"

subsection \<open>Hash and comparison functions\<close>

fun strHash_loop :: "bytes \<Rightarrow> nat \<Rightarrow> nat \<Rightarrow> u32 \<Rightarrow> u32" where
  "strHash_loop z i 0 h = h"
| "strHash_loop z i (Suc n) h =
     strHash_loop z (Suc i) n (shl h 3 XOR h XOR ucast (UpperToLower (cat z i)))"

definition strHash :: "bytes \<Rightarrow> int \<Rightarrow> int" where
  "strHash z n =
     (let n' = (if n \<le> 0 then length (str_of z) else nat n)
      in uint (strHash_loop z 0 n' 0 AND 0x7fffffff))"

definition strCompare :: "bytes \<Rightarrow> int \<Rightarrow> bytes \<Rightarrow> int \<Rightarrow> int" where
  "strCompare k1 n1 k2 n2 = (if n1 \<noteq> n2 then 1 else sqlite3StrNICmp (str_of k1) (str_of k2) n1)"

text \<open>The key byte is a signed \<^verbatim>\<open>char\<close> here.\<close>

fun binHash_loop :: "bytes \<Rightarrow> nat \<Rightarrow> nat \<Rightarrow> u32 \<Rightarrow> u32" where
  "binHash_loop z i 0 h = h"
| "binHash_loop z i (Suc n) h = binHash_loop z (Suc i) n (shl h 3 XOR h XOR scast (cat z i))"

definition binHash :: "bytes \<Rightarrow> int \<Rightarrow> int" where
  "binHash z n = uint (binHash_loop z 0 (nat n) 0 AND 0x7fffffff)"

definition binCompare :: "bytes \<Rightarrow> int \<Rightarrow> bytes \<Rightarrow> int \<Rightarrow> int" where
  "binCompare k1 n1 k2 n2 = (if n1 \<noteq> n2 then 1 else memcmp k1 k2 (nat n1))"

definition hashFunction :: "int \<Rightarrow> (bytes \<Rightarrow> int \<Rightarrow> int) option" where
  "hashFunction kc =
     (if kc = SQLITE_HASH_STRING then Some strHash
      else if kc = SQLITE_HASH_BINARY then Some binHash else None)"

definition compareFunction :: "int \<Rightarrow> (bytes \<Rightarrow> int \<Rightarrow> bytes \<Rightarrow> int \<Rightarrow> int) option" where
  "compareFunction kc =
     (if kc = SQLITE_HASH_STRING then Some strCompare
      else if kc = SQLITE_HASH_BINARY then Some binCompare else None)"

subsection \<open>The operations\<close>

text \<open>Writing through a pointer.\<close>

definition set_next :: "addr \<Rightarrow> addr option \<Rightarrow> heap \<Rightarrow> heap option" where
  "set_next a v hp = do { E \<leftarrow> hp a; Some (hp(a \<mapsto> E\<lparr>hnext := v\<rparr>)) }"

definition set_prev :: "addr \<Rightarrow> addr option \<Rightarrow> heap \<Rightarrow> heap option" where
  "set_prev a v hp = do { E \<leftarrow> hp a; Some (hp(a \<mapsto> E\<lparr>hprev := v\<rparr>)) }"

definition insertElement :: "nat \<Rightarrow> addr \<Rightarrow> heap \<times> Hash \<Rightarrow> (heap \<times> Hash) option" where
  "insertElement b new s =
     (let (hp, H) = s in
      case ht H of None \<Rightarrow> None | Some t \<Rightarrow>
      if length t \<le> b then None else
      do {
        (hp, H) \<leftarrow>
          (case hchain (t ! b) of
             Some head \<Rightarrow> do {
               hp \<leftarrow> set_next new (Some head) hp;
               E \<leftarrow> hp head;
               hp \<leftarrow> set_prev new (hprev E) hp;
               (hp, H) \<leftarrow>
                 (case hprev E of
                    Some p \<Rightarrow> do { hp \<leftarrow> set_next p (Some new) hp; Some (hp, H) }
                  | None \<Rightarrow> Some (hp, H\<lparr>hfirst := Some new\<rparr>));
               hp \<leftarrow> set_prev head (Some new) hp;
               Some (hp, H) }
           | None \<Rightarrow> do {
               hp \<leftarrow> set_next new (hfirst H) hp;
               hp \<leftarrow> (case hfirst H of Some f \<Rightarrow> set_prev f (Some new) hp | None \<Rightarrow> Some hp);
               hp \<leftarrow> set_prev new None hp;
               Some (hp, H\<lparr>hfirst := Some new\<rparr>) });
        Some (hp, H\<lparr>ht := Some (t[b := \<lparr>hcount = hcount (t ! b) + 1, hchain = Some new\<rparr>])\<rparr>) })"

text \<open>The bucket of a raw hash value.\<close>

definition bucket :: "int \<Rightarrow> int \<Rightarrow> nat" where
  "bucket h sz = nat (h AND (sz - 1))"

partial_function (option) rehash_loop ::
  "(bytes \<Rightarrow> int \<Rightarrow> int) \<Rightarrow> int \<Rightarrow> addr option \<Rightarrow> heap \<times> Hash \<Rightarrow> (heap \<times> Hash) option" where
  "rehash_loop xHash sz elem s =
     (case elem of
        None \<Rightarrow> Some s
      | Some a \<Rightarrow> do {
          E \<leftarrow> fst s a;
          s' \<leftarrow> insertElement (bucket (xHash (hpKey E) (hnKey E)) sz) a s;
          rehash_loop xHash sz (hnext E) s' })"

definition rehash :: "bool \<Rightarrow> int \<Rightarrow> heap \<times> Hash \<Rightarrow> (heap \<times> Hash) option" where
  "rehash room sz s =
     (let (hp, H) = s in
      if (sz AND (sz - 1)) \<noteq> 0 then None
      else if \<not> room then Some s
      else do {
        xHash \<leftarrow> hashFunction (keyClass H);
        rehash_loop xHash sz (hfirst H)
          (hp, H\<lparr>ht := Some (replicate (nat sz) \<lparr>hcount = 0, hchain = None\<rparr>), htsize := sz, hfirst := None\<rparr>) })"

partial_function (option) find_loop ::
  "heap \<Rightarrow> (bytes \<Rightarrow> int \<Rightarrow> bytes \<Rightarrow> int \<Rightarrow> int) \<Rightarrow> bytes \<Rightarrow> int \<Rightarrow> int \<Rightarrow> addr option \<Rightarrow> addr option option" where
  "find_loop hp xCompare k n cnt elem =
     (if cnt = 0 then Some None
      else case elem of
        None \<Rightarrow> Some None
      | Some a \<Rightarrow> do {
          E \<leftarrow> hp a;
          if xCompare (hpKey E) (hnKey E) k n = 0 then Some (Some a)
          else find_loop hp xCompare k n (cnt - 1) (hnext E) })"

definition findElementGivenHash :: "bytes \<Rightarrow> int \<Rightarrow> nat \<Rightarrow> heap \<times> Hash \<Rightarrow> addr option option" where
  "findElementGivenHash k n h s =
     (let (hp, H) = s in
      case ht H of
        None \<Rightarrow> Some None
      | Some t \<Rightarrow>
          if length t \<le> h then None
          else do {
            xCompare \<leftarrow> compareFunction (keyClass H);
            find_loop hp xCompare k n (hcount (t ! h)) (hchain (t ! h)) })"

partial_function (option) free_elems :: "addr option \<Rightarrow> heap \<Rightarrow> heap option" where
  "free_elems elem hp =
     (case elem of
        None \<Rightarrow> Some hp
      | Some a \<Rightarrow> do { E \<leftarrow> hp a; free_elems (hnext E) (hp(a := None)) })"

definition sqlite3HashClear :: "heap \<times> Hash \<Rightarrow> (heap \<times> Hash) option" where
  "sqlite3HashClear s =
     (let (hp, H) = s in do {
        hp' \<leftarrow> free_elems (hfirst H) hp;
        Some (hp', H\<lparr>hfirst := None, ht := None, htsize := 0, hnum := 0\<rparr>) })"

definition removeElementGivenHash :: "addr \<Rightarrow> nat \<Rightarrow> heap \<times> Hash \<Rightarrow> (heap \<times> Hash) option" where
  "removeElementGivenHash a h s =
     (let (hp, H) = s in do {
        E \<leftarrow> hp a;
        (hp, H) \<leftarrow>
          (case hprev E of
             Some p \<Rightarrow> do { hp \<leftarrow> set_next p (hnext E) hp; Some (hp, H) }
           | None \<Rightarrow> Some (hp, H\<lparr>hfirst := hnext E\<rparr>));
        hp \<leftarrow> (case hnext E of Some q \<Rightarrow> set_prev q (hprev E) hp | None \<Rightarrow> Some hp);
        t \<leftarrow> ht H;
        (if length t \<le> h then None else do {
          let B = t ! h;
          let B = (if hchain B = Some a then B\<lparr>hchain := hnext E\<rparr> else B);
          let B = B\<lparr>hcount := hcount B - 1\<rparr>;
          let B = (if hcount B \<le> 0 then B\<lparr>hchain := None\<rparr> else B);
          let H = H\<lparr>ht := Some (t[h := B]), hnum := hnum H - 1\<rparr>;
          let hp = hp(a := None);
          if hnum H \<le> 0 then
            (if \<not> (hfirst H = None \<and> hnum H = 0) then None else sqlite3HashClear (hp, H))
          else Some (hp, H) }) })"

definition sqlite3HashFind :: "bytes \<Rightarrow> int \<Rightarrow> heap \<times> Hash \<Rightarrow> ptr option option" where
  "sqlite3HashFind k n s =
     (let (hp, H) = s in
      if ht H = None then Some None
      else do {
        xHash \<leftarrow> hashFunction (keyClass H);
        (if (htsize H AND (htsize H - 1)) \<noteq> 0 then None else do {
          e \<leftarrow> findElementGivenHash k n (bucket (xHash k n) (htsize H)) s;
          (case e of None \<Rightarrow> Some None | Some a \<Rightarrow> do { E \<leftarrow> hp a; Some (Some (hdata E)) }) }) })"

text \<open>
  Which allocations succeed: the element (at an unused address), the copy of the key, and the
  bucket arrays of the one or two calls of \<^verbatim>\<open>rehash\<close>.
\<close>

record hash_env =
  elem_mem :: "addr option"
  key_mem :: bool
  ht_mem :: bool
  ht_mem2 :: bool

definition copy_key :: "bytes \<Rightarrow> int \<Rightarrow> bytes" where
  "copy_key k n = map (cat k) [0..<nat n]"

text \<open>The part of \<^verbatim>\<open>sqlite3HashInsert\<close> that links in a new element at address \<open>a\<close>.\<close>

definition hash_add :: "hash_env \<Rightarrow> addr \<Rightarrow> bytes \<Rightarrow> int \<Rightarrow> int \<Rightarrow> ptr \<Rightarrow> heap \<times> Hash \<Rightarrow> (ptr option \<times> heap \<times> Hash) option" where
  "hash_add e a k n hraw d s =
     (let (hp, H) = s;
          key = (if copyKey H then copy_key k n else k);
          hp = hp(a \<mapsto> \<lparr>hnext = None, hprev = None, hdata = d, hpKey = key, hnKey = n\<rparr>);
          H = H\<lparr>hnum := hnum H + 1\<rparr>
      in do {
        (hp, H) \<leftarrow> (if htsize H = 0 then rehash (ht_mem e) 8 (hp, H) else Some (hp, H));
        if htsize H = 0 then Some (Some d, hp(a := None), H\<lparr>hnum := 0\<rparr>)
        else do {
          (hp, H) \<leftarrow> (if hnum H > htsize H then rehash (ht_mem2 e) (htsize H * 2) (hp, H) else Some (hp, H));
          (if \<not> htsize H > 0 \<or> (htsize H AND (htsize H - 1)) \<noteq> 0 then None else do {
            s' \<leftarrow> insertElement (bucket hraw (htsize H)) a (hp, H);
            Some (None, s') }) } })"

definition sqlite3HashInsert ::
  "hash_env \<Rightarrow> bytes \<Rightarrow> int \<Rightarrow> ptr option \<Rightarrow> heap \<times> Hash \<Rightarrow> (ptr option \<times> heap \<times> Hash) option" where
  "sqlite3HashInsert e k n data s =
     (let (hp, H) = s in do {
        xHash \<leftarrow> hashFunction (keyClass H);
        (if (htsize H AND (htsize H - 1)) \<noteq> 0 then None else do {
          let h = bucket (xHash k n) (htsize H);
          elem \<leftarrow> findElementGivenHash k n h s;
          (case elem of
             Some a \<Rightarrow> do {
               E \<leftarrow> hp a;
               (case data of
                  None \<Rightarrow> do { s' \<leftarrow> removeElementGivenHash a h s; Some (Some (hdata E), s') }
                | Some d \<Rightarrow> Some (Some (hdata E), hp(a \<mapsto> E\<lparr>hdata := d\<rparr>), H)) }
           | None \<Rightarrow>
               (case data of
                  None \<Rightarrow> Some (None, s)
                | Some d \<Rightarrow>
                    (case elem_mem e of
                       None \<Rightarrow> Some (Some d, s)
                     | Some a \<Rightarrow>
                         if copyKey H \<and> \<not> key_mem e then Some (Some d, s)
                         else hash_add e a k n (xHash k n) d s))) }) })"

end
