(* ===== verification/HashMap.thy ===== *)
theory HashMap
  imports Hash
begin

text \<open>
  The proofs about \<^verbatim>\<open>hash.c\<close>: the list of all elements and the buckets stay linked
  through every operation, and the table refines a finite map. The locale \<open>key_class\<close> is
  the contract between the table and a class of keys; it is interpreted for string keys and
  for binary keys with the hash and comparison functions of the code.
\<close>

subsection \<open>Doubly linked lists\<close>

definition fst_of :: "addr list \<Rightarrow> addr option \<Rightarrow> addr option" where
  "fst_of as n = (case as of [] \<Rightarrow> n | a # _ \<Rightarrow> Some a)"

definition last_of :: "addr option \<Rightarrow> addr list \<Rightarrow> addr option" where
  "last_of p as = (if as = [] then p else Some (last as))"

lemma fst_of_simps [simp]: "fst_of [] n = n" "fst_of (a # as) n = Some a"
  "fst_of (xs @ ys) n = fst_of xs (fst_of ys n)"
  by (auto simp: fst_of_def split: list.split)

lemma last_of_simps [simp]: "last_of p [] = p" "last_of p (a # as) = last_of (Some a) as"
  "last_of p (xs @ [a]) = Some a"
  by (auto simp: last_of_def)

lemma fst_of_None [simp]: "fst_of as None = None \<longleftrightarrow> as = []"
  by (auto simp: fst_of_def split: list.split)

fun dll :: "heap \<Rightarrow> addr option \<Rightarrow> addr list \<Rightarrow> addr option \<Rightarrow> bool" where
  "dll hp p [] n \<longleftrightarrow> True"
| "dll hp p (a # as) n \<longleftrightarrow>
     (\<exists>E. hp a = Some E \<and> hprev E = p \<and> hnext E = fst_of as n \<and> dll hp (Some a) as n)"

lemma dll_append: "dll hp p (xs @ ys) n \<longleftrightarrow> dll hp p xs (fst_of ys n) \<and> dll hp (last_of p xs) ys n"
  by (induction xs arbitrary: p) auto

lemma dll_frame: "(\<And>a. a \<in> set as \<Longrightarrow> hp' a = hp a) \<Longrightarrow> dll hp' p as n \<longleftrightarrow> dll hp p as n"
  by (induction as arbitrary: p) auto

text \<open>The next pointer of the last element changes.\<close>

lemma dll_relink:
  assumes "dll hp p xs n" "xs \<noteq> []" "distinct xs"
  obtains E where "hp (last xs) = Some E" "dll (hp(last xs \<mapsto> E\<lparr>hnext := n'\<rparr>)) p xs n'"
proof -
  obtain ys x where xs: "xs = ys @ [x]" using assms(2) by (metis rev_exhaust)
  then obtain E where E: "hp x = Some E" "hprev E = last_of p ys" "dll hp p ys (Some x)"
    using assms(1) by (auto simp: dll_append)
  have "dll (hp(x \<mapsto> E\<lparr>hnext := n'\<rparr>)) p ys (Some x)"
    using E(3) assms(3) xs by (subst dll_frame [of _ _ hp]) auto
  then show thesis using that E xs by (simp add: dll_append)
qed

text \<open>The previous pointer of the first element changes.\<close>

lemma dll_repoint:
  assumes "dll hp p (x # xs) n" "distinct (x # xs)"
  obtains E where "hp x = Some E" "hprev E = p" "hnext E = fst_of xs n"
    "\<And>p'. dll (hp(x \<mapsto> E\<lparr>hprev := p'\<rparr>)) p' (x # xs) n"
proof -
  obtain E where E: "hp x = Some E" "hprev E = p" "hnext E = fst_of xs n" "dll hp (Some x) xs n"
    using assms(1) by auto
  have "dll (hp(x \<mapsto> E\<lparr>hprev := p'\<rparr>)) (Some x) xs n" for p'
    using E(4) assms(2) by (subst dll_frame [of _ _ hp]) auto
  then show thesis using that E by simp
qed

subsection \<open>The linked buckets\<close>

text \<open>A table in which the buckets of the list \<open>bl\<close> are on the list one after the other.\<close>

definition members :: "(nat \<times> addr list) list \<Rightarrow> addr list" where
  "members bl = concat (map snd bl)"

definition table_ok :: "ht_entry list \<Rightarrow> (nat \<times> addr list) list \<Rightarrow> bool" where
  "table_ok t bl \<longleftrightarrow>
     distinct (map fst bl) \<and> (\<forall>(b, as) \<in> set bl. as \<noteq> [] \<and> b < length t) \<and>
     (\<forall>b < length t. t ! b =
        (case map_of bl b of None \<Rightarrow> \<lparr>hcount = 0, hchain = None\<rparr>
         | Some as \<Rightarrow> \<lparr>hcount = int (length as), hchain = Some (hd as)\<rparr>))"

definition linked :: "heap \<Rightarrow> Hash \<Rightarrow> (nat \<times> addr list) list \<Rightarrow> bool" where
  "linked hp H bl \<longleftrightarrow>
     distinct (members bl) \<and> dll hp None (members bl) None \<and> hfirst H = fst_of (members bl) None \<and>
     (\<exists>t. ht H = Some t \<and> table_ok t bl)"

text \<open>What a key pointer, its length and the data of an element are; linking does not change them.\<close>

definition payload :: "heap \<Rightarrow> addr \<Rightarrow> (bytes \<times> int \<times> ptr) option" where
  "payload hp a = map_option (\<lambda>E. (hpKey E, hnKey E, hdata E)) (hp a)"

lemma payload_simps [simp]:
  "payload (hp(a \<mapsto> E)) b = (if b = a then Some (hpKey E, hnKey E, hdata E) else payload hp b)"
  "payload (hp(a := None)) b = (if b = a then None else payload hp b)"
  by (auto simp: payload_def)

lemma payload_Some: "hp a = Some E \<Longrightarrow> payload hp a = Some (hpKey E, hnKey E, hdata E)"
  by (simp add: payload_def)

definition ins_bucket :: "nat \<Rightarrow> addr \<Rightarrow> (nat \<times> addr list) list \<Rightarrow> (nat \<times> addr list) list" where
  "ins_bucket b new bl =
     (if map_of bl b = None then (b, [new]) # bl
      else map (\<lambda>(c, as). if c = b then (c, new # as) else (c, as)) bl)"

lemma map_of_ins: "map_of (ins_bucket b new bl) c =
   (if c = b then Some (new # (case map_of bl b of None \<Rightarrow> [] | Some as \<Rightarrow> as)) else map_of bl c)"
proof (cases "map_of bl b")
  case (Some as)
  have "map_of (map (\<lambda>(c, as). if c = b then (c, new # as) else (c, as)) bl) c =
      (if c = b then map_option (Cons new) (map_of bl b) else map_of bl c)"
    by (induction bl) auto
  then show ?thesis using Some by (simp add: ins_bucket_def)
qed (simp add: ins_bucket_def)

lemma fst_ins: "map_of bl b \<noteq> None \<Longrightarrow> map fst (ins_bucket b new bl) = map fst bl"
  by (induction bl) (auto simp: ins_bucket_def split: if_splits)

lemma table_ok_ins:
  assumes t: "table_ok t bl" and b: "b < length t"
  shows "table_ok (t[b := \<lparr>hcount = hcount (t ! b) + 1, hchain = Some new\<rparr>]) (ins_bucket b new bl)"
  unfolding table_ok_def
proof (intro conjI allI impI)
  show "distinct (map fst (ins_bucket b new bl))"
  proof (cases "map_of bl b")
    case None
    then show ?thesis using t by (auto simp: ins_bucket_def table_ok_def map_of_eq_None_iff)
  next
    case Some then show ?thesis using t fst_ins [of bl b new] by (simp add: table_ok_def)
  qed
  show "\<forall>(c, as) \<in> set (ins_bucket b new bl). as \<noteq> [] \<and> c < length (t[b := \<lparr>hcount = hcount (t ! b) + 1, hchain = Some new\<rparr>])"
    using t b by (auto simp: ins_bucket_def table_ok_def split: if_splits)
  fix c assume "c < length (t[b := \<lparr>hcount = hcount (t ! b) + 1, hchain = Some new\<rparr>])"
  then show "t[b := \<lparr>hcount = hcount (t ! b) + 1, hchain = Some new\<rparr>] ! c =
        (case map_of (ins_bucket b new bl) c of None \<Rightarrow> \<lparr>hcount = 0, hchain = None\<rparr>
         | Some as \<Rightarrow> \<lparr>hcount = int (length as), hchain = Some (hd as)\<rparr>)"
    using t b by (auto simp: map_of_ins table_ok_def nth_list_update split: option.splits)
qed

lemma members_ins:
  assumes "table_ok t bl"
  shows "map_of bl b = None \<Longrightarrow> members (ins_bucket b new bl) = new # members bl"
    "map_of bl b = Some (y # ys) \<Longrightarrow> \<exists>l1 l2. members bl = l1 @ y # l2 \<and> members (ins_bucket b new bl) = l1 @ new # y # l2"
proof -
  show "map_of bl b = None \<Longrightarrow> members (ins_bucket b new bl) = new # members bl"
    by (simp add: ins_bucket_def members_def)
  assume m: "map_of bl b = Some (y # ys)"
  have "distinct (map fst bl)" using assms by (simp add: table_ok_def)
  obtain u v where bl: "bl = u @ (b, y # ys) # v" using map_of_SomeD [OF m] by (metis split_list)
  have "map (\<lambda>(c, as). if c = b then (c, new # as) else (c, as)) w = w" if "b \<notin> fst ` set w" for w
    using that by (induction w) auto
  then have "ins_bucket b new bl = u @ (b, new # y # ys) # v"
    using m \<open>distinct (map fst bl)\<close> by (simp add: ins_bucket_def bl)
  then show "\<exists>l1 l2. members bl = l1 @ y # l2 \<and> members (ins_bucket b new bl) = l1 @ new # y # l2"
    using bl by (intro exI [of _ "concat (map snd u)"] exI [of _ "ys @ concat (map snd v)"]) (simp add: members_def)
qed


lemma distinct_members_ins:
  assumes "table_ok t bl" "distinct (members bl)" "new \<notin> set (members bl)"
  shows "distinct (members (ins_bucket b new bl)) \<and> set (members (ins_bucket b new bl)) = insert new (set (members bl))"
proof (cases "map_of bl b")
  case None then show ?thesis using assms members_ins(1) [OF assms(1)] by simp
next
  case (Some as)
  then obtain y ys where as: "as = y # ys"
    using assms(1) map_of_SomeD [OF Some] by (cases as) (auto simp: table_ok_def)
  from members_ins(2) [OF assms(1) Some [unfolded as], of new] obtain l1 l2 where
    "members bl = l1 @ y # l2" "members (ins_bucket b new bl) = l1 @ new # y # l2" by blast
  then show ?thesis using assms(2,3) by auto
qed

text \<open>Linking in an element: it always succeeds, keeps the payloads and changes no other cell.\<close>

lemma insertElement_linked:
  assumes l: "linked hp H bl" and new: "hp new \<noteq> None" "new \<notin> set (members bl)"
    and t: "ht H = Some t" "b < length t"
  obtains hp' H' where "insertElement b new (hp, H) = Some (hp', H')" "linked hp' H' (ins_bucket b new bl)"
    "payload hp' = payload hp" "\<And>a. a \<notin> insert new (set (members bl)) \<Longrightarrow> hp' a = hp a"
    "keyClass H' = keyClass H" "copyKey H' = copyKey H" "hnum H' = hnum H" "htsize H' = htsize H"
    "map_option length (ht H') = Some (length t)"
proof -
  define as where "as = members bl"
  obtain N where N: "hp new = Some N" using new by auto
  have tok: "table_ok t bl" and dist: "distinct as" and chain: "dll hp None as None" and hf: "hfirst H = fst_of as None"
    using l t by (auto simp: linked_def as_def)
  note mem = distinct_members_ins [OF tok dist [unfolded as_def] new(2)]
  have dn: "distinct (new # as)" using dist new(2) by (simp add: as_def)
  define t' where "t' = t[b := \<lparr>hcount = hcount (t ! b) + 1, hchain = Some new\<rparr>]"
  have tok': "table_ok t' (ins_bucket b new bl)" using table_ok_ins [OF tok t(2)] unfolding t'_def .
  show thesis
  proof (cases "map_of bl b")
    case None
    then have ch: "hchain (t ! b) = None" using tok t(2) by (simp add: table_ok_def)
    have mi: "members (ins_bucket b new bl) = new # as" using members_ins(1) [OF tok None] by (simp add: as_def)
    show thesis
    proof (cases as)
      case Nil
      define hp' where "hp' = hp(new \<mapsto> N\<lparr>hnext := None, hprev := None\<rparr>)"
      have ie: "insertElement b new (hp, H) = Some (hp', H\<lparr>hfirst := Some new, ht := Some t'\<rparr>)"
        using t ch N hf Nil by (simp add: insertElement_def set_next_def set_prev_def hp'_def t'_def)
      have lk: "linked hp' (H\<lparr>hfirst := Some new, ht := Some t'\<rparr>) (ins_bucket b new bl)"
        using mi Nil tok' by (simp add: linked_def hp'_def)
      have py: "payload hp' = payload hp" using N by (auto simp: hp'_def payload_Some fun_eq_iff)
      show thesis by (rule that [OF ie lk py]) (auto simp: hp'_def t'_def)
    next
      case (Cons y ys)
      from dll_repoint [OF chain [unfolded Cons] dist [unfolded Cons]] obtain Y where Y: "hp y = Some Y"
        "\<And>p'. dll (hp(y \<mapsto> Y\<lparr>hprev := p'\<rparr>)) p' as None" using Cons by metis
      have ny: "new \<noteq> y" using new(2) Cons by (auto simp: as_def)
      define hp' where "hp' = hp(new \<mapsto> N\<lparr>hnext := Some y, hprev := None\<rparr>, y \<mapsto> Y\<lparr>hprev := Some new\<rparr>)"
      have ie: "insertElement b new (hp, H) = Some (hp', H\<lparr>hfirst := Some new, ht := Some t'\<rparr>)"
        using t ch N hf Cons Y(1) ny
        by (simp add: insertElement_def set_next_def set_prev_def hp'_def t'_def fun_upd_twist)
      have "dll hp' (Some new) as None"
        using Y(2) [of "Some new"] ny new(2) by (subst dll_frame [of _ _ "hp(y \<mapsto> Y\<lparr>hprev := Some new\<rparr>)"]) (auto simp: hp'_def as_def)
      then have lk: "linked hp' (H\<lparr>hfirst := Some new, ht := Some t'\<rparr>) (ins_bucket b new bl)"
        using mi dn tok' ny Cons by (simp add: linked_def hp'_def)
      have py: "payload hp' = payload hp" using N Y by (auto simp: hp'_def payload_Some fun_eq_iff)
      show thesis by (rule that [OF ie lk py]) (use Cons in \<open>auto simp: hp'_def t'_def as_def\<close>)
    qed
  next
    case (Some cs)
    then obtain y ys where cs: "cs = y # ys"
      using tok map_of_SomeD [OF Some] by (cases cs) (auto simp: table_ok_def)
    then have ch: "hchain (t ! b) = Some y" using tok t(2) Some by (simp add: table_ok_def)
    from members_ins(2) [OF tok Some [unfolded cs], of new] obtain l1 l2 where
      m: "as = l1 @ y # l2" and mi: "members (ins_bucket b new bl) = l1 @ new # y # l2" unfolding as_def by blast
    have d1: "dll hp None l1 (Some y)" and d2: "dll hp (last_of None l1) (y # l2) None"
      using chain unfolding m by (auto simp: dll_append)
    have dist2: "distinct (y # l2)" "distinct l1" "set l1 \<inter> set (y # l2) = {}" using dist m by auto
    have nn: "new \<notin> set l1" "new \<noteq> y" "new \<notin> set l2" using new(2) m by (auto simp: as_def)
    from dll_repoint [OF d2 dist2(1)] obtain Y where Y: "hp y = Some Y" "hprev Y = last_of None l1"
        "\<And>p'. dll (hp(y \<mapsto> Y\<lparr>hprev := p'\<rparr>)) p' (y # l2) None" by metis
    show thesis
    proof (cases "l1 = []")
      case True
      define hp' where "hp' = hp(new \<mapsto> N\<lparr>hnext := Some y, hprev := None\<rparr>, y \<mapsto> Y\<lparr>hprev := Some new\<rparr>)"
      have ie: "insertElement b new (hp, H) = Some (hp', H\<lparr>hfirst := Some new, ht := Some t'\<rparr>)"
        using t ch N Y(1,2) nn True
        by (simp add: insertElement_def set_next_def set_prev_def hp'_def t'_def fun_upd_twist)
      have "dll hp' (Some new) (y # l2) None"
        using Y(3) [of "Some new"] nn by (subst dll_frame [of _ _ "hp(y \<mapsto> Y\<lparr>hprev := Some new\<rparr>)"]) (auto simp: hp'_def)
      then have lk: "linked hp' (H\<lparr>hfirst := Some new, ht := Some t'\<rparr>) (ins_bucket b new bl)"
        using mi dist2 tok' nn True by (simp add: linked_def hp'_def)
      have py: "payload hp' = payload hp" using N Y by (auto simp: hp'_def payload_Some fun_eq_iff)
      show thesis by (rule that [OF ie lk py]) (use m in \<open>auto simp: hp'_def t'_def as_def\<close>)
    next
      case False
      define x where "x = last l1"
      have xl: "x \<in> set l1" "last_of None l1 = Some x" using False by (auto simp: x_def last_of_def)
      have xn: "x \<noteq> new" "x \<noteq> y" "x \<notin> set l2" using xl nn dist2 by auto
      from dll_relink [OF d1 False dist2(2), of "Some new"] obtain X where X: "hp x = Some X"
        "dll (hp(x \<mapsto> X\<lparr>hnext := Some new\<rparr>)) None l1 (Some new)" unfolding x_def by blast
      define hp' where "hp' = hp(new \<mapsto> N\<lparr>hnext := Some y, hprev := Some x\<rparr>, x \<mapsto> X\<lparr>hnext := Some new\<rparr>, y \<mapsto> Y\<lparr>hprev := Some new\<rparr>)"
      have ie: "insertElement b new (hp, H) = Some (hp', H\<lparr>ht := Some t'\<rparr>)"
        using t ch N Y(1,2) X(1) nn xl xn
        by (simp add: insertElement_def set_next_def set_prev_def hp'_def t'_def fun_upd_twist)
      moreover have "dll hp' None l1 (Some new)"
        using X(2) nn dist2(3) by (subst dll_frame [of _ _ "hp(x \<mapsto> X\<lparr>hnext := Some new\<rparr>)"]) (auto simp: hp'_def)
      moreover have "dll hp' (Some new) (y # l2) None"
        using Y(3) [of "Some new"] nn xn by (subst dll_frame [of _ _ "hp(y \<mapsto> Y\<lparr>hprev := Some new\<rparr>)"]) (auto simp: hp'_def)
      ultimately have ll: "dll hp' None (l1 @ new # y # l2) None"
        unfolding dll_append xl(2) using nn xn by (simp add: hp'_def)
      have dd: "distinct (l1 @ new # y # l2)" using dist2 nn by auto
      have ff: "hfirst H = fst_of (l1 @ new # y # l2) None"
        using hf False unfolding m by (cases l1) auto
      have lk: "linked hp' (H\<lparr>ht := Some t'\<rparr>) (ins_bucket b new bl)"
        unfolding linked_def mi using ll dd ff tok' by simp
      have py: "payload hp' = payload hp" using N Y X xn nn by (auto simp: hp'_def payload_Some fun_eq_iff)
      show thesis by (rule that [OF ie lk py]) (use m xl in \<open>auto simp: hp'_def t'_def as_def\<close>)
    qed
  qed
qed

subsection \<open>Rehashing\<close>

definition hashed :: "(bytes \<Rightarrow> int \<Rightarrow> int) \<Rightarrow> heap \<Rightarrow> int \<Rightarrow> (nat \<times> addr list) list \<Rightarrow> bool" where
  "hashed xh hp sz bl \<longleftrightarrow>
     (\<forall>(b, as) \<in> set bl. \<forall>a \<in> set as. \<exists>k n d. payload hp a = Some (k, n, d) \<and> bucket (xh k n) sz = b)"

lemma hashed_payload: "payload hp' = payload hp \<Longrightarrow> hashed xh hp' sz bl = hashed xh hp sz bl"
  by (simp add: hashed_def)

lemma hashed_ins:
  "hashed xh hp sz bl \<Longrightarrow> payload hp a = Some (k, n, d) \<Longrightarrow> bucket (xh k n) sz = b \<Longrightarrow>
   hashed xh hp sz (ins_bucket b a bl)"
  by (auto simp: hashed_def ins_bucket_def split: if_splits) blast+

lemma bucket_less: "0 \<le> h \<Longrightarrow> bucket h (2 ^ j) < 2 ^ j"
proof -
  assume "0 \<le> h"
  have "h AND (2 ^ j - 1) = h mod 2 ^ j"
    by (metis mask_eq_exp_minus_1 take_bit_eq_mask take_bit_eq_mod)
  then have "bucket h (2 ^ j) = nat (h mod 2 ^ j)" by (simp add: bucket_def)
  also have "\<dots> < nat (2 ^ j)" by (subst nat_less_eq_zless) auto
  finally show ?thesis by (simp add: nat_power_eq)
qed

lemma pow2_test [simp]: "(2 ^ j :: int) AND (2 ^ j - 1) = 0"
proof -
  have "(2 ^ j :: int) AND (2 ^ j - 1) = 2 ^ j mod 2 ^ j"
    by (metis mask_eq_exp_minus_1 take_bit_eq_mask take_bit_eq_mod)
  then show ?thesis by simp
qed

fun nexts :: "heap \<Rightarrow> addr list \<Rightarrow> bool" where
  "nexts hp [] \<longleftrightarrow> True"
| "nexts hp (a # as) \<longleftrightarrow> (\<exists>E. hp a = Some E \<and> hnext E = fst_of as None \<and> nexts hp as)"

lemma dll_nexts: "dll hp p as None \<Longrightarrow> nexts hp as"
  by (induction as arbitrary: p) auto

lemma nexts_frame: "(\<And>a. a \<in> set as \<Longrightarrow> hp' a = hp a) \<Longrightarrow> nexts hp' as \<longleftrightarrow> nexts hp as"
  by (induction as) auto

definition same_table :: "Hash \<Rightarrow> Hash \<Rightarrow> bool" where
  "same_table H H' \<longleftrightarrow> keyClass H' = keyClass H \<and> copyKey H' = copyKey H \<and> hnum H' = hnum H \<and> htsize H' = htsize H \<and>
     map_option length (ht H') = map_option length (ht H)"

lemma rehash_loop_ok:
  assumes "linked hp H bl" "hashed xh hp (2 ^ j) bl" "nexts hp rs" "distinct rs" "set rs \<inter> set (members bl) = {}"
    and "ht H = Some t" "length t = 2 ^ j" and nn: "\<And>k n. 0 \<le> xh k n"
  shows "\<exists>hp' H' bl'. rehash_loop xh (2 ^ j) (fst_of rs None) (hp, H) = Some (hp', H') \<and> linked hp' H' bl' \<and>
    hashed xh hp' (2 ^ j) bl' \<and> set (members bl') = set (members bl) \<union> set rs \<and> payload hp' = payload hp \<and>
    same_table H H' \<and> (\<forall>a. a \<notin> set (members bl) \<union> set rs \<longrightarrow> hp' a = hp a)"
  using assms(1-7)
proof (induction rs arbitrary: hp H bl t)
  case Nil
  then show ?case
    by (intro exI [of _ hp] exI [of _ H] exI [of _ bl]) (simp add: rehash_loop.simps same_table_def)
next
  case (Cons a rs)
  obtain E where E: "hp a = Some E" "hnext E = fst_of rs None" "nexts hp rs" using Cons.prems(3) by auto
  define b where "b = bucket (xh (hpKey E) (hnKey E)) (2 ^ j)"
  have b: "b < length t" using bucket_less [OF nn] Cons.prems(7) by (simp add: b_def)
  have an: "a \<notin> set (members bl)" "hp a \<noteq> None" using Cons.prems(5) E(1) by auto
  obtain hp1 H1 where i: "insertElement b a (hp, H) = Some (hp1, H1)" "linked hp1 H1 (ins_bucket b a bl)"
    "payload hp1 = payload hp" "\<And>c. c \<notin> insert a (set (members bl)) \<Longrightarrow> hp1 c = hp c"
    "keyClass H1 = keyClass H" "copyKey H1 = copyKey H" "hnum H1 = hnum H" "htsize H1 = htsize H"
    "map_option length (ht H1) = Some (length t)"
    using insertElement_linked [OF Cons.prems(1) an(2,1) Cons.prems(6) b] by metis
  have tok: "table_ok t bl" "distinct (members bl)" using Cons.prems(1,6) by (auto simp: linked_def)
  have mem: "set (members (ins_bucket b a bl)) = insert a (set (members bl))"
    using distinct_members_ins [OF tok an(1)] by blast
  have pk: "payload hp a = Some (hpKey E, hnKey E, hdata E)" using E(1) by (rule payload_Some)
  have hs: "hashed xh hp1 (2 ^ j) (ins_bucket b a bl)"
    using hashed_ins [OF Cons.prems(2) pk] by (simp add: hashed_payload [OF i(3)] b_def)
  have ne: "nexts hp1 rs"
  proof (subst nexts_frame [of _ _ hp])
    fix c assume "c \<in> set rs"
    then have "c \<notin> insert a (set (members bl))" using Cons.prems(4,5) by auto
    then show "hp1 c = hp c" by (rule i(4))
  qed (rule E(3))
  obtain t1 where t1: "ht H1 = Some t1" "length t1 = 2 ^ j" using i(9) Cons.prems(7) by auto
  have "\<exists>hp' H' bl'. rehash_loop xh (2 ^ j) (fst_of rs None) (hp1, H1) = Some (hp', H') \<and> linked hp' H' bl' \<and>
    hashed xh hp' (2 ^ j) bl' \<and> set (members bl') = set (members (ins_bucket b a bl)) \<union> set rs \<and> payload hp' = payload hp1 \<and>
    same_table H1 H' \<and> (\<forall>c. c \<notin> set (members (ins_bucket b a bl)) \<union> set rs \<longrightarrow> hp' c = hp1 c)"
    by (rule Cons.IH [OF i(2) hs ne _ _ t1]) (use Cons.prems(4,5) mem in auto)
  then obtain hp' H' bl' where r: "rehash_loop xh (2 ^ j) (fst_of rs None) (hp1, H1) = Some (hp', H')" "linked hp' H' bl'"
    "hashed xh hp' (2 ^ j) bl'" "set (members bl') = insert a (set (members bl)) \<union> set rs" "payload hp' = payload hp"
    "same_table H1 H'" "\<forall>c. c \<notin> insert a (set (members bl)) \<union> set rs \<longrightarrow> hp' c = hp1 c"
    using mem i(3) by auto
  have "rehash_loop xh (2 ^ j) (fst_of (a # rs) None) (hp, H) = Some (hp', H')"
    using E(1,2) i(1) r(1) by (subst rehash_loop.simps) (simp add: b_def)
  moreover have "same_table H H'" using r(6) i(5-9) Cons.prems(6) by (simp add: same_table_def)
  moreover have "hp' c = hp c" if "c \<notin> set (members bl) \<union> set (a # rs)" for c
    using r(7) i(4) that by auto
  ultimately show ?case using r by (intro exI [of _ hp'] exI [of _ H'] exI [of _ bl']) auto
qed

text \<open>The states of a table with the elements \<open>A\<close>.\<close>

definition filled :: "(bytes \<Rightarrow> int \<Rightarrow> int) \<Rightarrow> heap \<Rightarrow> Hash \<Rightarrow> addr set \<Rightarrow> bool" where
  "filled xh hp H A \<longleftrightarrow>
     (\<exists>bl j t. linked hp H bl \<and> hashed xh hp (2 ^ j) bl \<and> htsize H = 2 ^ j \<and> ht H = Some t \<and> length t = 2 ^ j \<and>
        set (members bl) = A)"

lemma members_entry: "a \<in> set (members bl) \<longleftrightarrow> (\<exists>b as. (b, as) \<in> set bl \<and> a \<in> set as)"
  by (force simp: members_def)

lemma table_ok_empty: "table_ok (replicate n \<lparr>hcount = 0, hchain = None\<rparr>) []"
  by (simp add: table_ok_def)

lemma rehash_fresh:
  assumes "nexts hp rs" "distinct rs" "hfirst H = fst_of rs None" "hashFunction (keyClass H) = Some xh" "\<And>k n. 0 \<le> xh k n"
  shows "\<exists>hp' H'. rehash True (2 ^ j) (hp, H) = Some (hp', H') \<and> filled xh hp' H' (set rs) \<and> payload hp' = payload hp \<and>
    keyClass H' = keyClass H \<and> copyKey H' = copyKey H \<and> hnum H' = hnum H \<and> htsize H' = 2 ^ j \<and>
    (\<forall>a. a \<notin> set rs \<longrightarrow> hp' a = hp a)"
proof -
  define t where "t = replicate (2 ^ j) \<lparr>hcount = 0, hchain = None\<rparr>"
  define H0 where "H0 = H\<lparr>ht := Some t, htsize := 2 ^ j, hfirst := None\<rparr>"
  have "\<exists>hp' H' bl'. rehash_loop xh (2 ^ j) (fst_of rs None) (hp, H0) = Some (hp', H') \<and> linked hp' H' bl' \<and>
    hashed xh hp' (2 ^ j) bl' \<and> set (members bl') = set (members []) \<union> set rs \<and> payload hp' = payload hp \<and>
    same_table H0 H' \<and> (\<forall>a. a \<notin> set (members []) \<union> set rs \<longrightarrow> hp' a = hp a)"
    by (rule rehash_loop_ok [where t = t])
      (use assms in \<open>auto simp: H0_def t_def linked_def members_def hashed_def table_ok_empty\<close>)
  then obtain hp' H' bl' where r: "rehash_loop xh (2 ^ j) (fst_of rs None) (hp, H0) = Some (hp', H')" "linked hp' H' bl'"
    "hashed xh hp' (2 ^ j) bl'" "set (members bl') = set rs" "payload hp' = payload hp"
    "same_table H0 H'" "\<forall>a. a \<notin> set rs \<longrightarrow> hp' a = hp a" by (auto simp: members_def)
  have "rehash True (2 ^ j) (hp, H) = Some (hp', H')"
    using r(1) assms(3,4) by (simp add: rehash_def H0_def t_def nat_power_eq)
  moreover have "filled xh hp' H' (set rs)"
    using r unfolding filled_def same_table_def H0_def t_def
    by (intro exI [of _ bl'] exI [of _ j] exI [of _ "the (ht H')"]) auto
  ultimately show ?thesis using r(5-7) by (auto simp: same_table_def H0_def)
qed

lemma filled_chain:
  assumes "filled xh hp H A"
  obtains rs where "nexts hp rs" "distinct rs" "hfirst H = fst_of rs None" "set rs = A"
  using assms dll_nexts unfolding filled_def linked_def by blast

lemma filled_insert:
  assumes f: "filled xh hp H A" and new: "hp a \<noteq> None" "a \<notin> A" and k: "payload hp a = Some (k, n, d)"
    and nn: "0 \<le> xh k n"
  shows "\<exists>hp' H'. insertElement (bucket (xh k n) (htsize H)) a (hp, H) = Some (hp', H') \<and> filled xh hp' H' (insert a A) \<and>
    payload hp' = payload hp \<and> keyClass H' = keyClass H \<and> copyKey H' = copyKey H \<and> hnum H' = hnum H \<and>
    htsize H' = htsize H \<and> (\<forall>c. c \<notin> insert a A \<longrightarrow> hp' c = hp c)"
proof -
  from f obtain bl j t where fl: "linked hp H bl" "hashed xh hp (2 ^ j) bl" "htsize H = 2 ^ j" "ht H = Some t"
    "length t = 2 ^ j" "set (members bl) = A" unfolding filled_def by blast
  define b where "b = bucket (xh k n) (2 ^ j)"
  have b: "b < length t" using bucket_less [OF nn] fl(5) by (simp add: b_def)
  obtain hp1 H1 where i: "insertElement b a (hp, H) = Some (hp1, H1)" "linked hp1 H1 (ins_bucket b a bl)"
    "payload hp1 = payload hp" "\<And>c. c \<notin> insert a (set (members bl)) \<Longrightarrow> hp1 c = hp c"
    "keyClass H1 = keyClass H" "copyKey H1 = copyKey H" "hnum H1 = hnum H" "htsize H1 = htsize H"
    "map_option length (ht H1) = Some (length t)"
    using insertElement_linked [OF fl(1) new(1) _ fl(4) b] new(2) fl(6) by metis
  have tok: "table_ok t bl" "distinct (members bl)" using fl(1,4) by (auto simp: linked_def)
  have mem: "set (members (ins_bucket b a bl)) = insert a A"
    using distinct_members_ins [OF tok] new(2) fl(6) by blast
  have hs: "hashed xh hp1 (2 ^ j) (ins_bucket b a bl)"
    using hashed_ins [OF fl(2) k] by (simp add: hashed_payload [OF i(3)] b_def)
  have "filled xh hp1 H1 (insert a A)"
    unfolding filled_def using i(2,8,9) hs mem fl(3,5) by (intro exI [of _ "ins_bucket b a bl"] exI [of _ j]) auto
  then show ?thesis using i fl(3,6) b_def by (intro exI [of _ hp1] exI [of _ H1]) auto
qed

subsection \<open>Searching and removing\<close>

definition kmatch :: "(bytes \<Rightarrow> int \<Rightarrow> bytes \<Rightarrow> int \<Rightarrow> int) \<Rightarrow> heap \<Rightarrow> bytes \<Rightarrow> int \<Rightarrow> addr \<Rightarrow> bool" where
  "kmatch cmp hp k n a \<longleftrightarrow> (case payload hp a of None \<Rightarrow> False | Some (k', n', d) \<Rightarrow> cmp k' n' k n = 0)"

lemma kmatch_iff: "hp a = Some E \<Longrightarrow> kmatch cmp hp k n a \<longleftrightarrow> cmp (hpKey E) (hnKey E) k n = 0"
  by (simp add: kmatch_def payload_Some)

lemma find_loop_ok:
  "dll hp p as nx \<Longrightarrow> find_loop hp cmp k n (int (length as)) (fst_of as nx) = Some (List.find (kmatch cmp hp k n) as)"
proof (induction as arbitrary: p)
  case Nil
  show ?case by (simp add: find_loop.simps)
next
  case (Cons a as)
  then show ?case by (subst find_loop.simps) (auto simp: kmatch_iff)
qed

lemma filled_find:
  assumes f: "filled xh hp H A" and cl: "compareFunction (keyClass H) = Some cmp" and nn: "0 \<le> xh k n"
    and law: "\<And>k' n' d a. a \<in> A \<Longrightarrow> payload hp a = Some (k', n', d) \<Longrightarrow> cmp k' n' k n = 0 \<Longrightarrow> xh k' n' = xh k n"
  shows "\<exists>r. findElementGivenHash k n (bucket (xh k n) (htsize H)) (hp, H) = Some r \<and>
    (case r of None \<Rightarrow> \<forall>a \<in> A. \<not> kmatch cmp hp k n a | Some a \<Rightarrow> a \<in> A \<and> kmatch cmp hp k n a)"
proof -
  from f obtain bl j t where fl: "linked hp H bl" "hashed xh hp (2 ^ j) bl" "htsize H = 2 ^ j" "ht H = Some t"
    "length t = 2 ^ j" "set (members bl) = A" unfolding filled_def by blast
  define b where "b = bucket (xh k n) (2 ^ j)"
  have b: "b < length t" using bucket_less [OF nn] fl(5) by (simp add: b_def)
  have tok: "table_ok t bl" and ch: "dll hp None (members bl) None" using fl(1,4) by (auto simp: linked_def)
  have inb: "\<exists>as. map_of bl b = Some as \<and> a \<in> set as" if "a \<in> A" "kmatch cmp hp k n a" for a
  proof -
    obtain c as where ca: "(c, as) \<in> set bl" "a \<in> set as" using \<open>a \<in> A\<close> fl(6) members_entry by metis
    then obtain k' n' d where p: "payload hp a = Some (k', n', d)" "bucket (xh k' n') (2 ^ j) = c"
      using fl(2) unfolding hashed_def by blast
    have "c = b" using law [OF \<open>a \<in> A\<close> p(1)] that(2) p by (simp add: kmatch_def b_def)
    moreover have "distinct (map fst bl)" using tok by (simp add: table_ok_def)
    ultimately show ?thesis using ca by (auto intro: map_of_is_SomeI)
  qed
  show ?thesis
  proof (cases "map_of bl b")
    case None
    then have "t ! b = \<lparr>hcount = 0, hchain = None\<rparr>" using tok b by (simp add: table_ok_def)
    then have "findElementGivenHash k n (bucket (xh k n) (htsize H)) (hp, H) = Some None"
      using b fl(3,4) cl by (simp add: findElementGivenHash_def b_def [symmetric] find_loop.simps)
    then show ?thesis using inb None by auto
  next
    case (Some cs)
    then have tb: "t ! b = \<lparr>hcount = int (length cs), hchain = Some (hd cs)\<rparr>" using tok b by (simp add: table_ok_def)
    obtain u v where bl: "bl = u @ (b, cs) # v" using map_of_SomeD [OF Some] by (metis split_list)
    have ne: "cs \<noteq> []" using tok map_of_SomeD [OF Some] by (auto simp: table_ok_def)
    have m: "members bl = members u @ cs @ members v" by (simp add: bl members_def)
    then have "dll hp (last_of None (members u)) cs (fst_of (members v) None)" using ch by (simp add: dll_append)
    moreover have "fst_of cs (fst_of (members v) None) = Some (hd cs)" using ne by (cases cs) auto
    ultimately have "findElementGivenHash k n (bucket (xh k n) (htsize H)) (hp, H) = Some (List.find (kmatch cmp hp k n) cs)"
      using find_loop_ok [of hp _ cs "fst_of (members v) None" cmp k n] b fl(3,4) cl tb
      by (simp add: findElementGivenHash_def b_def [symmetric])
    moreover have "set cs \<subseteq> A" using m fl(6) by auto
    ultimately show ?thesis
      using inb Some by (cases "List.find (kmatch cmp hp k n) cs") (auto simp: find_None_iff find_Some_iff)
  qed
qed

lemma dll_unlink:
  assumes d: "dll hp None (U @ a # W) None" "distinct (U @ a # W)"
  obtains E hp1 hp2 where "hp a = Some E" "hprev E = last_of None U" "hnext E = fst_of W None"
    "(case hprev E of Some p \<Rightarrow> set_next p (hnext E) hp | None \<Rightarrow> Some hp) = Some hp1"
    "(case hnext E of Some q \<Rightarrow> set_prev q (hprev E) hp1 | None \<Rightarrow> Some hp1) = Some hp2"
    "dll hp2 None (U @ W) None" "payload hp2 = payload hp" "\<And>c. c \<notin> set (U @ W) \<Longrightarrow> hp2 c = hp c"
proof -
  obtain E where E: "hp a = Some E" "hprev E = last_of None U" "hnext E = fst_of W None"
    "dll hp None U (Some a)" "dll hp (Some a) W None" using d(1) by (auto simp: dll_append)
  have dist: "distinct U" "distinct W" "set U \<inter> set W = {}" using d(2) by auto
  obtain hp1 where 1: "(case hprev E of Some p \<Rightarrow> set_next p (hnext E) hp | None \<Rightarrow> Some hp) = Some hp1"
    "dll hp1 None U (fst_of W None)" "payload hp1 = payload hp" "\<And>c. c \<notin> set U \<Longrightarrow> hp1 c = hp c"
  proof (cases "U = []")
    case True then show thesis using that [of hp] E by simp
  next
    case False
    from dll_relink [OF E(4) False dist(1), of "fst_of W None"] obtain X where X: "hp (last U) = Some X"
      "dll (hp(last U \<mapsto> X\<lparr>hnext := fst_of W None\<rparr>)) None U (fst_of W None)" by blast
    show thesis
    proof (rule that [OF _ X(2)])
      show "(case hprev E of Some p \<Rightarrow> set_next p (hnext E) hp | None \<Rightarrow> Some hp) = Some (hp(last U \<mapsto> X\<lparr>hnext := fst_of W None\<rparr>))"
        using False E X by (simp add: set_next_def last_of_def)
    qed (use False X in \<open>auto simp: payload_Some fun_eq_iff\<close>)
  qed
  have W1: "dll hp1 (Some a) W None" using E(5) 1(4) dist(3) by (subst dll_frame [of _ _ hp]) auto
  obtain hp2 where 2: "(case hnext E of Some q \<Rightarrow> set_prev q (hprev E) hp1 | None \<Rightarrow> Some hp1) = Some hp2"
    "dll hp2 (last_of None U) W None" "payload hp2 = payload hp1" "\<And>c. c \<notin> set W \<Longrightarrow> hp2 c = hp1 c"
  proof (cases W)
    case Nil then show thesis using that [of hp1] E by simp
  next
    case (Cons w W')
    from dll_repoint [OF W1 [unfolded Cons] dist(2) [unfolded Cons]] obtain Y where Y: "hp1 w = Some Y"
      "\<And>p'. dll (hp1(w \<mapsto> Y\<lparr>hprev := p'\<rparr>)) p' (w # W') None" by metis
    show thesis
    proof (rule that)
      show "(case hnext E of Some q \<Rightarrow> set_prev q (hprev E) hp1 | None \<Rightarrow> Some hp1) = Some (hp1(w \<mapsto> Y\<lparr>hprev := last_of None U\<rparr>))"
        using Cons E Y by (simp add: set_prev_def)
    qed (use Cons Y in \<open>auto simp: payload_Some fun_eq_iff\<close>)
  qed
  have "dll hp2 None U (fst_of W None)" using 1(2) 2(4) dist(3) by (subst dll_frame [of _ _ hp1]) auto
  then have "dll hp2 None (U @ W) None" using 2(2) by (simp add: dll_append)
  then show thesis using that [OF E(1-3) 1(1) 2(1)] 1(3,4) 2(3,4) by auto
qed

lemma free_elems_ok:
  "nexts hp as \<Longrightarrow> distinct as \<Longrightarrow> \<exists>hp'. free_elems (fst_of as None) hp = Some hp' \<and> (\<forall>a. hp' a = (if a \<in> set as then None else hp a))"
proof (induction as arbitrary: hp)
  case Nil then show ?case by (simp add: free_elems.simps)
next
  case (Cons a as)
  then obtain E where E: "hp a = Some E" "hnext E = fst_of as None" "nexts hp as" by auto
  have "nexts (hp(a := None)) as" using E(3) Cons.prems(2) by (subst nexts_frame [of _ _ hp]) auto
  then obtain hp' where "free_elems (fst_of as None) (hp(a := None)) = Some hp'"
    "\<forall>c. hp' c = (if c \<in> set as then None else (hp(a := None)) c)" using Cons by auto
  then show ?case using E by (subst free_elems.simps) auto
qed


text \<open>Taking an element out of its bucket.\<close>

lemma split_member:
  assumes t: "table_ok t bl" and a: "a \<in> set (members bl)" and h: "hashed xh hp sz bl"
    and k: "payload hp a = Some (k, n, d)" and b: "bucket (xh k n) sz = b"
  obtains u v cs1 cs2 where "bl = u @ (b, cs1 @ a # cs2) # v" "map_of bl b = Some (cs1 @ a # cs2)"
proof -
  obtain c as where ca: "(c, as) \<in> set bl" "a \<in> set as" using a members_entry by metis
  then obtain k' n' d' where p: "payload hp a = Some (k', n', d')" "bucket (xh k' n') sz = c"
    using h unfolding hashed_def by blast
  have "c = b" using p k b by simp
  obtain cs1 cs2 where as: "as = cs1 @ a # cs2" using ca(2) by (meson split_list)
  obtain u v where "bl = u @ (c, as) # v" using ca(1) by (meson split_list)
  moreover have "map_of bl c = Some as" using ca(1) t by (auto simp: table_ok_def)
  ultimately show thesis using that as \<open>c = b\<close> by blast
qed

definition del_entry :: "nat \<Rightarrow> addr list \<Rightarrow> (nat \<times> addr list) list" where
  "del_entry b cs = (if cs = [] then [] else [(b, cs)])"

lemma table_ok_del:
  assumes t: "table_ok t (u @ (b, cs) # v)" and B: "B = (case cs' of [] \<Rightarrow> \<lparr>hcount = 0, hchain = None\<rparr>
      | _ \<Rightarrow> \<lparr>hcount = int (length cs'), hchain = Some (hd cs')\<rparr>)"
  shows "table_ok (t[b := B]) (u @ del_entry b cs' @ v)"
proof -
  have d: "distinct (map fst (u @ (b, cs) # v))" and bt: "b < length t" using t by (auto simp: table_ok_def)
  have nb: "map_of u b = None" "map_of v b = None" using d by (auto simp: map_of_eq_None_iff)
  have m: "map_of (u @ del_entry b cs' @ v) c =
      (if c = b then (if cs' = [] then None else Some cs') else map_of (u @ (b, cs) # v) c)" for c
    using nb by (auto simp: del_entry_def map_add_def split: option.splits)
  show ?thesis
    unfolding table_ok_def
  proof (intro conjI allI impI)
    show "distinct (map fst (u @ del_entry b cs' @ v))" using d by (auto simp: del_entry_def)
    show "\<forall>(c, as) \<in> set (u @ del_entry b cs' @ v). as \<noteq> [] \<and> c < length (t[b := B])"
      using t bt by (auto simp: table_ok_def del_entry_def split: if_splits)
    fix c assume c: "c < length (t[b := B])"
    show "t[b := B] ! c = (case map_of (u @ del_entry b cs' @ v) c of None \<Rightarrow> \<lparr>hcount = 0, hchain = None\<rparr>
         | Some as \<Rightarrow> \<lparr>hcount = int (length as), hchain = Some (hd as)\<rparr>)"
    proof (cases "c = b")
      case True
      then show ?thesis unfolding m using bt by (cases cs') (auto simp: B)
    next
      case False
      then have "t[b := B] ! c = t ! c" by simp
      also have "\<dots> = (case map_of (u @ (b, cs) # v) c of None \<Rightarrow> \<lparr>hcount = 0, hchain = None\<rparr>
         | Some as \<Rightarrow> \<lparr>hcount = int (length as), hchain = Some (hd as)\<rparr>)"
        using t c unfolding table_ok_def by simp
      finally show ?thesis using m [of c] False by simp
    qed
  qed
qed

lemma filled_remove:
  assumes f: "filled xh hp H A" and a: "a \<in> A" and k: "payload hp a = Some (k, n, d)" and num: "hnum H = int (card A)"
  shows "\<exists>hp' H'. removeElementGivenHash a (bucket (xh k n) (htsize H)) (hp, H) = Some (hp', H') \<and>
    keyClass H' = keyClass H \<and> copyKey H' = copyKey H \<and> hnum H' = int (card (A - {a})) \<and>
    (if A - {a} = {} then ht H' = None \<and> htsize H' = 0 \<and> hfirst H' = None
     else filled xh hp' H' (A - {a})) \<and>
    (\<forall>c. c \<noteq> a \<longrightarrow> payload hp' c = payload hp c) \<and> (\<forall>c. c \<notin> A \<longrightarrow> hp' c = hp c)"
proof -
  from f obtain bl j t where fl: "linked hp H bl" "hashed xh hp (2 ^ j) bl" "htsize H = 2 ^ j" "ht H = Some t"
    "length t = 2 ^ j" "set (members bl) = A" unfolding filled_def by blast
  have tok: "table_ok t bl" and ch: "dll hp None (members bl) None" and dist: "distinct (members bl)"
    and hf: "hfirst H = fst_of (members bl) None" using fl(1,4) by (auto simp: linked_def)
  define b where "b = bucket (xh k n) (2 ^ j)"
  obtain u v cs1 cs2 where bl: "bl = u @ (b, cs1 @ a # cs2) # v" and mo: "map_of bl b = Some (cs1 @ a # cs2)"
    using split_member [OF tok _ fl(2) k b_def [symmetric]] a fl(6) by metis
  have bt: "b < length t" using tok bl by (auto simp: table_ok_def)
  define U where "U = members u @ cs1"
  define W where "W = cs2 @ members v"
  have m: "members bl = U @ a # W" by (simp add: bl members_def U_def W_def)
  have card: "card A = Suc (length (U @ W))" using fl(6) dist distinct_card [OF dist] by (simp add: m)
  have UW: "set (U @ W) = A - {a}" using fl(6) dist by (auto simp: m)
  obtain E hp1 hp2 where e: "hp a = Some E" "hprev E = last_of None U" "hnext E = fst_of W None"
    "(case hprev E of Some p \<Rightarrow> set_next p (hnext E) hp | None \<Rightarrow> Some hp) = Some hp1"
    "(case hnext E of Some q \<Rightarrow> set_prev q (hprev E) hp1 | None \<Rightarrow> Some hp1) = Some hp2"
    "dll hp2 None (U @ W) None" "payload hp2 = payload hp" "\<And>c. c \<notin> set (U @ W) \<Longrightarrow> hp2 c = hp c"
    using dll_unlink [of hp U a W] ch dist unfolding m by metis
  define cs where "cs = cs1 @ cs2"
  define B where "B = (case cs of [] \<Rightarrow> \<lparr>hcount = 0, hchain = None\<rparr> | _ \<Rightarrow> \<lparr>hcount = int (length cs), hchain = Some (hd cs)\<rparr>)"
  define H1 where "H1 = H\<lparr>hfirst := fst_of (U @ W) None, ht := Some (t[b := B]), hnum := int (card A) - 1\<rparr>"
  define hp3 where "hp3 = hp2(a := None)"
  have tb: "t ! b = \<lparr>hcount = int (length (cs1 @ a # cs2)), hchain = Some (hd (cs1 @ a # cs2))\<rparr>"
    using tok bt mo by (simp add: table_ok_def)
  have step: "removeElementGivenHash a b (hp, H) =
     (if int (card A) - 1 \<le> 0 then (if \<not> (fst_of (U @ W) None = None \<and> int (card A) - 1 = 0) then None else sqlite3HashClear (hp3, H1))
      else Some (hp3, H1))"
  proof -
    have Beq: "(let B = t ! b; B = (if hchain B = Some a then B\<lparr>hchain := hnext E\<rparr> else B);
          B = B\<lparr>hcount := hcount B - 1\<rparr>; B = (if hcount B \<le> 0 then B\<lparr>hchain := None\<rparr> else B) in B) = B"
    proof (cases cs1)
      case Nil
      then show ?thesis by (cases cs2) (auto simp: tb B_def cs_def e(3) W_def Let_def)
    next
      case (Cons y ys)
      have "y \<noteq> a" using dist by (auto simp: m U_def Cons)
      then show ?thesis using Cons by (auto simp: tb B_def cs_def Let_def)
    qed
    have "(case hprev E of Some p \<Rightarrow> do { hp \<leftarrow> set_next p (hnext E) hp; Some (hp, H) }
           | None \<Rightarrow> Some (hp, H\<lparr>hfirst := hnext E\<rparr>)) = Some (hp1, H\<lparr>hfirst := fst_of (U @ W) None\<rparr>)"
      using e(2-4) hf by (cases U) (auto simp: m last_of_def split: option.splits)
    then show ?thesis
      using e(1,5) fl(4) bt Beq num by (simp add: removeElementGivenHash_def Let_def H1_def hp3_def)
  qed
  have tok3: "table_ok (t[b := B]) (u @ del_entry b cs @ v)"
    using table_ok_del [OF tok [unfolded bl] B_def] .
  have m3: "members (u @ del_entry b cs @ v) = U @ W"
    by (auto simp: members_def U_def W_def del_entry_def cs_def)
  have d3: "dll hp3 None (U @ W) None"
    using e(6) dist by (subst dll_frame [of _ _ hp2]) (auto simp: hp3_def m)
  have lk: "linked hp3 H1 (u @ del_entry b cs @ v)"
    unfolding linked_def m3 using d3 dist tok3 by (simp add: H1_def m)
  have py: "payload hp3 c = payload hp c" if "c \<noteq> a" for c using that e(7) by (simp add: hp3_def)
  have hs: "hashed xh hp3 (2 ^ j) (u @ del_entry b cs @ v)"
  proof -
    have "\<exists>k n d. payload hp3 x = Some (k, n, d) \<and> bucket (xh k n) (2 ^ j) = c"
      if "(c, as) \<in> set (u @ del_entry b cs @ v)" "x \<in> set as" for c as x
    proof -
      have "x \<in> set (members (u @ del_entry b cs @ v))" using that members_entry by metis
      then have "x \<noteq> a" using dist unfolding m3 by (auto simp: m)
      have "\<exists>as'. (c, as') \<in> set bl \<and> x \<in> set as'" using that by (auto simp: bl del_entry_def cs_def split: if_splits)
      then show ?thesis using fl(2) py [OF \<open>x \<noteq> a\<close>] unfolding hashed_def by fastforce
    qed
    then show ?thesis unfolding hashed_def by blast
  qed
  have fr: "hp3 c = hp c" if "c \<notin> A" for c
    using e(8) [of c] that UW a by (auto simp: hp3_def)
  have fin: "finite A" using fl(6) by auto
  show ?thesis
  proof (cases "U @ W = []")
    case True
    then have A: "A = {a}" using UW a by auto
    have "sqlite3HashClear (hp3, H1) = Some (hp3, H1\<lparr>hfirst := None, ht := None, htsize := 0, hnum := 0\<rparr>)"
      using True by (simp add: sqlite3HashClear_def H1_def free_elems.simps)
    then show ?thesis
      using step True A py fr unfolding b_def [symmetric] fl(3)
      by (auto simp: H1_def)
  next
    case False
    then have "card A > 1" using card by (cases "U @ W") auto
    moreover have "A - {a} \<noteq> {}" using False UW by (metis set_empty)
    moreover have "filled xh hp3 H1 (A - {a})"
      unfolding filled_def using lk hs fl(3,5) UW m3
      by (intro exI [of _ "u @ del_entry b cs @ v"] exI [of _ j] exI [of _ "t[b := B]"]) (simp add: H1_def)
    moreover have "int (card (A - {a})) = int (card A) - 1" using fin a \<open>card A > 1\<close> by (simp add: of_nat_diff)
    ultimately show ?thesis using step py fr unfolding b_def [symmetric] fl(3) by (auto simp: H1_def)
  qed
qed

subsection \<open>The table as a finite map\<close>

text \<open>A heap and a table with the elements \<open>A\<close> represent the map \<open>m\<close> from valid keys to data.\<close>

definition structure_ok :: "(bytes \<Rightarrow> int \<Rightarrow> int) \<Rightarrow> heap \<Rightarrow> Hash \<Rightarrow> addr set \<Rightarrow> bool" where
  "structure_ok xh hp H A \<longleftrightarrow>
     finite A \<and> hnum H = int (card A) \<and>
     (if A = {} then ht H = None \<and> htsize H = 0 \<and> hfirst H = None else filled xh hp H A)"

definition keys_ok ::
  "(bytes \<Rightarrow> int \<Rightarrow> bytes \<Rightarrow> int \<Rightarrow> int) \<Rightarrow> (bytes \<Rightarrow> int \<Rightarrow> bool) \<Rightarrow> heap \<Rightarrow> addr set \<Rightarrow> bool" where
  "keys_ok cmp valid hp A \<longleftrightarrow>
     (\<forall>a \<in> A. \<exists>k n d. payload hp a = Some (k, n, d) \<and> valid k n) \<and>
     (\<forall>a \<in> A. \<forall>b \<in> A. \<forall>k n d. payload hp a = Some (k, n, d) \<longrightarrow> kmatch cmp hp k n b \<longrightarrow> b = a)"

definition maps_to ::
  "(bytes \<Rightarrow> int \<Rightarrow> bytes \<Rightarrow> int \<Rightarrow> int) \<Rightarrow> (bytes \<Rightarrow> int \<Rightarrow> bool) \<Rightarrow> heap \<Rightarrow> addr set \<Rightarrow>
   (bytes \<Rightarrow> int \<Rightarrow> ptr option) \<Rightarrow> bool" where
  "maps_to cmp valid hp A m \<longleftrightarrow>
     (\<forall>k n d. valid k n \<longrightarrow>
        (m k n = Some d \<longleftrightarrow> (\<exists>a \<in> A. \<exists>k' n'. payload hp a = Some (k', n', d) \<and> cmp k' n' k n = 0)))"

definition hash_rep ::
  "(bytes \<Rightarrow> int \<Rightarrow> int) \<Rightarrow> (bytes \<Rightarrow> int \<Rightarrow> bytes \<Rightarrow> int \<Rightarrow> int) \<Rightarrow> (bytes \<Rightarrow> int \<Rightarrow> bool) \<Rightarrow> int \<Rightarrow>
   heap \<times> Hash \<Rightarrow> (bytes \<Rightarrow> int \<Rightarrow> ptr option) \<Rightarrow> bool" where
  "hash_rep xh cmp valid kc s m \<longleftrightarrow>
     keyClass (snd s) = kc \<and>
     (\<exists>A. structure_ok xh (fst s) (snd s) A \<and> keys_ok cmp valid (fst s) A \<and> maps_to cmp valid (fst s) A m)"

lemma maps_toD:
  "maps_to cmp valid hp A m \<Longrightarrow> valid k n \<Longrightarrow>
     m k n = Some d \<longleftrightarrow> (\<exists>a \<in> A. \<exists>k' n'. payload hp a = Some (k', n', d) \<and> cmp k' n' k n = 0)"
  unfolding maps_to_def by blast

text \<open>Replacing the data of a key, on the whole class of equal keys.\<close>

definition map_upd :: "(bytes \<Rightarrow> int \<Rightarrow> bytes \<Rightarrow> int \<Rightarrow> int) \<Rightarrow> bytes \<Rightarrow> int \<Rightarrow> ptr option \<Rightarrow>
   (bytes \<Rightarrow> int \<Rightarrow> ptr option) \<Rightarrow> bytes \<Rightarrow> int \<Rightarrow> ptr option" where
  "map_upd cmp k n d m = (\<lambda>k' n'. if cmp k n k' n' = 0 then d else m k' n')"

text \<open>The contract between the table and a class of keys: the comparison is an equivalence on
  the valid keys, equal keys have the same hash value, and copying a key gives an equal one.\<close>

locale key_class =
  fixes kc :: int and xh :: "bytes \<Rightarrow> int \<Rightarrow> int" and cmp :: "bytes \<Rightarrow> int \<Rightarrow> bytes \<Rightarrow> int \<Rightarrow> int"
    and valid :: "bytes \<Rightarrow> int \<Rightarrow> bool"
  assumes hash_fun: "hashFunction kc = Some xh" and cmp_fun: "compareFunction kc = Some cmp"
    and nonneg: "0 \<le> xh k n"
    and refl: "valid k n \<Longrightarrow> cmp k n k n = 0"
    and sym: "valid k n \<Longrightarrow> valid k' n' \<Longrightarrow> cmp k n k' n' = 0 \<Longrightarrow> cmp k' n' k n = 0"
    and trans: "valid k n \<Longrightarrow> valid k' n' \<Longrightarrow> valid k'' n'' \<Longrightarrow> cmp k n k' n' = 0 \<Longrightarrow> cmp k' n' k'' n'' = 0 \<Longrightarrow> cmp k n k'' n'' = 0"
    and hash_eq: "valid k n \<Longrightarrow> valid k' n' \<Longrightarrow> cmp k n k' n' = 0 \<Longrightarrow> xh k n = xh k' n'"
    and copy_valid: "valid k n \<Longrightarrow> valid (copy_key k n) n"
    and copy_eq: "valid k n \<Longrightarrow> cmp (copy_key k n) n k n = 0"
begin

lemma cmp_cong:
  assumes "valid k n" "valid k1 n1" "valid k2 n2" "cmp k1 n1 k2 n2 = 0"
  shows "cmp k n k1 n1 = 0 \<longleftrightarrow> cmp k n k2 n2 = 0"
  using assms sym [of k1 n1 k2 n2] trans [of k n k1 n1 k2 n2] trans [of k n k2 n2 k1 n1] by blast

lemma cmp_sym: "valid k n \<Longrightarrow> valid k' n' \<Longrightarrow> cmp k n k' n' = 0 \<longleftrightarrow> cmp k' n' k n = 0"
  using sym by blast

lemma element_valid:
  "keys_ok cmp valid hp A \<Longrightarrow> a \<in> A \<Longrightarrow> payload hp a = Some (k, n, d) \<Longrightarrow> valid k n"
  unfolding keys_ok_def by fastforce

lemma find_element:
  assumes st: "structure_ok xh hp H A" and ks: "keys_ok cmp valid hp A" and mt: "maps_to cmp valid hp A m"
    and kc: "keyClass H = kc" and v: "valid k n"
  obtains r where "findElementGivenHash k n (bucket (xh k n) (htsize H)) (hp, H) = Some r"
     "(htsize H AND (htsize H - 1)) = 0"
     "case r of None \<Rightarrow> m k n = None \<and> (\<forall>a \<in> A. \<not> kmatch cmp hp k n a)
      | Some a \<Rightarrow> a \<in> A \<and> (\<exists>E. hp a = Some E \<and> m k n = Some (hdata E) \<and> cmp (hpKey E) (hnKey E) k n = 0 \<and> ht H \<noteq> None)"
proof (cases "A = {}")
  case True
  then have "m k n = None" using maps_toD [OF mt v] by (metis empty_iff not_None_eq)
  then show thesis using st True that [of None] by (simp add: findElementGivenHash_def structure_ok_def)
next
  case False
  then have f: "filled xh hp H A" using st by (simp add: structure_ok_def)
  then obtain j where "htsize H = 2 ^ j" and htn: "ht H \<noteq> None" unfolding filled_def by auto
  then have pow: "(htsize H AND (htsize H - 1)) = 0" by simp
  have law: "xh k' n' = xh k n" if "a \<in> A" "payload hp a = Some (k', n', d)" "cmp k' n' k n = 0" for k' n' d a
    using hash_eq [OF element_valid [OF ks that(1,2)] v that(3)] .
  have cf: "compareFunction (keyClass H) = Some cmp" using cmp_fun kc by simp
  have "\<exists>r. findElementGivenHash k n (bucket (xh k n) (htsize H)) (hp, H) = Some r \<and>
    (case r of None \<Rightarrow> \<forall>a \<in> A. \<not> kmatch cmp hp k n a | Some a \<Rightarrow> a \<in> A \<and> kmatch cmp hp k n a)"
    by (rule filled_find [OF f cf nonneg]) (rule law)
  then obtain r where
    r: "findElementGivenHash k n (bucket (xh k n) (htsize H)) (hp, H) = Some r"
    "case r of None \<Rightarrow> \<forall>a \<in> A. \<not> kmatch cmp hp k n a | Some a \<Rightarrow> a \<in> A \<and> kmatch cmp hp k n a" by blast
  show thesis
  proof (cases r)
    case None
    have "m k n = None"
    proof (rule ccontr)
      assume "m k n \<noteq> None"
      then obtain d where "m k n = Some d" by auto
      then obtain a k' n' where "a \<in> A" "payload hp a = Some (k', n', d)" "cmp k' n' k n = 0"
        using maps_toD [OF mt v] by blast
      then show False using r(2) None by (auto simp: kmatch_def)
    qed
    then show thesis using that [OF r(1) pow] r(2) None by simp
  next
    case (Some a)
    then obtain E where E: "hp a = Some E" "cmp (hpKey E) (hnKey E) k n = 0"
      using r(2) by (auto simp: kmatch_def payload_def split: option.splits)
    have "payload hp a = Some (hpKey E, hnKey E, hdata E)" using E(1) by (rule payload_Some)
    then have "m k n = Some (hdata E)" using maps_toD [OF mt v] E(2) Some r(2) by auto
    then show thesis using that [OF r(1) pow] Some E r(2) htn by simp
  qed
qed

lemma find_refines:
  assumes "hash_rep xh cmp valid kc s m" "valid k n"
  shows "sqlite3HashFind k n s = Some (m k n)"
proof -
  obtain hp H where s: "s = (hp, H)" by (cases s)
  from assms(1) obtain A where A: "keyClass H = kc" "structure_ok xh hp H A" "keys_ok cmp valid hp A" "maps_to cmp valid hp A m"
    unfolding hash_rep_def s by auto
  from find_element [OF A(2-4,1) assms(2)] obtain r where
    r: "findElementGivenHash k n (bucket (xh k n) (htsize H)) (hp, H) = Some r" "(htsize H AND (htsize H - 1)) = 0"
     "case r of None \<Rightarrow> m k n = None \<and> (\<forall>a \<in> A. \<not> kmatch cmp hp k n a)
      | Some a \<Rightarrow> a \<in> A \<and> (\<exists>E. hp a = Some E \<and> m k n = Some (hdata E) \<and> cmp (hpKey E) (hnKey E) k n = 0 \<and> ht H \<noteq> None)" .
  show ?thesis
  proof (cases "ht H = None")
    case True
    then have "r = None" using r(3) by (cases r) auto
    then show ?thesis using True r(3) by (simp add: s sqlite3HashFind_def)
  next
    case False
    then show ?thesis using r hash_fun A(1) by (cases r) (auto simp: s sqlite3HashFind_def)
  qed
qed

lemma upd_absent:
  assumes ks: "keys_ok cmp valid hp A" and mt: "maps_to cmp valid hp A m" and v: "valid k n"
    and no: "\<forall>a \<in> A. \<not> kmatch cmp hp k n a"
  shows "maps_to cmp valid hp A (map_upd cmp k n None m)"
  unfolding maps_to_def
proof (intro allI impI)
  fix k1 n1 d assume v1: "valid k1 n1"
  show "map_upd cmp k n None m k1 n1 = Some d \<longleftrightarrow>
    (\<exists>a \<in> A. \<exists>k' n'. payload hp a = Some (k', n', d) \<and> cmp k' n' k1 n1 = 0)"
  proof (cases "cmp k n k1 n1 = 0")
    case True
    have "cmp k' n' k1 n1 \<noteq> 0" if "a \<in> A" "payload hp a = Some (k', n', d)" for a k' n'
      using no that cmp_cong [OF element_valid [OF ks that] v v1 True] by (auto simp: kmatch_def)
    then show ?thesis using True by (auto simp: map_upd_def)
  next
    case False then show ?thesis using maps_toD [OF mt v1] by (simp add: map_upd_def)
  qed
qed

text \<open>New data for an element that is there.\<close>

lemma upd_present:
  assumes ks: "keys_ok cmp valid hp A" and mt: "maps_to cmp valid hp A m" and v: "valid k n"
    and a: "a \<in> A" "payload hp a = Some (k0, n0, d0)" "cmp k0 n0 k n = 0"
    and hp': "payload hp' a = Some (k0, n0, d')" "\<And>c. c \<noteq> a \<Longrightarrow> payload hp' c = payload hp c"
  shows "keys_ok cmp valid hp' A" "maps_to cmp valid hp' A (map_upd cmp k n (Some d') m)"
proof -
  have key: "\<exists>d'. payload hp c = Some (k1, n1, d')" if "payload hp' c = Some (k1, n1, d)" for c k1 n1 d
    using that hp' a(2) by (cases "c = a") auto
  have km: "kmatch cmp hp' k1 n1 c = kmatch cmp hp k1 n1 c" for k1 n1 c
    using hp' a(2) by (cases "c = a") (auto simp: kmatch_def)
  show "keys_ok cmp valid hp' A"
    unfolding keys_ok_def km
  proof (intro conjI ballI allI impI)
    fix c assume "c \<in> A"
    then obtain k1 n1 d where "payload hp c = Some (k1, n1, d)" "valid k1 n1" using ks unfolding keys_ok_def by blast
    then show "\<exists>k n d. payload hp' c = Some (k, n, d) \<and> valid k n" using hp' a(2) by (cases "c = a") auto
  next
    fix c b k1 n1 d assume "c \<in> A" "b \<in> A" "payload hp' c = Some (k1, n1, d)" "kmatch cmp hp k1 n1 b"
    then show "b = c" using ks key unfolding keys_ok_def by blast
  qed
  have v0: "valid k0 n0" using element_valid [OF ks a(1,2)] .
  show "maps_to cmp valid hp' A (map_upd cmp k n (Some d') m)"
    unfolding maps_to_def
  proof (intro allI impI)
    fix k1 n1 d assume v1: "valid k1 n1"
    show "map_upd cmp k n (Some d') m k1 n1 = Some d \<longleftrightarrow>
      (\<exists>c \<in> A. \<exists>k' n'. payload hp' c = Some (k', n', d) \<and> cmp k' n' k1 n1 = 0)"
    proof (cases "cmp k n k1 n1 = 0")
      case True
      have one: "c = a" if "c \<in> A" "payload hp' c = Some (k', n', d)" "cmp k' n' k1 n1 = 0" for c k' n' d
      proof -
        from key [OF that(2)] obtain e where e: "payload hp c = Some (k', n', e)" by blast
        have vc: "valid k' n'" using element_valid [OF ks that(1) e] .
        have "cmp k' n' k n = 0" using cmp_cong [OF vc v v1 True] that(3) by blast
        then have "cmp k' n' k0 n0 = 0" using cmp_cong [OF vc v0 v a(3)] by blast
        then have "kmatch cmp hp k0 n0 c" using e by (simp add: kmatch_def)
        then show "c = a" using ks a(1,2) that(1) unfolding keys_ok_def by blast
      qed
      have "cmp k0 n0 k1 n1 = 0" using trans [OF v0 v v1 a(3) True] .
      then have "(\<exists>c \<in> A. \<exists>k' n'. payload hp' c = Some (k', n', d) \<and> cmp k' n' k1 n1 = 0) \<longleftrightarrow> d = d'"
        using one a(1) hp'(1) by fastforce
      then show ?thesis using True by (auto simp: map_upd_def)
    next
      case False
      have na: "cmp k0 n0 k1 n1 \<noteq> 0"
      proof
        assume "cmp k0 n0 k1 n1 = 0"
        then have "cmp k n k1 n1 = 0" using cmp_cong [OF v v0 v1] cmp_sym [OF v v0] a(3) by blast
        then show False using False by simp
      qed
      have "(\<exists>c \<in> A. \<exists>k' n'. payload hp' c = Some (k', n', d) \<and> cmp k' n' k1 n1 = 0) \<longleftrightarrow>
         (\<exists>c \<in> A. \<exists>k' n'. payload hp c = Some (k', n', d) \<and> cmp k' n' k1 n1 = 0)"
        using hp' a(2) na by (metis option.inject prod.inject)
      then show ?thesis using False maps_toD [OF mt v1] by (simp add: map_upd_def)
    qed
  qed
qed

text \<open>Without one of the elements.\<close>

lemma upd_removed:
  assumes ks: "keys_ok cmp valid hp A" and mt: "maps_to cmp valid hp A m" and v: "valid k n"
    and a: "a \<in> A" "payload hp a = Some (k0, n0, d0)" "cmp k0 n0 k n = 0"
    and hp': "\<And>c. c \<noteq> a \<Longrightarrow> payload hp' c = payload hp c"
  shows "keys_ok cmp valid hp' (A - {a})" "maps_to cmp valid hp' (A - {a}) (map_upd cmp k n None m)"
proof -
  have km: "kmatch cmp hp' k1 n1 c = kmatch cmp hp k1 n1 c" if "c \<noteq> a" for k1 n1 c
    using hp' [OF that] by (simp add: kmatch_def)
  show "keys_ok cmp valid hp' (A - {a})"
    unfolding keys_ok_def
  proof (intro conjI ballI allI impI)
    fix c assume c: "c \<in> A - {a}"
    then show "\<exists>k n d. payload hp' c = Some (k, n, d) \<and> valid k n" using ks hp' [of c] unfolding keys_ok_def by auto
  next
    fix c b k1 n1 d assume "c \<in> A - {a}" "b \<in> A - {a}" "payload hp' c = Some (k1, n1, d)" "kmatch cmp hp' k1 n1 b"
    then show "b = c" using ks hp' [of c] km [of b] unfolding keys_ok_def by auto
  qed
  have v0: "valid k0 n0" using element_valid [OF ks a(1,2)] .
  show "maps_to cmp valid hp' (A - {a}) (map_upd cmp k n None m)"
    unfolding maps_to_def
  proof (intro allI impI)
    fix k1 n1 d assume v1: "valid k1 n1"
    have eq: "(\<exists>c \<in> A - {a}. \<exists>k' n'. payload hp' c = Some (k', n', d) \<and> cmp k' n' k1 n1 = 0) \<longleftrightarrow>
        (\<exists>c \<in> A. c \<noteq> a \<and> (\<exists>k' n'. payload hp c = Some (k', n', d) \<and> cmp k' n' k1 n1 = 0))"
      using hp' by (metis Diff_iff empty_iff insert_iff)
    show "map_upd cmp k n None m k1 n1 = Some d \<longleftrightarrow>
      (\<exists>c \<in> A - {a}. \<exists>k' n'. payload hp' c = Some (k', n', d) \<and> cmp k' n' k1 n1 = 0)"
    proof (cases "cmp k n k1 n1 = 0")
      case True
      have "c = a" if "c \<in> A" "payload hp c = Some (k', n', d)" "cmp k' n' k1 n1 = 0" for c k' n'
      proof -
        have vc: "valid k' n'" using element_valid [OF ks that(1,2)] .
        have "cmp k' n' k n = 0" using cmp_cong [OF vc v v1 True] that(3) by blast
        then have "cmp k' n' k0 n0 = 0" using cmp_cong [OF vc v0 v a(3)] by blast
        then have "kmatch cmp hp k0 n0 c" using that(2) by (simp add: kmatch_def)
        then show "c = a" using ks a(1,2) that(1) unfolding keys_ok_def by blast
      qed
      then show ?thesis using True unfolding eq by (auto simp: map_upd_def)
    next
      case False
      have na: "cmp k0 n0 k1 n1 \<noteq> 0"
      proof
        assume "cmp k0 n0 k1 n1 = 0"
        then have "cmp k n k1 n1 = 0" using cmp_cong [OF v v0 v1] cmp_sym [OF v v0] a(3) by blast
        then show False using False by simp
      qed
      have "(\<exists>c \<in> A. c \<noteq> a \<and> (\<exists>k' n'. payload hp c = Some (k', n', d) \<and> cmp k' n' k1 n1 = 0)) \<longleftrightarrow>
         (\<exists>c \<in> A. \<exists>k' n'. payload hp c = Some (k', n', d) \<and> cmp k' n' k1 n1 = 0)"
        using a(2) na by (metis option.inject prod.inject)
      then show ?thesis using False maps_toD [OF mt v1] unfolding eq by (simp add: map_upd_def)
    qed
  qed
qed

end

context key_class
begin

text \<open>A new element.\<close>

lemma upd_added:
  assumes ks: "keys_ok cmp valid hp A" and mt: "maps_to cmp valid hp A m" and v: "valid k n"
    and no: "\<forall>a \<in> A. \<not> kmatch cmp hp k n a" and a: "a \<notin> A"
    and k0: "valid k0 n" "cmp k0 n k n = 0" "payload hp' a = Some (k0, n, d')"
    and hp': "\<And>c. c \<noteq> a \<Longrightarrow> payload hp' c = payload hp c"
  shows "keys_ok cmp valid hp' (insert a A)" "maps_to cmp valid hp' (insert a A) (map_upd cmp k n (Some d') m)"
proof -
  have km: "kmatch cmp hp' k1 n1 c = kmatch cmp hp k1 n1 c" if "c \<noteq> a" for k1 n1 c
    using hp' [OF that] by (simp add: kmatch_def)
  have old: "cmp k' n' k n \<noteq> 0" if "c \<in> A" "payload hp c = Some (k', n', e)" for c k' n' e
    using no that by (auto simp: kmatch_def)
  have pA: "payload hp' c = payload hp c" if "c \<in> A" for c by (rule hp') (use that a in auto)
  show "keys_ok cmp valid hp' (insert a A)"
    unfolding keys_ok_def
  proof (intro conjI ballI allI impI)
    fix c assume "c \<in> insert a A"
    then show "\<exists>k n d. payload hp' c = Some (k, n, d) \<and> valid k n"
      using k0 ks pA unfolding keys_ok_def by (cases "c = a") auto
  next
    fix c b k1 n1 d
    assume c: "c \<in> insert a A" "b \<in> insert a A" "payload hp' c = Some (k1, n1, d)" "kmatch cmp hp' k1 n1 b"
    consider "c = a" "b = a" | "c = a" "b \<in> A" | "c \<in> A" "b = a" | "c \<in> A" "b \<in> A" using c by auto
    then show "b = c"
    proof cases
      case 2
      then obtain k' n' e where b: "payload hp b = Some (k', n', e)" "valid k' n'" using ks unfolding keys_ok_def by blast
      have "cmp k' n' k0 n = 0" using c(3,4) b(1) 2 k0(3) pA by (simp add: kmatch_def)
      then have "cmp k' n' k n = 0" using trans [OF b(2) k0(1) v _ k0(2)] by blast
      then show ?thesis using old 2 b(1) by blast
    next
      case 3
      then have p: "payload hp c = Some (k1, n1, d)" using c(3) pA by simp
      have vc: "valid k1 n1" using element_valid [OF ks 3(1) p] .
      have "cmp k0 n k1 n1 = 0" using c(4) 3 k0(3) by (simp add: kmatch_def)
      then have "cmp k1 n1 k0 n = 0" using cmp_sym [OF vc k0(1)] by blast
      then have "cmp k1 n1 k n = 0" using trans [OF vc k0(1) v _ k0(2)] by blast
      then show ?thesis using old 3 p by blast
    next
      case 4
      then have "kmatch cmp hp k1 n1 b" "payload hp c = Some (k1, n1, d)" using c a km pA by metis+
      then show ?thesis using ks 4 unfolding keys_ok_def by blast
    qed simp
  qed
  show "maps_to cmp valid hp' (insert a A) (map_upd cmp k n (Some d') m)"
    unfolding maps_to_def
  proof (intro allI impI)
    fix k1 n1 d assume v1: "valid k1 n1"
    have eq: "(\<exists>c \<in> insert a A. \<exists>k' n'. payload hp' c = Some (k', n', d) \<and> cmp k' n' k1 n1 = 0) \<longleftrightarrow>
       (d = d' \<and> cmp k0 n k1 n1 = 0) \<or> (\<exists>c \<in> A. \<exists>k' n'. payload hp c = Some (k', n', d) \<and> cmp k' n' k1 n1 = 0)"
      using k0(3) pA by auto
    have k01: "cmp k0 n k1 n1 = 0 \<longleftrightarrow> cmp k n k1 n1 = 0"
      using cmp_cong [OF v1 k0(1) v k0(2)] cmp_sym [OF v1 k0(1)] cmp_sym [OF v1 v] by blast
    show "map_upd cmp k n (Some d') m k1 n1 = Some d \<longleftrightarrow>
      (\<exists>c \<in> insert a A. \<exists>k' n'. payload hp' c = Some (k', n', d) \<and> cmp k' n' k1 n1 = 0)"
    proof (cases "cmp k n k1 n1 = 0")
      case True
      have "cmp k' n' k1 n1 \<noteq> 0" if "c \<in> A" "payload hp c = Some (k', n', e)" for c k' n' e
        using old [OF that] cmp_cong [OF element_valid [OF ks that] v v1 True] by blast
      then show ?thesis unfolding eq k01 using True by (auto simp: map_upd_def)
    next
      case False
      then show ?thesis unfolding eq k01 using maps_toD [OF mt v1] by (simp add: map_upd_def)
    qed
  qed
qed

lemma filled_frame:
  "filled xh hp H A \<Longrightarrow> (\<And>c. c \<in> A \<Longrightarrow> hp' c = hp c) \<Longrightarrow> hfirst H' = hfirst H \<Longrightarrow> ht H' = ht H \<Longrightarrow> htsize H' = htsize H \<Longrightarrow>
   filled xh hp' H' A"
proof -
  assume f: "filled xh hp H A" and fr: "\<And>c. c \<in> A \<Longrightarrow> hp' c = hp c" and H': "hfirst H' = hfirst H" "ht H' = ht H" "htsize H' = htsize H"
  from f obtain bl j t where fl: "linked hp H bl" "hashed xh hp (2 ^ j) bl" "htsize H = 2 ^ j" "ht H = Some t"
    "length t = 2 ^ j" "set (members bl) = A" unfolding filled_def by blast
  have "dll hp' None (members bl) None" using fl(1,6) fr by (subst dll_frame [of _ _ hp]) (auto simp: linked_def)
  then have "linked hp' H' bl" using fl(1) H' by (simp add: linked_def)
  moreover have "hashed xh hp' (2 ^ j) bl"
  proof -
    have "payload hp' c = payload hp c" if "(b, as) \<in> set bl" "c \<in> set as" for b as c
      using fr fl(6) members_entry [of c bl] that unfolding payload_def by fastforce
    then show ?thesis using fl(2) unfolding hashed_def by fastforce
  qed
  ultimately show ?thesis unfolding filled_def using fl H' by auto
qed

text \<open>Linking in a new element, with the growth of the table.\<close>

lemma add_refines:
  assumes st: "structure_ok xh hp H A" and ks: "keys_ok cmp valid hp A" and mt: "maps_to cmp valid hp A m"
    and kc: "keyClass H = kc" and v: "valid k n" and no: "\<forall>a \<in> A. \<not> kmatch cmp hp k n a" and fresh: "hp a = None"
  shows "\<exists>r s'. hash_add e a k n (xh k n) d (hp, H) = Some (r, s') \<and>
    (r = None \<and> hash_rep xh cmp valid kc s' (map_upd cmp k n (Some d) m) \<or>
     r = Some d \<and> \<not> ht_mem e \<and> hash_rep xh cmp valid kc s' m)"
proof -
  define k0 where "k0 = (if copyKey H then copy_key k n else k)"
  define hp0 where "hp0 = hp(a \<mapsto> \<lparr>hnext = None, hprev = None, hdata = d, hpKey = k0, hnKey = n\<rparr>)"
  define H0 where "H0 = H\<lparr>hnum := hnum H + 1\<rparr>"
  have aA: "a \<notin> A" using ks fresh unfolding keys_ok_def by (auto simp: payload_def)
  have k0v: "valid k0 n" "cmp k0 n k n = 0" using copy_valid copy_eq refl v by (auto simp: k0_def)
  have pa: "payload hp0 a = Some (k0, n, d)" by (simp add: hp0_def)
  have po: "c \<noteq> a \<Longrightarrow> payload hp0 c = payload hp c" for c by (simp add: hp0_def)
  have xk: "xh k0 n = xh k n" using hash_eq [OF k0v(1) v k0v(2)] .
  have fin: "finite A" and num: "hnum H = int (card A)" using st by (auto simp: structure_ok_def)
  \<comment> \<open>after the growth steps the element goes into a table that holds the others\<close>
  have finish: ?thesis
    if code: "hash_add e a k n (xh k n) d (hp, H) =
        (if \<not> htsize H2 > 0 \<or> (htsize H2 AND (htsize H2 - 1)) \<noteq> 0 then None
         else map_option (\<lambda>s'. (None, s')) (insertElement (bucket (xh k n) (htsize H2)) a (hp2, H2)))"
      and f: "filled xh hp2 H2 A" and p2: "payload hp2 = payload hp0" and n2: "hnum H2 = int (card A) + 1"
      and c2: "keyClass H2 = kc" for hp2 H2
  proof -
    obtain j where j: "htsize H2 = 2 ^ j" using f unfolding filled_def by blast
    have "hp2 a \<noteq> None" using pa p2 by (metis payload_def option.map_disc_iff option.distinct(1))
    from filled_insert [OF f this aA, of k0 n d] nonneg pa p2 xk obtain hp3 H3 where
      i: "insertElement (bucket (xh k n) (htsize H2)) a (hp2, H2) = Some (hp3, H3)" "filled xh hp3 H3 (insert a A)"
      "payload hp3 = payload hp2" "keyClass H3 = keyClass H2" "hnum H3 = hnum H2" by auto
    have st3: "structure_ok xh hp3 H3 (insert a A)"
      using i fin aA n2 by (simp add: structure_ok_def)
    have "payload hp3 = payload hp0" using i(3) p2 by simp
    then have "keys_ok cmp valid hp3 (insert a A)" "maps_to cmp valid hp3 (insert a A) (map_upd cmp k n (Some d) m)"
      using upd_added [OF ks mt v no aA k0v] pa po by auto
    then have "hash_rep xh cmp valid kc (hp3, H3) (map_upd cmp k n (Some d) m)"
      unfolding hash_rep_def using st3 i(4) c2 by auto
    then show ?thesis using code i(1) j by auto
  qed
  have code: "hash_add e a k n (xh k n) d (hp, H) = do {
        (hp, H) \<leftarrow> (if htsize H0 = 0 then rehash (ht_mem e) 8 (hp0, H0) else Some (hp0, H0));
        if htsize H = 0 then Some (Some d, hp(a := None), H\<lparr>hnum := 0\<rparr>)
        else do {
          (hp, H) \<leftarrow> (if hnum H > htsize H then rehash (ht_mem2 e) (htsize H * 2) (hp, H) else Some (hp, H));
          (if \<not> htsize H > 0 \<or> (htsize H AND (htsize H - 1)) \<noteq> 0 then None else do {
            s' \<leftarrow> insertElement (bucket (xh k n) (htsize H)) a (hp, H);
            Some (None, s') }) } }"
    unfolding hash_add_def Let_def prod.case k0_def [symmetric] hp0_def [symmetric] H0_def [symmetric] ..
  have bindmap: "do { s' \<leftarrow> t; Some (None, s') } = map_option (\<lambda>s'. (None, s')) t" for t :: "(heap \<times> Hash) option"
    by (cases t) auto
  have xf: "hashFunction (keyClass H0) = Some xh" using hash_fun kc by (simp add: H0_def)
  show ?thesis
  proof (cases "A = {}")
    case True
    then have emp: "ht H = None" "htsize H = 0" "hfirst H = None" using st by (auto simp: structure_ok_def)
    show ?thesis
    proof (cases "ht_mem e")
      case False
      have "hash_add e a k n (xh k n) d (hp, H) = Some (Some d, hp0(a := None), H0\<lparr>hnum := 0\<rparr>)"
        unfolding code using emp False by (simp add: H0_def rehash_def)
      moreover have "hp0(a := None) = hp" using fresh by (auto simp: hp0_def)
      moreover have "H0\<lparr>hnum := 0\<rparr> = H" using num True by (simp add: H0_def)
      moreover have "hash_rep xh cmp valid kc (hp, H) m" unfolding hash_rep_def using st ks mt kc by auto
      ultimately show ?thesis using False by auto
    next
      case room: True
      have "\<exists>hp' H'. rehash True (2 ^ 3) (hp0, H0) = Some (hp', H') \<and> filled xh hp' H' (set []) \<and> payload hp' = payload hp0 \<and>
        keyClass H' = keyClass H0 \<and> copyKey H' = copyKey H0 \<and> hnum H' = hnum H0 \<and> htsize H' = 2 ^ 3 \<and>
        (\<forall>a. a \<notin> set [] \<longrightarrow> hp' a = hp0 a)"
        by (rule rehash_fresh) (use emp xf nonneg in \<open>auto simp: H0_def\<close>)
      then obtain hp' H' where r: "rehash True 8 (hp0, H0) = Some (hp', H')" "filled xh hp' H' A" "payload hp' = payload hp0"
        "keyClass H' = kc" "hnum H' = 1" "htsize H' = 8" using True num kc by (auto simp: H0_def)
      show ?thesis
        by (rule finish [OF _ r(2,3)]) (use r room emp True in \<open>simp_all add: code H0_def bindmap\<close>)
    qed
  next
    case False
    then have f: "filled xh hp H A" using st by (simp add: structure_ok_def)
    have f0: "filled xh hp0 H0 A"
      by (rule filled_frame [OF f]) (use aA in \<open>auto simp: hp0_def H0_def\<close>)
    obtain j where j: "htsize H0 = 2 ^ j" using f0 unfolding filled_def by blast
    then have j0: "htsize H = 2 ^ j" by (simp add: H0_def)
    show ?thesis
    proof (cases "hnum H0 > htsize H0 \<and> ht_mem2 e")
      case False
      then have "(if hnum H0 > htsize H0 then rehash (ht_mem2 e) (htsize H0 * 2) (hp0, H0) else Some (hp0, H0)) = Some (hp0, H0)"
        using pow2_test [of "Suc j"] j by (simp add: rehash_def mult.commute)
      then show ?thesis
        by (intro finish [OF _ f0]) (use j kc num in \<open>simp_all add: code bindmap, simp_all add: H0_def\<close>)
    next
      case True
      obtain rs where rs: "nexts hp0 rs" "distinct rs" "hfirst H0 = fst_of rs None" "set rs = A" using filled_chain [OF f0] .
      from rehash_fresh [OF rs(1-3) xf nonneg, of "Suc j"] obtain hp' H' where
        r: "rehash True (2 ^ Suc j) (hp0, H0) = Some (hp', H')" "filled xh hp' H' A" "payload hp' = payload hp0"
        "keyClass H' = keyClass H0" "hnum H' = hnum H0" "htsize H' = 2 ^ Suc j" using rs(4) by auto
      have two: "htsize H0 * 2 = 2 ^ Suc j" using j by simp
      have step: "(if hnum H0 > htsize H0 then rehash (ht_mem2 e) (htsize H0 * 2) (hp0, H0) else Some (hp0, H0)) = Some (hp', H')"
        using True r(1) unfolding two by simp
      show ?thesis
        by (rule finish [OF _ r(2,3)]) (use step j r kc num in \<open>simp_all add: code bindmap, simp_all add: H0_def\<close>)
    qed
  qed
qed

end

text \<open>The allocator returns addresses that are not in use.\<close>

definition fresh_mem :: "hash_env \<Rightarrow> heap \<Rightarrow> bool" where
  "fresh_mem e hp \<longleftrightarrow> (\<forall>a. elem_mem e = Some a \<longrightarrow> hp a = None)"

definition out_of_mem :: "hash_env \<Rightarrow> bool \<Rightarrow> bool" where
  "out_of_mem e copies \<longleftrightarrow> elem_mem e = None \<or> (copies \<and> \<not> key_mem e) \<or> \<not> ht_mem e"

text \<open>New data in one element.\<close>

lemma dll_data:
  "hp a = Some E \<Longrightarrow> dll (hp(a \<mapsto> E\<lparr>hdata := d\<rparr>)) p as n = dll hp p as n"
  by (induction as arbitrary: p) auto

lemma filled_data:
  assumes f: "filled xh hp H A" and a: "a \<in> A" "hp a = Some E"
  shows "filled xh (hp(a \<mapsto> E\<lparr>hdata := d\<rparr>)) H A"
proof -
  from f obtain bl j t where fl: "linked hp H bl" "hashed xh hp (2 ^ j) bl" "htsize H = 2 ^ j" "ht H = Some t"
    "length t = 2 ^ j" "set (members bl) = A" unfolding filled_def by blast
  have "linked (hp(a \<mapsto> E\<lparr>hdata := d\<rparr>)) H bl" using fl(1) dll_data [of hp a E, OF a(2)] by (simp add: linked_def)
  moreover have "hashed xh (hp(a \<mapsto> E\<lparr>hdata := d\<rparr>)) (2 ^ j) bl"
    unfolding hashed_def
  proof (intro ballI, clarify)
    fix b as c assume "(b, as) \<in> set bl" "c \<in> set as"
    then obtain k n e where "payload hp c = Some (k, n, e)" "bucket (xh k n) (2 ^ j) = b"
      using fl(2) unfolding hashed_def by fast
    then show "\<exists>k n e. payload (hp(a \<mapsto> E\<lparr>hdata := d\<rparr>)) c = Some (k, n, e) \<and> bucket (xh k n) (2 ^ j) = b"
      using a(2) by (cases "c = a") (auto simp: payload_def)
  qed
  ultimately show ?thesis unfolding filled_def using fl by blast
qed

context key_class
begin

lemma insert_refines:
  assumes rep: "hash_rep xh cmp valid kc s m" and v: "valid k n" and fr: "fresh_mem e (fst s)"
  shows "\<exists>r s'. sqlite3HashInsert e k n data s = Some (r, s') \<and>
    (r = m k n \<and> hash_rep xh cmp valid kc s' (map_upd cmp k n data m) \<or>
     r = data \<and> data \<noteq> None \<and> m k n = None \<and> out_of_mem e (copyKey (snd s)) \<and> hash_rep xh cmp valid kc s' m)"
proof -
  obtain hp H where s: "s = (hp, H)" by (cases s)
  from rep obtain A where kc: "keyClass H = kc" and st: "structure_ok xh hp H A" and ks: "keys_ok cmp valid hp A"
    and mt: "maps_to cmp valid hp A m" unfolding hash_rep_def s by auto
  obtain r0 where r0: "findElementGivenHash k n (bucket (xh k n) (htsize H)) (hp, H) = Some r0"
     "(htsize H AND (htsize H - 1)) = 0"
     "case r0 of None \<Rightarrow> m k n = None \<and> (\<forall>a \<in> A. \<not> kmatch cmp hp k n a)
      | Some a \<Rightarrow> a \<in> A \<and> (\<exists>E. hp a = Some E \<and> m k n = Some (hdata E) \<and> cmp (hpKey E) (hnKey E) k n = 0 \<and> ht H \<noteq> None)"
    using find_element [OF st ks mt kc v] .
  have xf: "hashFunction (keyClass H) = Some xh" using hash_fun kc by simp
  show ?thesis
  proof (cases r0)
    case None
    then have mk: "m k n = None" and no: "\<forall>a \<in> A. \<not> kmatch cmp hp k n a" using r0(3) by auto
    have same: "hash_rep xh cmp valid kc (hp, H) m" using rep s by simp
    show ?thesis
    proof (cases data)
      case None
      have "hash_rep xh cmp valid kc (hp, H) (map_upd cmp k n None m)"
        unfolding hash_rep_def using st ks kc upd_absent [OF ks mt v no] by auto
      then show ?thesis using \<open>r0 = None\<close> None r0 xf mk by (simp add: s sqlite3HashInsert_def)
    next
      case (Some d)
      show ?thesis
      proof (cases "elem_mem e = None \<or> copyKey H \<and> \<not> key_mem e")
        case True
        then show ?thesis using \<open>r0 = None\<close> Some r0 xf mk same
          by (auto simp: s sqlite3HashInsert_def out_of_mem_def split: option.splits)
      next
        case False
        then obtain a where a: "elem_mem e = Some a" "hp a = None" using fr s by (auto simp: fresh_mem_def)
        have "sqlite3HashInsert e k n data s = hash_add e a k n (xh k n) d (hp, H)"
          using \<open>r0 = None\<close> Some r0 xf a(1) False by (auto simp: s sqlite3HashInsert_def)
        with add_refines [OF st ks mt kc v no a(2), of e d] mk Some show ?thesis
          by (auto simp: out_of_mem_def)
      qed
    qed
  next
    case (Some a)
    then obtain E where E: "a \<in> A" "hp a = Some E" "m k n = Some (hdata E)" "cmp (hpKey E) (hnKey E) k n = 0"
      using r0(3) by auto
    have pa: "payload hp a = Some (hpKey E, hnKey E, hdata E)" using E(2) by (rule payload_Some)
    have f: "filled xh hp H A" and num: "hnum H = int (card A)" and fin: "finite A"
      using st E(1) by (auto simp: structure_ok_def split: if_splits)
    show ?thesis
    proof (cases data)
      case None
      have vk: "valid (hpKey E) (hnKey E)" using element_valid [OF ks E(1) pa] .
      have xk: "xh (hpKey E) (hnKey E) = xh k n" using hash_eq [OF vk v E(4)] .
      obtain hp' H' where rm: "removeElementGivenHash a (bucket (xh k n) (htsize H)) (hp, H) = Some (hp', H')"
        "keyClass H' = keyClass H" "hnum H' = int (card (A - {a}))"
        "if A - {a} = {} then ht H' = None \<and> htsize H' = 0 \<and> hfirst H' = None else filled xh hp' H' (A - {a})"
        "\<forall>c. c \<noteq> a \<longrightarrow> payload hp' c = payload hp c"
        using filled_remove [OF f E(1) pa num] unfolding xk by blast
      have st': "structure_ok xh hp' H' (A - {a})" using rm fin by (auto simp: structure_ok_def)
      have "hash_rep xh cmp valid kc (hp', H') (map_upd cmp k n None m)"
        unfolding hash_rep_def using st' rm(2) kc upd_removed [OF ks mt v E(1) pa E(4), of hp'] rm(5) by auto
      then show ?thesis using Some None r0 xf E(2,3) rm(1) by (simp add: s sqlite3HashInsert_def)
    next
      case (Some d)
      define hp' where "hp' = hp(a \<mapsto> E\<lparr>hdata := d\<rparr>)"
      have p': "payload hp' a = Some (hpKey E, hnKey E, d)" "c \<noteq> a \<Longrightarrow> payload hp' c = payload hp c" for c
        by (simp_all add: hp'_def payload_def)
      have fl: "filled xh hp' H A" using filled_data [OF f E(1,2), of d] by (simp add: hp'_def)
      have "structure_ok xh hp' H A" using st fl E(1) by (auto simp: structure_ok_def)
      then have "hash_rep xh cmp valid kc (hp', H) (map_upd cmp k n (Some d) m)"
        unfolding hash_rep_def using kc upd_present [OF ks mt v E(1) pa E(4) p'] by auto
      then show ?thesis using \<open>r0 = Some a\<close> Some r0 xf E(2,3) by (simp add: s sqlite3HashInsert_def hp'_def)
    qed
  qed
qed

end

subsection \<open>The two classes of keys\<close>

text \<open>A string key is its text with or without the terminator; a binary key is bytes of memory.\<close>

definition str_key :: "bytes \<Rightarrow> int \<Rightarrow> bool" where
  "str_key k n \<longleftrightarrow> 0 < n \<and> n \<le> int (length (str_of k)) + 1"

definition bin_key :: "bytes \<Rightarrow> int \<Rightarrow> bool" where
  "bin_key k n \<longleftrightarrow> 0 \<le> n \<and> n \<le> int (length k)"

lemma cat_tl: "cat (tl z) i = cat z (Suc i)"
  by (cases z) auto

lemma memcmp_0_iff: "memcmp a b n = 0 \<longleftrightarrow> (\<forall>i < n. cat a i = cat b i)"
proof (induction a b n rule: memcmp.induct)
  case (2 a b n)
  then show ?case by (auto simp: cdiff_def cat_tl less_Suc_eq_0_disj)
qed simp

lemma cat_copy: "i < nat n \<Longrightarrow> cat (copy_key k n) i = cat k i"
  by (simp add: copy_key_def cat_def)

lemma binHash_loop_cong:
  "(\<And>j. i \<le> j \<Longrightarrow> j < i + n \<Longrightarrow> cat a j = cat b j) \<Longrightarrow> binHash_loop a i n h = binHash_loop b i n h"
  by (induction a i n h rule: binHash_loop.induct) auto

lemma strHash_loop_cong:
  "(\<And>j. i \<le> j \<Longrightarrow> j < i + n \<Longrightarrow> UpperToLower (cat a j) = UpperToLower (cat b j)) \<Longrightarrow>
   strHash_loop a i n h = strHash_loop b i n h"
  by (induction a i n h rule: strHash_loop.induct) auto

lemma cat_str_of: "i \<le> length (str_of k) \<Longrightarrow> cat k i = cat (str_of k) i"
proof -
  assume i: "i \<le> length (str_of k)"
  have le: "length (str_of k) \<le> length k" by (simp add: str_of_def length_takeWhile_le)
  show ?thesis
  proof (cases "i = length (str_of k)")
    case True
    then show ?thesis using nth_length_takeWhile [of "\<lambda>c. c \<noteq> 0" k] by (auto simp: cat_def str_of_def)
  next
    case False
    then have "i < length (str_of k)" using i by simp
    then show ?thesis using le by (simp add: cat_def str_of_def takeWhile_nth)
  qed
qed

lemma nul_free_str_of [simp]: "nul_free (str_of k)"
  by (auto simp: nul_free_def str_of_def dest: set_takeWhileD)

text \<open>The first \<open>n\<close> bytes of a string key, folded to lower case.\<close>

definition folded :: "bytes \<Rightarrow> int \<Rightarrow> bytes" where
  "folded k n = map (\<lambda>i. UpperToLower (cat k i)) [0..<nat n]"

lemma padded_eq:
  assumes "0 \<notin> set x" "0 \<notin> set y" "length x = min n a" "length y = min n b"
  shows "x @ (if n \<le> a then [] else [0]) = y @ (if n \<le> b then [] else [0 :: u8]) \<longleftrightarrow> x = y"
proof -
  have z: "u @ [0] \<noteq> v" if "0 \<notin> set v" for u v :: bytes using that by auto
  show ?thesis
    using assms z [of y x] z [of x y] by (cases "n \<le> a"; cases "n \<le> b") (auto simp: z [symmetric])
qed

lemma strCompare_iff:
  assumes "str_key k1 n1" "str_key k2 n2"
  shows "strCompare k1 n1 k2 n2 = 0 \<longleftrightarrow> n1 = n2 \<and> folded k1 n1 = folded k2 n2"
proof (cases "n1 = n2")
  case True
  have red: "folded k n = map UpperToLower (take (nat n) (str_of k)) @ (if nat n \<le> length (str_of k) then [] else [0])"
    if "str_key k n" for k n
  proof (rule nth_equalityI)
    show "length (folded k n) = length (map UpperToLower (take (nat n) (str_of k)) @ (if nat n \<le> length (str_of k) then [] else [0]))"
      using that by (auto simp: folded_def str_key_def)
    fix i assume "i < length (folded k n)"
    then have i: "i < nat n" "i \<le> length (str_of k)" using that by (auto simp: folded_def str_key_def)
    have "folded k n ! i = UpperToLower (cat (str_of k) i)" using i cat_str_of by (simp add: folded_def)
    then show "folded k n ! i = (map UpperToLower (take (nat n) (str_of k)) @ (if nat n \<le> length (str_of k) then [] else [0])) ! i"
      using i by (auto simp: nth_append cat_def)
  qed
  have "strCompare k1 n1 k2 n2 = 0 \<longleftrightarrow>
     map UpperToLower (take (nat n1) (str_of k1)) = map UpperToLower (take (nat n1) (str_of k2))"
    using True by (simp add: strCompare_def sqlite3StrNICmp_def StrNICmp_at_eq)
  also have "\<dots> \<longleftrightarrow> folded k1 n1 = folded k2 n2" (is "?x = ?y \<longleftrightarrow> _")
  proof -
    define x where "x = map UpperToLower (take (nat n1) (str_of k1))"
    define y where "y = map UpperToLower (take (nat n1) (str_of k2))"
    have f: "folded k1 n1 = x @ (if nat n1 \<le> length (str_of k1) then [] else [0])"
      "folded k2 n2 = y @ (if nat n1 \<le> length (str_of k2) then [] else [0])"
      using red assms True by (auto simp: x_def y_def)
    have "folded k1 n1 = folded k2 n2 \<longleftrightarrow> x = y"
      unfolding f
    proof (rule padded_eq)
      have "nul_free x" "nul_free y" by (simp_all add: x_def y_def)
      then show "0 \<notin> set x" "0 \<notin> set y" unfolding nul_free_def by blast+
    qed (simp_all add: x_def y_def min.commute)
    then show ?thesis unfolding x_def y_def by blast
  qed
  finally show ?thesis using True by simp
qed (simp add: strCompare_def)

lemma folded_hash: "0 < n \<Longrightarrow> folded k1 n = folded k2 n \<Longrightarrow> strHash k1 n = strHash k2 n"
proof -
  assume n: "0 < n" and f: "folded k1 n = folded k2 n"
  have "strHash_loop k1 0 (nat n) 0 = strHash_loop k2 0 (nat n) 0"
    by (rule strHash_loop_cong) (use f in \<open>auto simp: folded_def\<close>)
  then show ?thesis using n by (simp add: strHash_def)
qed

lemma folded_copy: "folded (copy_key k n) n = folded k n"
  by (simp add: folded_def cat_copy)

lemma str_key_copy: "str_key k n \<Longrightarrow> str_key (copy_key k n) n"
proof -
  assume k: "str_key k n"
  have "nat n - 1 \<le> length (str_of (copy_key k n))"
  proof (rule ccontr)
    define i where "i = length (str_of (copy_key k n))"
    assume "\<not> nat n - 1 \<le> length (str_of (copy_key k n))"
    then have i: "i < nat n - 1" by (simp add: i_def)
    then have "cat (copy_key k n) i = 0" using cat_str_of [of i "copy_key k n"] by (simp add: i_def cat_def)
    then have "cat k i = 0" using cat_copy [of i n k] i by simp
    then have "cat (str_of k) i = 0" using cat_str_of [of i k] i k by (auto simp: str_key_def)
    moreover have "i < length (str_of k)" using i k by (auto simp: str_key_def)
    ultimately show False using nul_free_str_of [of k] by (auto simp: nul_free_def cat_def dest: nth_mem)
  qed
  then show ?thesis using k by (auto simp: str_key_def)
qed

interpretation strings: key_class SQLITE_HASH_STRING strHash strCompare str_key
proof unfold_locales
  fix k n assume k: "str_key k n"
  show "strCompare k n k n = 0" using k by (simp add: strCompare_iff)
  show "str_key (copy_key k n) n" using k by (rule str_key_copy)
  show "strCompare (copy_key k n) n k n = 0" using k by (simp add: strCompare_iff str_key_copy folded_copy)
next
  fix k n k' n' assume a: "str_key k n" "str_key k' n'" "strCompare k n k' n' = 0"
  show "strCompare k' n' k n = 0" unfolding strCompare_iff [OF a(2,1)] using a(3) [unfolded strCompare_iff [OF a(1,2)]] by auto
  have "n = n'" "folded k n = folded k' n'" using a(3) strCompare_iff [OF a(1,2)] by blast+
  then show "strHash k n = strHash k' n'" using a(1) folded_hash [of n k k'] by (auto simp: str_key_def)
next
  fix k n k' n' k'' n'' assume "str_key k n" "str_key k' n'" "str_key k'' n''" "strCompare k n k' n' = 0" "strCompare k' n' k'' n'' = 0"
  then show "strCompare k n k'' n'' = 0" by (auto simp: strCompare_iff)
qed (simp_all add: hashFunction_def compareFunction_def strHash_def)

lemma binHash_cong: "\<forall>i < nat n. cat a i = cat b i \<Longrightarrow> binHash a n = binHash b n"
  using binHash_loop_cong [of 0 "nat n" a b] by (simp add: binHash_def)

interpretation blobs: key_class SQLITE_HASH_BINARY binHash binCompare bin_key
proof unfold_locales
  fix k n k' n' assume "binCompare k n k' n' = 0"
  then show "binCompare k' n' k n = 0" "binHash k n = binHash k' n'"
    using binHash_cong by (auto simp: binCompare_def memcmp_0_iff split: if_splits)
next
  fix k n assume "bin_key k n"
  then show "bin_key (copy_key k n) n" by (simp add: bin_key_def copy_key_def)
qed (auto simp: binCompare_def memcmp_0_iff cat_copy hashFunction_def compareFunction_def binHash_def split: if_splits)

subsection \<open>Clearing and creating a table\<close>

lemma hash_rep_empty:
  "sqlite3HashInit kc ck = Some H \<Longrightarrow> hash_rep xh cmp valid kc (hp, H) (\<lambda>k n. None)"
  by (auto simp: sqlite3HashInit_def hash_rep_def structure_ok_def keys_ok_def maps_to_def split: if_splits intro!: exI [of _ "{}"])

lemma hash_rep_clear:
  assumes "hash_rep xh cmp valid kc s m"
  shows "\<exists>s'. sqlite3HashClear s = Some s' \<and> hash_rep xh cmp valid kc s' (\<lambda>k n. None)"
proof -
  obtain hp H where s: "s = (hp, H)" by (cases s)
  from assms obtain A where A: "keyClass H = kc" "structure_ok xh hp H A" unfolding hash_rep_def s by auto
  have "\<exists>rs. nexts hp rs \<and> distinct rs \<and> hfirst H = fst_of rs None"
  proof (cases "A = {}")
    case True
    then show ?thesis using A(2) by (intro exI [of _ "[]"]) (simp add: structure_ok_def)
  next
    case False
    then show ?thesis using A(2) filled_chain [of xh hp H A] by (auto simp: structure_ok_def)
  qed
  then obtain rs where "nexts hp rs" "distinct rs" "hfirst H = fst_of rs None" by blast
  then obtain hp' where "free_elems (hfirst H) hp = Some hp'" using free_elems_ok by metis
  then show ?thesis using A(1)
    by (auto simp: s sqlite3HashClear_def hash_rep_def structure_ok_def keys_ok_def maps_to_def intro!: exI [of _ "{}"])
qed

subsection \<open>Properties\<close>

text \<open>
  What a table of string keys (\<^verbatim>\<open>SQLITE_HASH_STRING\<close>) or of binary keys stands for: a map
  from keys to data pointers, on classes of equal keys.
\<close>

abbreviation str_table :: "heap \<times> Hash \<Rightarrow> (bytes \<Rightarrow> int \<Rightarrow> ptr option) \<Rightarrow> bool" where
  "str_table \<equiv> hash_rep strHash strCompare str_key SQLITE_HASH_STRING"

abbreviation bin_table :: "heap \<times> Hash \<Rightarrow> (bytes \<Rightarrow> int \<Rightarrow> ptr option) \<Rightarrow> bool" where
  "bin_table \<equiv> hash_rep binHash binCompare bin_key SQLITE_HASH_BINARY"

text \<open>
  \<bold>\<open>C15\<close> \<^verbatim>\<open>sqlite3HashInsert\<close> on a table of string keys refines the update of a finite
  map: it never follows a bad pointer or fails an \<^verbatim>\<open>assert\<close>, always ends, returns the data
  that was stored under the key (compared without case) and stores, replaces or (for NULL)
  deletes it, on every path including growth; when an allocation fails it returns the new
  data and the map is as before.
\<close>

theorem hash_insert_refines:
  assumes "str_table s m" "str_key k n" "fresh_mem e (fst s)"
  shows "\<exists>r s'. sqlite3HashInsert e k n data s = Some (r, s') \<and>
    (r = m k n \<and> str_table s' (map_upd strCompare k n data m) \<or>
     r = data \<and> data \<noteq> None \<and> m k n = None \<and> out_of_mem e (copyKey (snd s)) \<and> str_table s' m)"
  using strings.insert_refines [OF assms] .

text \<open>\<^verbatim>\<open>sqlite3HashFind\<close> reads the finite map that the table stands for.\<close>

lemma hash_find_refines:
  assumes "str_table s m" "str_key k n"
  shows "sqlite3HashFind k n s = Some (m k n)"
  using strings.find_refines [OF assms] .

text \<open>
  \<bold>\<open>C16\<close> The same contract for binary keys, from creation to lookup after an insertion and
  after \<^verbatim>\<open>sqlite3HashClear\<close>: a new table is empty, a stored pointer is found under its key and
  no other key, and clearing frees every element without touching a freed one.
\<close>

theorem hash_binary_life:
  assumes "bin_table s m" "bin_key k n" "bin_key k' n'" "fresh_mem e (fst s)" "\<not> out_of_mem e (copyKey (snd s))"
  shows "\<exists>s' s''. sqlite3HashInsert e k n (Some d) s = Some (m k n, s') \<and>
    sqlite3HashFind k' n' s' = Some (if n' = n \<and> (\<forall>i < nat n. cat k' i = cat k i) then Some d else m k' n') \<and>
    sqlite3HashClear s' = Some s'' \<and> sqlite3HashFind k' n' s'' = Some None"
proof -
  obtain r s' where i: "sqlite3HashInsert e k n (Some d) s = Some (r, s')" "r = m k n"
    "bin_table s' (map_upd binCompare k n (Some d) m)"
    using blobs.insert_refines [OF assms(1,2,4), of "Some d"] assms(5) by blast
  obtain s'' where c: "sqlite3HashClear s' = Some s''" "bin_table s'' (\<lambda>k n. None)"
    using hash_rep_clear [OF i(3)] by blast
  have "sqlite3HashFind k' n' s' = Some (map_upd binCompare k n (Some d) m k' n')"
    using blobs.find_refines [OF i(3) assms(3)] .
  moreover have "binCompare k n k' n' = 0 \<longleftrightarrow> n' = n \<and> (\<forall>i < nat n. cat k' i = cat k i)"
    by (auto simp: binCompare_def memcmp_0_iff)
  moreover have "sqlite3HashFind k' n' s'' = Some None" using blobs.find_refines [OF c(2) assms(3)] .
  ultimately show ?thesis using i(1,2) c(1) by (intro exI [of _ s'] exI [of _ s'']) (auto simp: map_upd_def)
qed

text \<open>The properties at work: an empty table, the key \<^verbatim>\<open>"ab"\<close>, and one allocation of each kind.\<close>

definition new_table :: "int \<Rightarrow> heap \<times> Hash" where
  "new_table kc = (Map.empty, \<lparr>keyClass = kc, copyKey = True, hnum = 0, hfirst = None, htsize = 0, ht = None\<rparr>)"

definition all_mem :: hash_env where
  "all_mem = \<lparr>elem_mem = Some 9, key_mem = True, ht_mem = True, ht_mem2 = True\<rparr>"

lemma new_table_rep:
  "hash_rep xh cmp valid SQLITE_HASH_STRING (new_table SQLITE_HASH_STRING) (\<lambda>k n. None)"
  "hash_rep xh cmp valid SQLITE_HASH_BINARY (new_table SQLITE_HASH_BINARY) (\<lambda>k n. None)"
  unfolding new_table_def
  by (rule hash_rep_empty, simp add: sqlite3HashInit_def)+

lemma all_mem_ok: "fresh_mem all_mem (fst (new_table kc))" "\<not> out_of_mem all_mem ck"
  by (simp_all add: fresh_mem_def all_mem_def new_table_def out_of_mem_def)

lemma ab_key: "str_key [97, 98] 2" "bin_key [97, 98] 2"
  by (simp_all add: str_key_def bin_key_def str_of_def)

theorem hash_insert_refines_witness:
  "\<exists>s'. sqlite3HashInsert all_mem [97, 98] 2 (Some 7) (new_table SQLITE_HASH_STRING) = Some (None, s') \<and>
     str_table s' (map_upd strCompare [97, 98] 2 (Some 7) (\<lambda>k n. None))"
  using hash_insert_refines [OF new_table_rep(1) ab_key(1) all_mem_ok(1), of "Some 7"] all_mem_ok(2) by auto

theorem hash_binary_life_witness:
  "\<exists>s'. sqlite3HashInsert all_mem [97, 98] 2 (Some 7) (new_table SQLITE_HASH_BINARY) = Some (None, s') \<and>
     sqlite3HashFind [97, 98] 2 s' = Some (Some 7)"
  using hash_binary_life [OF new_table_rep(2) ab_key(2) ab_key(2) all_mem_ok, of 7] by auto

end
