(* ===== verification/Token.thy ===== *)
theory Token
  imports Str
begin

text \<open>
  The tokenizer of \<^verbatim>\<open>tokenize.c\<close> with the keyword hash of
  \<^verbatim>\<open>keywordhash.h\<close>. The text is a NUL-terminated string read through
  \<open>cat\<close>; token codes are those of \<^verbatim>\<open>parse.h\<close>. The build is the default one: floating
  point, TCL variables and blob literals are on.
\<close>

subsection \<open>Token codes\<close>

type_synonym token = nat

abbreviation (input) TK_SEMI :: token where "TK_SEMI \<equiv> 1"
abbreviation (input) TK_EXPLAIN :: token where "TK_EXPLAIN \<equiv> 2"
abbreviation (input) TK_QUERY :: token where "TK_QUERY \<equiv> 3"
abbreviation (input) TK_PLAN :: token where "TK_PLAN \<equiv> 4"
abbreviation (input) TK_BEGIN :: token where "TK_BEGIN \<equiv> 5"
abbreviation (input) TK_TRANSACTION :: token where "TK_TRANSACTION \<equiv> 6"
abbreviation (input) TK_DEFERRED :: token where "TK_DEFERRED \<equiv> 7"
abbreviation (input) TK_IMMEDIATE :: token where "TK_IMMEDIATE \<equiv> 8"
abbreviation (input) TK_EXCLUSIVE :: token where "TK_EXCLUSIVE \<equiv> 9"
abbreviation (input) TK_COMMIT :: token where "TK_COMMIT \<equiv> 10"
abbreviation (input) TK_END :: token where "TK_END \<equiv> 11"
abbreviation (input) TK_ROLLBACK :: token where "TK_ROLLBACK \<equiv> 12"
abbreviation (input) TK_CREATE :: token where "TK_CREATE \<equiv> 13"
abbreviation (input) TK_TABLE :: token where "TK_TABLE \<equiv> 14"
abbreviation (input) TK_IF :: token where "TK_IF \<equiv> 15"
abbreviation (input) TK_NOT :: token where "TK_NOT \<equiv> 16"
abbreviation (input) TK_EXISTS :: token where "TK_EXISTS \<equiv> 17"
abbreviation (input) TK_TEMP :: token where "TK_TEMP \<equiv> 18"
abbreviation (input) TK_LP :: token where "TK_LP \<equiv> 19"
abbreviation (input) TK_RP :: token where "TK_RP \<equiv> 20"
abbreviation (input) TK_AS :: token where "TK_AS \<equiv> 21"
abbreviation (input) TK_COMMA :: token where "TK_COMMA \<equiv> 22"
abbreviation (input) TK_ID :: token where "TK_ID \<equiv> 23"
abbreviation (input) TK_ABORT :: token where "TK_ABORT \<equiv> 24"
abbreviation (input) TK_AFTER :: token where "TK_AFTER \<equiv> 25"
abbreviation (input) TK_ANALYZE :: token where "TK_ANALYZE \<equiv> 26"
abbreviation (input) TK_ASC :: token where "TK_ASC \<equiv> 27"
abbreviation (input) TK_ATTACH :: token where "TK_ATTACH \<equiv> 28"
abbreviation (input) TK_BEFORE :: token where "TK_BEFORE \<equiv> 29"
abbreviation (input) TK_CASCADE :: token where "TK_CASCADE \<equiv> 30"
abbreviation (input) TK_CAST :: token where "TK_CAST \<equiv> 31"
abbreviation (input) TK_CONFLICT :: token where "TK_CONFLICT \<equiv> 32"
abbreviation (input) TK_DATABASE :: token where "TK_DATABASE \<equiv> 33"
abbreviation (input) TK_DESC :: token where "TK_DESC \<equiv> 34"
abbreviation (input) TK_DETACH :: token where "TK_DETACH \<equiv> 35"
abbreviation (input) TK_EACH :: token where "TK_EACH \<equiv> 36"
abbreviation (input) TK_FAIL :: token where "TK_FAIL \<equiv> 37"
abbreviation (input) TK_FOR :: token where "TK_FOR \<equiv> 38"
abbreviation (input) TK_IGNORE :: token where "TK_IGNORE \<equiv> 39"
abbreviation (input) TK_INITIALLY :: token where "TK_INITIALLY \<equiv> 40"
abbreviation (input) TK_INSTEAD :: token where "TK_INSTEAD \<equiv> 41"
abbreviation (input) TK_LIKE_KW :: token where "TK_LIKE_KW \<equiv> 42"
abbreviation (input) TK_MATCH :: token where "TK_MATCH \<equiv> 43"
abbreviation (input) TK_KEY :: token where "TK_KEY \<equiv> 44"
abbreviation (input) TK_OF :: token where "TK_OF \<equiv> 45"
abbreviation (input) TK_OFFSET :: token where "TK_OFFSET \<equiv> 46"
abbreviation (input) TK_PRAGMA :: token where "TK_PRAGMA \<equiv> 47"
abbreviation (input) TK_RAISE :: token where "TK_RAISE \<equiv> 48"
abbreviation (input) TK_REPLACE :: token where "TK_REPLACE \<equiv> 49"
abbreviation (input) TK_RESTRICT :: token where "TK_RESTRICT \<equiv> 50"
abbreviation (input) TK_ROW :: token where "TK_ROW \<equiv> 51"
abbreviation (input) TK_STATEMENT :: token where "TK_STATEMENT \<equiv> 52"
abbreviation (input) TK_TRIGGER :: token where "TK_TRIGGER \<equiv> 53"
abbreviation (input) TK_VACUUM :: token where "TK_VACUUM \<equiv> 54"
abbreviation (input) TK_VIEW :: token where "TK_VIEW \<equiv> 55"
abbreviation (input) TK_REINDEX :: token where "TK_REINDEX \<equiv> 56"
abbreviation (input) TK_RENAME :: token where "TK_RENAME \<equiv> 57"
abbreviation (input) TK_CTIME_KW :: token where "TK_CTIME_KW \<equiv> 58"
abbreviation (input) TK_OR :: token where "TK_OR \<equiv> 59"
abbreviation (input) TK_AND :: token where "TK_AND \<equiv> 60"
abbreviation (input) TK_IS :: token where "TK_IS \<equiv> 61"
abbreviation (input) TK_BETWEEN :: token where "TK_BETWEEN \<equiv> 62"
abbreviation (input) TK_IN :: token where "TK_IN \<equiv> 63"
abbreviation (input) TK_ISNULL :: token where "TK_ISNULL \<equiv> 64"
abbreviation (input) TK_NOTNULL :: token where "TK_NOTNULL \<equiv> 65"
abbreviation (input) TK_NE :: token where "TK_NE \<equiv> 66"
abbreviation (input) TK_EQ :: token where "TK_EQ \<equiv> 67"
abbreviation (input) TK_GT :: token where "TK_GT \<equiv> 68"
abbreviation (input) TK_LE :: token where "TK_LE \<equiv> 69"
abbreviation (input) TK_LT :: token where "TK_LT \<equiv> 70"
abbreviation (input) TK_GE :: token where "TK_GE \<equiv> 71"
abbreviation (input) TK_ESCAPE :: token where "TK_ESCAPE \<equiv> 72"
abbreviation (input) TK_BITAND :: token where "TK_BITAND \<equiv> 73"
abbreviation (input) TK_BITOR :: token where "TK_BITOR \<equiv> 74"
abbreviation (input) TK_LSHIFT :: token where "TK_LSHIFT \<equiv> 75"
abbreviation (input) TK_RSHIFT :: token where "TK_RSHIFT \<equiv> 76"
abbreviation (input) TK_PLUS :: token where "TK_PLUS \<equiv> 77"
abbreviation (input) TK_MINUS :: token where "TK_MINUS \<equiv> 78"
abbreviation (input) TK_STAR :: token where "TK_STAR \<equiv> 79"
abbreviation (input) TK_SLASH :: token where "TK_SLASH \<equiv> 80"
abbreviation (input) TK_REM :: token where "TK_REM \<equiv> 81"
abbreviation (input) TK_CONCAT :: token where "TK_CONCAT \<equiv> 82"
abbreviation (input) TK_BITNOT :: token where "TK_BITNOT \<equiv> 85"
abbreviation (input) TK_STRING :: token where "TK_STRING \<equiv> 86"
abbreviation (input) TK_JOIN_KW :: token where "TK_JOIN_KW \<equiv> 87"
abbreviation (input) TK_CONSTRAINT :: token where "TK_CONSTRAINT \<equiv> 88"
abbreviation (input) TK_DEFAULT :: token where "TK_DEFAULT \<equiv> 89"
abbreviation (input) TK_NULL :: token where "TK_NULL \<equiv> 90"
abbreviation (input) TK_PRIMARY :: token where "TK_PRIMARY \<equiv> 91"
abbreviation (input) TK_UNIQUE :: token where "TK_UNIQUE \<equiv> 92"
abbreviation (input) TK_CHECK :: token where "TK_CHECK \<equiv> 93"
abbreviation (input) TK_REFERENCES :: token where "TK_REFERENCES \<equiv> 94"
abbreviation (input) TK_COLLATE :: token where "TK_COLLATE \<equiv> 95"
abbreviation (input) TK_AUTOINCR :: token where "TK_AUTOINCR \<equiv> 96"
abbreviation (input) TK_ON :: token where "TK_ON \<equiv> 97"
abbreviation (input) TK_DELETE :: token where "TK_DELETE \<equiv> 98"
abbreviation (input) TK_UPDATE :: token where "TK_UPDATE \<equiv> 99"
abbreviation (input) TK_INSERT :: token where "TK_INSERT \<equiv> 100"
abbreviation (input) TK_SET :: token where "TK_SET \<equiv> 101"
abbreviation (input) TK_DEFERRABLE :: token where "TK_DEFERRABLE \<equiv> 102"
abbreviation (input) TK_FOREIGN :: token where "TK_FOREIGN \<equiv> 103"
abbreviation (input) TK_DROP :: token where "TK_DROP \<equiv> 104"
abbreviation (input) TK_UNION :: token where "TK_UNION \<equiv> 105"
abbreviation (input) TK_ALL :: token where "TK_ALL \<equiv> 106"
abbreviation (input) TK_EXCEPT :: token where "TK_EXCEPT \<equiv> 107"
abbreviation (input) TK_INTERSECT :: token where "TK_INTERSECT \<equiv> 108"
abbreviation (input) TK_SELECT :: token where "TK_SELECT \<equiv> 109"
abbreviation (input) TK_DISTINCT :: token where "TK_DISTINCT \<equiv> 110"
abbreviation (input) TK_DOT :: token where "TK_DOT \<equiv> 111"
abbreviation (input) TK_FROM :: token where "TK_FROM \<equiv> 112"
abbreviation (input) TK_JOIN :: token where "TK_JOIN \<equiv> 113"
abbreviation (input) TK_USING :: token where "TK_USING \<equiv> 114"
abbreviation (input) TK_ORDER :: token where "TK_ORDER \<equiv> 115"
abbreviation (input) TK_BY :: token where "TK_BY \<equiv> 116"
abbreviation (input) TK_GROUP :: token where "TK_GROUP \<equiv> 117"
abbreviation (input) TK_HAVING :: token where "TK_HAVING \<equiv> 118"
abbreviation (input) TK_LIMIT :: token where "TK_LIMIT \<equiv> 119"
abbreviation (input) TK_WHERE :: token where "TK_WHERE \<equiv> 120"
abbreviation (input) TK_INTO :: token where "TK_INTO \<equiv> 121"
abbreviation (input) TK_VALUES :: token where "TK_VALUES \<equiv> 122"
abbreviation (input) TK_INTEGER :: token where "TK_INTEGER \<equiv> 123"
abbreviation (input) TK_FLOAT :: token where "TK_FLOAT \<equiv> 124"
abbreviation (input) TK_BLOB :: token where "TK_BLOB \<equiv> 125"
abbreviation (input) TK_REGISTER :: token where "TK_REGISTER \<equiv> 126"
abbreviation (input) TK_VARIABLE :: token where "TK_VARIABLE \<equiv> 127"
abbreviation (input) TK_CASE :: token where "TK_CASE \<equiv> 128"
abbreviation (input) TK_WHEN :: token where "TK_WHEN \<equiv> 129"
abbreviation (input) TK_THEN :: token where "TK_THEN \<equiv> 130"
abbreviation (input) TK_ELSE :: token where "TK_ELSE \<equiv> 131"
abbreviation (input) TK_INDEX :: token where "TK_INDEX \<equiv> 132"
abbreviation (input) TK_ALTER :: token where "TK_ALTER \<equiv> 133"
abbreviation (input) TK_TO :: token where "TK_TO \<equiv> 134"
abbreviation (input) TK_ADD :: token where "TK_ADD \<equiv> 135"
abbreviation (input) TK_COLUMNKW :: token where "TK_COLUMNKW \<equiv> 136"
abbreviation (input) TK_ILLEGAL :: token where "TK_ILLEGAL \<equiv> 143"
abbreviation (input) TK_SPACE :: token where "TK_SPACE \<equiv> 144"
abbreviation (input) TK_COMMENT :: token where "TK_COMMENT \<equiv> 146"

subsection \<open>Keywords\<close>

text \<open>The bytes of a string literal.\<close>

definition chars :: "string \<Rightarrow> bytes" where
  "chars s = map of_char s"

definition zText :: bytes where
  "zText = chars (''ABORTABLEFTEMPORARYADDATABASELECTHENDEFAULTRANSACTIONATURALTERAI'' @
    ''SEACHECKEYAFTEREFERENCESCAPELSEXCEPTRIGGEREGEXPLAINITIALLYANALYZ'' @
    ''EXCLUSIVEXISTSTATEMENTANDEFERRABLEATTACHAVINGLOBEFOREIGNOREINDEX'' @
    ''AUTOINCREMENTBEGINNERENAMEBETWEENOTNULLIKEBYCASCADEFERREDELETECA'' @
    ''SECASTCOLLATECOLUMNCOMMITCONFLICTCONSTRAINTERSECTCREATECROSSCURR'' @
    ''ENT_DATECURRENT_TIMESTAMPLANDESCDETACHDISTINCTDROPRAGMATCHFAILIM'' @
    ''ITFROMFULLGROUPDATEIFIMMEDIATEINSERTINSTEADINTOFFSETISNULLJOINOR'' @
    ''DEREPLACEOUTERESTRICTPRIMARYQUERYRIGHTROLLBACKROWHENUNIONUNIQUEU'' @
    ''SINGVACUUMVALUESVIEWHERE'')"

definition aHash :: "nat list" where
  "aHash =
    [92, 80, 107, 91, 0, 4, 0, 0, 114, 0, 83, 0, 0, 95, 44, 76, 93, 0, 106, 109, 97, 90, 0,
     10, 0, 0, 113, 0, 110, 103, 0, 28, 48, 0, 41, 0, 0, 65, 71, 0, 63, 19, 0, 105, 36, 104,
     0, 108, 74, 0, 0, 33, 0, 61, 37, 0, 8, 0, 115, 38, 12, 0, 77, 40, 25, 66, 0, 0, 31, 81,
     53, 30, 50, 20, 88, 0, 34, 0, 75, 26, 0, 72, 0, 0, 0, 64, 47, 67, 22, 87, 29, 69, 86, 0,
     1, 0, 9, 101, 58, 18, 0, 112, 82, 99, 54, 6, 85, 0, 0, 49, 94, 0, 102, 0, 70, 0, 0, 15,
     0, 116, 51, 56, 0, 2, 55, 0, 111]"

definition aNext :: "nat list" where
  "aNext =
    [0, 0, 0, 0, 0, 3, 0, 0, 0, 0, 0, 0, 0, 0, 0, 0, 0, 0, 0, 0, 0, 17, 0, 0, 0, 0, 0, 11, 0,
     0, 0, 0, 5, 13, 0, 7, 0, 0, 0, 0, 0, 0, 0, 0, 0, 0, 43, 0, 0, 0, 0, 0, 0, 0, 16, 0, 23,
     52, 0, 0, 0, 0, 45, 0, 59, 0, 0, 0, 0, 0, 0, 0, 0, 73, 42, 0, 24, 60, 21, 0, 79, 0, 0,
     68, 0, 0, 84, 46, 0, 0, 0, 0, 0, 0, 0, 0, 39, 96, 98, 0, 0, 100, 0, 32, 0, 14, 27, 78, 0,
     57, 89, 0, 35, 0, 62, 0]"

definition aLen :: "nat list" where
  "aLen =
    [5, 5, 4, 4, 9, 2, 3, 8, 2, 6, 4, 3, 7, 11, 2, 7, 5, 5, 4, 5, 3, 5, 10, 6, 4, 6, 7, 6, 7,
     9, 3, 7, 9, 6, 9, 3, 10, 6, 6, 4, 6, 3, 7, 6, 7, 5, 13, 2, 2, 5, 5, 6, 7, 3, 7, 4, 4, 2,
     7, 3, 8, 6, 4, 4, 7, 6, 6, 8, 10, 9, 6, 5, 12, 12, 17, 4, 4, 6, 8, 2, 4, 6, 5, 4, 5, 4,
     4, 5, 6, 2, 9, 6, 7, 4, 2, 6, 3, 6, 4, 5, 7, 5, 8, 7, 5, 5, 8, 3, 4, 5, 6, 5, 6, 6, 4, 5]"

definition aOffset :: "nat list" where
  "aOffset =
    [0, 4, 7, 10, 10, 14, 19, 21, 26, 27, 32, 34, 36, 42, 51, 52, 57, 61, 65, 67, 71, 74, 78,
     86, 91, 94, 99, 105, 108, 113, 118, 122, 128, 136, 141, 150, 152, 162, 167, 172, 175,
     177, 177, 181, 185, 187, 192, 194, 196, 205, 208, 212, 218, 224, 224, 227, 230, 234, 236,
     237, 241, 248, 254, 258, 262, 269, 275, 281, 289, 296, 305, 311, 316, 328, 328, 344, 348,
     352, 358, 359, 366, 369, 373, 378, 381, 386, 390, 394, 397, 403, 405, 414, 420, 427, 430,
     430, 433, 436, 442, 446, 450, 457, 461, 469, 476, 481, 486, 494, 496, 500, 505, 511, 516,
     522, 528, 531]"

definition aCode :: "token list" where
  "aCode =
    [TK_ABORT, TK_TABLE, TK_JOIN_KW, TK_TEMP, TK_TEMP, TK_OR, TK_ADD, TK_DATABASE, TK_AS,
     TK_SELECT, TK_THEN, TK_END, TK_DEFAULT, TK_TRANSACTION, TK_ON, TK_JOIN_KW, TK_ALTER,
     TK_RAISE, TK_EACH, TK_CHECK, TK_KEY, TK_AFTER, TK_REFERENCES, TK_ESCAPE, TK_ELSE,
     TK_EXCEPT, TK_TRIGGER, TK_LIKE_KW, TK_EXPLAIN, TK_INITIALLY, TK_ALL, TK_ANALYZE,
     TK_EXCLUSIVE, TK_EXISTS, TK_STATEMENT, TK_AND, TK_DEFERRABLE, TK_ATTACH, TK_HAVING,
     TK_LIKE_KW, TK_BEFORE, TK_FOR, TK_FOREIGN, TK_IGNORE, TK_REINDEX, TK_INDEX, TK_AUTOINCR,
     TK_TO, TK_IN, TK_BEGIN, TK_JOIN_KW, TK_RENAME, TK_BETWEEN, TK_NOT, TK_NOTNULL, TK_NULL,
     TK_LIKE_KW, TK_BY, TK_CASCADE, TK_ASC, TK_DEFERRED, TK_DELETE, TK_CASE, TK_CAST,
     TK_COLLATE, TK_COLUMNKW, TK_COMMIT, TK_CONFLICT, TK_CONSTRAINT, TK_INTERSECT, TK_CREATE,
     TK_JOIN_KW, TK_CTIME_KW, TK_CTIME_KW, TK_CTIME_KW, TK_PLAN, TK_DESC, TK_DETACH,
     TK_DISTINCT, TK_IS, TK_DROP, TK_PRAGMA, TK_MATCH, TK_FAIL, TK_LIMIT, TK_FROM, TK_JOIN_KW,
     TK_GROUP, TK_UPDATE, TK_IF, TK_IMMEDIATE, TK_INSERT, TK_INSTEAD, TK_INTO, TK_OF,
     TK_OFFSET, TK_SET, TK_ISNULL, TK_JOIN, TK_ORDER, TK_REPLACE, TK_JOIN_KW, TK_RESTRICT,
     TK_PRIMARY, TK_QUERY, TK_JOIN_KW, TK_ROLLBACK, TK_ROW, TK_WHEN, TK_UNION, TK_UNIQUE,
     TK_USING, TK_VACUUM, TK_VALUES, TK_VIEW, TK_WHERE]"

fun keyword_chain :: "bytes \<Rightarrow> nat \<Rightarrow> nat \<Rightarrow> nat \<Rightarrow> token" where
  "keyword_chain z n 0 i = TK_ID"
| "keyword_chain z n (Suc fuel) i =
     (if i = 0 then TK_ID
      else if aLen ! (i - 1) = n \<and> sqlite3StrNICmp (drop (aOffset ! (i - 1)) zText) z (int n) = 0 then aCode ! (i - 1)
      else keyword_chain z n fuel (aNext ! (i - 1)))"

text \<open>
  \<^verbatim>\<open>keywordCode\<close>: the chain of a hash value holds at most 116 entries, so that many
  steps are enough; \<open>i\<close> above is one more than the index of the C code.
\<close>

definition keywordCode :: "bytes \<Rightarrow> nat \<Rightarrow> token" where
  "keywordCode z n =
     (if n < 2 then TK_ID
      else let h = nat (((uint (UpperToLower (cat z 0)) * 4) XOR (uint (UpperToLower (cat z (n - 1))) * 3) XOR int n) mod 127)
           in keyword_chain z n 117 (aHash ! h))"

subsection \<open>Characters\<close>

definition sqlite3IsIdChar :: "nat list" where
  "sqlite3IsIdChar =
    [0, 0, 0, 0, 1, 0, 0, 0, 0, 0, 0, 0, 0, 0, 0, 0,
     1, 1, 1, 1, 1, 1, 1, 1, 1, 1, 0, 0, 0, 0, 0, 0,
     0, 1, 1, 1, 1, 1, 1, 1, 1, 1, 1, 1, 1, 1, 1, 1,
     1, 1, 1, 1, 1, 1, 1, 1, 1, 1, 1, 0, 0, 0, 0, 1,
     0, 1, 1, 1, 1, 1, 1, 1, 1, 1, 1, 1, 1, 1, 1, 1,
     1, 1, 1, 1, 1, 1, 1, 1, 1, 1, 1, 0, 0, 0, 0, 0]"

definition IdChar :: "u8 \<Rightarrow> bool" where
  "IdChar c \<longleftrightarrow> c AND 0x80 \<noteq> 0 \<or> (c > 0x1f \<and> sqlite3IsIdChar ! (unat c - 0x20) \<noteq> 0)"

definition isxdigit :: "u8 \<Rightarrow> bool" where
  "isxdigit c \<longleftrightarrow> isdigit c \<or> 97 \<le> c \<and> c \<le> 102 \<or> 65 \<le> c \<and> c \<le> 70"

subsection \<open>The tokenizer\<close>

text \<open>The loops \<^verbatim>\<open>for(; p(z[i]); i++)\<close>: no \<open>p\<close> holds of the terminator, so they end there.\<close>

function scan :: "(u8 \<Rightarrow> bool) \<Rightarrow> bytes \<Rightarrow> nat \<Rightarrow> nat" where
  "scan p z i = (if i < length z \<and> p (cat z i) then scan p z (Suc i) else i)"
  by pat_completeness auto
termination by (relation "measure (\<lambda>(p, z, i). length z - i)") auto
declare scan.simps [simp del]

text \<open>The loop over a C comment, with the character before \<open>i\<close> in \<open>c\<close>; it returns \<open>c\<close> and \<open>i\<close>.\<close>

function comment_loop :: "bytes \<Rightarrow> nat \<Rightarrow> u8 \<Rightarrow> u8 \<times> nat" where
  "comment_loop z i c =
     (if c \<noteq> 42 \<or> cat z i \<noteq> 47
      then if cat z i \<noteq> 0 then comment_loop z (Suc i) (cat z i) else (0, i)
      else (c, i))"
  by pat_completeness auto
termination by (relation "measure (\<lambda>(z, i, c). length z - i)") (auto simp: cat_def split: if_splits)
declare comment_loop.simps [simp del]

text \<open>The loop over a quoted string, in which a doubled quote stands for itself.\<close>

function string_loop :: "u8 \<Rightarrow> bytes \<Rightarrow> nat \<Rightarrow> u8 \<times> nat" where
  "string_loop delim z i =
     (if cat z i = 0 then (0, i)
      else if cat z i = delim then
        (if cat z (Suc i) = delim then string_loop delim z (i + 2) else (cat z i, i))
      else string_loop delim z (Suc i))"
  by pat_completeness auto
termination by (relation "measure (\<lambda>(d, z, i). length z - i)") (auto simp: cat_def split: if_splits)
declare string_loop.simps [simp del]

text \<open>A variable name; \<open>n\<close> counts its identifier characters.\<close>

function variable_loop :: "bytes \<Rightarrow> nat \<Rightarrow> nat \<Rightarrow> token \<Rightarrow> nat \<times> nat \<times> token" where
  "variable_loop z i n tt =
     (let c = cat z i in
      if c = 0 then (i, n, tt)
      else if IdChar c then variable_loop z (Suc i) (Suc n) tt
      else if c = 40 \<and> n > 0 then
        (let j = scan (\<lambda>c. c \<noteq> 0 \<and> \<not> isspace c \<and> c \<noteq> 41) z (Suc i) in
         if cat z j = 41 then (Suc j, n, tt) else (j, n, TK_ILLEGAL))
      else if c = 58 \<and> cat z (Suc i) = 58 then variable_loop z (i + 2) n tt
      else (i, n, tt))"
  by pat_completeness auto
termination
  by (relation "measure (\<lambda>(z, i, n, tt). length z - i)") (auto simp: cat_def split: if_splits)
declare variable_loop.simps [simp del]

definition tok_variable :: "bytes \<Rightarrow> nat \<times> token" where
  "tok_variable z = (case variable_loop z 1 0 TK_VARIABLE of (i, n, tt) \<Rightarrow> (i, if n = 0 then TK_ILLEGAL else tt))"

definition tok_number :: "bytes \<Rightarrow> nat \<times> token" where
  "tok_number z =
     (let i0 = scan isdigit z 0;
          (i1, t1) = (if cat z i0 = 46 then (scan isdigit z (Suc i0), TK_FLOAT) else (i0, TK_INTEGER))
      in if (cat z i1 = 101 \<or> cat z i1 = 69) \<and>
            (isdigit (cat z (i1 + 1)) \<or> ((cat z (i1 + 1) = 43 \<or> cat z (i1 + 1) = 45) \<and> isdigit (cat z (i1 + 2))))
         then (scan isdigit z (i1 + 2), TK_FLOAT) else (i1, t1))"

text \<open>The loop over a blob literal returns the last character read, the index and the type.\<close>

function blob_loop :: "u8 \<Rightarrow> bytes \<Rightarrow> nat \<Rightarrow> u8 \<times> nat \<times> token" where
  "blob_loop delim z i =
     (if cat z i = 0 then (0, i, TK_BLOB)
      else if cat z i = delim then (cat z i, Suc i, if odd i then TK_ILLEGAL else TK_BLOB)
      else if \<not> isxdigit (cat z i) then (cat z i, i, TK_ILLEGAL)
      else blob_loop delim z (Suc i))"
  by pat_completeness auto
termination by (relation "measure (\<lambda>(d, z, i). length z - i)") (auto simp: cat_def split: if_splits)
declare blob_loop.simps [simp del]

definition tok_identifier :: "bytes \<Rightarrow> nat \<times> token" where
  "tok_identifier z =
     (if \<not> IdChar (cat z 0) then (1, TK_ILLEGAL)
      else let i = scan IdChar z 1 in (i, keywordCode z i))"

text \<open>The operators and punctuation, by the first two characters.\<close>

definition tok_operator :: "u8 \<Rightarrow> u8 \<Rightarrow> (nat \<times> token) option" where
  "tok_operator c d =
     (if c = 40 then Some (1, TK_LP)                                       \<comment> \<open>left parenthesis\<close>
      else if c = 41 then Some (1, TK_RP)                                  \<comment> \<open>right parenthesis\<close>
      else if c = 59 then Some (1, TK_SEMI)                                \<comment> \<open>;\<close>
      else if c = 43 then Some (1, TK_PLUS)                                \<comment> \<open>+\<close>
      else if c = 42 then Some (1, TK_STAR)                                \<comment> \<open>*\<close>
      else if c = 37 then Some (1, TK_REM)                                 \<comment> \<open>percent\<close>
      else if c = 61 then Some (if d = 61 then 2 else 1, TK_EQ)            \<comment> \<open>=\<close>
      else if c = 60 then                                                  \<comment> \<open>less\<close>
        (if d = 61 then Some (2, TK_LE) else if d = 62 then Some (2, TK_NE)
         else if d = 60 then Some (2, TK_LSHIFT) else Some (1, TK_LT))
      else if c = 62 then                                                  \<comment> \<open>greater\<close>
        (if d = 61 then Some (2, TK_GE) else if d = 62 then Some (2, TK_RSHIFT) else Some (1, TK_GT))
      else if c = 33 then (if d \<noteq> 61 then Some (2, TK_ILLEGAL) else Some (2, TK_NE))   \<comment> \<open>!\<close>
      else if c = 124 then (if d \<noteq> 124 then Some (1, TK_BITOR) else Some (2, TK_CONCAT)) \<comment> \<open>bar\<close>
      else if c = 44 then Some (1, TK_COMMA)                               \<comment> \<open>,\<close>
      else if c = 38 then Some (1, TK_BITAND)                              \<comment> \<open>ampersand\<close>
      else if c = 126 then Some (1, TK_BITNOT)                             \<comment> \<open>tilde\<close>
      else None)"

definition getToken :: "bytes \<Rightarrow> nat \<times> token" where
  "getToken z =
     (let c = cat z 0; d = cat z 1 in
      case tok_operator c d of Some r \<Rightarrow> r | None \<Rightarrow>
      if c = 32 \<or> c = 9 \<or> c = 10 \<or> c = 12 \<or> c = 13 then (scan isspace z 1, TK_SPACE)
      else if c = 45 then                                                  \<comment> \<open>-\<close>
        (if d = 45 then (scan (\<lambda>c. c \<noteq> 0 \<and> c \<noteq> 10) z 2, TK_COMMENT) else (1, TK_MINUS))
      else if c = 47 then                                                  \<comment> \<open>slash\<close>
        (if d \<noteq> 42 \<or> cat z 2 = 0 then (1, TK_SLASH)
         else case comment_loop z 3 (cat z 2) of (e, i) \<Rightarrow> (if e \<noteq> 0 then Suc i else i, TK_COMMENT))
      else if c = 96 \<or> c = 39 \<or> c = 34 then                               \<comment> \<open>the three quotes\<close>
        (case string_loop c z 1 of (e, i) \<Rightarrow> if e \<noteq> 0 then (Suc i, TK_STRING) else (i, TK_ILLEGAL))
      else if c = 46 \<and> \<not> isdigit d then (1, TK_DOT)                        \<comment> \<open>.\<close>
      else if c = 46 \<or> isdigit c then tok_number z
      else if c = 91 then                                                  \<comment> \<open>left bracket\<close>
        (let i = scan (\<lambda>c. c \<noteq> 0 \<and> c \<noteq> 93) z 1 in (if cat z i = 93 then Suc i else i, TK_ID))
      else if c = 63 then (scan isdigit z 1, TK_VARIABLE)                  \<comment> \<open>?\<close>
      else if c = 35 \<and> scan isdigit z 1 > 1 then (scan isdigit z 1, TK_REGISTER)  \<comment> \<open>hash sign\<close>
      else if c = 35 \<or> c = 36 \<or> c = 64 \<or> c = 58 then tok_variable z        \<comment> \<open>hash sign, dollar, at, colon\<close>
      else if (c = 120 \<or> c = 88) \<and> (d = 39 \<or> d = 34) then                  \<comment> \<open>x or X and a quote\<close>
        (case blob_loop d z 2 of (e, i, t) \<Rightarrow> (i, t))
      else tok_identifier z)"

abbreviation sqlite3GetToken :: "bytes \<Rightarrow> nat \<times> token" where
  "sqlite3GetToken \<equiv> getToken"

text \<open>The keywords with their codes, in the order of the tables.\<close>

definition keyword_table :: "(string \<times> token) list" where
  "keyword_table =
    [(''ABORT'', TK_ABORT), (''TABLE'', TK_TABLE), (''LEFT'', TK_JOIN_KW), (''TEMP'', TK_TEMP),
     (''TEMPORARY'', TK_TEMP), (''OR'', TK_OR), (''ADD'', TK_ADD), (''DATABASE'', TK_DATABASE),
     (''AS'', TK_AS), (''SELECT'', TK_SELECT), (''THEN'', TK_THEN), (''END'', TK_END), (''DEFAULT'',
     TK_DEFAULT), (''TRANSACTION'', TK_TRANSACTION), (''ON'', TK_ON), (''NATURAL'', TK_JOIN_KW),
     (''ALTER'', TK_ALTER), (''RAISE'', TK_RAISE), (''EACH'', TK_EACH), (''CHECK'', TK_CHECK),
     (''KEY'', TK_KEY), (''AFTER'', TK_AFTER), (''REFERENCES'', TK_REFERENCES), (''ESCAPE'',
     TK_ESCAPE), (''ELSE'', TK_ELSE), (''EXCEPT'', TK_EXCEPT), (''TRIGGER'', TK_TRIGGER), (''REGEXP'',
     TK_LIKE_KW), (''EXPLAIN'', TK_EXPLAIN), (''INITIALLY'', TK_INITIALLY), (''ALL'', TK_ALL),
     (''ANALYZE'', TK_ANALYZE), (''EXCLUSIVE'', TK_EXCLUSIVE), (''EXISTS'', TK_EXISTS), (''STATEMENT'',
     TK_STATEMENT), (''AND'', TK_AND), (''DEFERRABLE'', TK_DEFERRABLE), (''ATTACH'', TK_ATTACH),
     (''HAVING'', TK_HAVING), (''GLOB'', TK_LIKE_KW), (''BEFORE'', TK_BEFORE), (''FOR'', TK_FOR),
     (''FOREIGN'', TK_FOREIGN), (''IGNORE'', TK_IGNORE), (''REINDEX'', TK_REINDEX), (''INDEX'',
     TK_INDEX), (''AUTOINCREMENT'', TK_AUTOINCR), (''TO'', TK_TO), (''IN'', TK_IN), (''BEGIN'',
     TK_BEGIN), (''INNER'', TK_JOIN_KW), (''RENAME'', TK_RENAME), (''BETWEEN'', TK_BETWEEN), (''NOT'',
     TK_NOT), (''NOTNULL'', TK_NOTNULL), (''NULL'', TK_NULL), (''LIKE'', TK_LIKE_KW), (''BY'', TK_BY),
     (''CASCADE'', TK_CASCADE), (''ASC'', TK_ASC), (''DEFERRED'', TK_DEFERRED), (''DELETE'',
     TK_DELETE), (''CASE'', TK_CASE), (''CAST'', TK_CAST), (''COLLATE'', TK_COLLATE), (''COLUMN'',
     TK_COLUMNKW), (''COMMIT'', TK_COMMIT), (''CONFLICT'', TK_CONFLICT), (''CONSTRAINT'',
     TK_CONSTRAINT), (''INTERSECT'', TK_INTERSECT), (''CREATE'', TK_CREATE), (''CROSS'', TK_JOIN_KW),
     (''CURRENT_DATE'', TK_CTIME_KW), (''CURRENT_TIME'', TK_CTIME_KW), (''CURRENT_TIMESTAMP'',
     TK_CTIME_KW), (''PLAN'', TK_PLAN), (''DESC'', TK_DESC), (''DETACH'', TK_DETACH), (''DISTINCT'',
     TK_DISTINCT), (''IS'', TK_IS), (''DROP'', TK_DROP), (''PRAGMA'', TK_PRAGMA), (''MATCH'',
     TK_MATCH), (''FAIL'', TK_FAIL), (''LIMIT'', TK_LIMIT), (''FROM'', TK_FROM), (''FULL'',
     TK_JOIN_KW), (''GROUP'', TK_GROUP), (''UPDATE'', TK_UPDATE), (''IF'', TK_IF), (''IMMEDIATE'',
     TK_IMMEDIATE), (''INSERT'', TK_INSERT), (''INSTEAD'', TK_INSTEAD), (''INTO'', TK_INTO), (''OF'',
     TK_OF), (''OFFSET'', TK_OFFSET), (''SET'', TK_SET), (''ISNULL'', TK_ISNULL), (''JOIN'', TK_JOIN),
     (''ORDER'', TK_ORDER), (''REPLACE'', TK_REPLACE), (''OUTER'', TK_JOIN_KW), (''RESTRICT'',
     TK_RESTRICT), (''PRIMARY'', TK_PRIMARY), (''QUERY'', TK_QUERY), (''RIGHT'', TK_JOIN_KW),
     (''ROLLBACK'', TK_ROLLBACK), (''ROW'', TK_ROW), (''WHEN'', TK_WHEN), (''UNION'', TK_UNION),
     (''UNIQUE'', TK_UNIQUE), (''USING'', TK_USING), (''VACUUM'', TK_VACUUM), (''VALUES'', TK_VALUES),
     (''VIEW'', TK_VIEW), (''WHERE'', TK_WHERE)]"

lemma zText_code:
  "zText =
    [65, 66, 79, 82, 84, 65, 66, 76, 69, 70, 84, 69, 77, 80, 79, 82, 65, 82, 89, 65, 68, 68, 65, 84,
     65, 66, 65, 83, 69, 76, 69, 67, 84, 72, 69, 78, 68, 69, 70, 65, 85, 76, 84, 82, 65, 78, 83, 65,
     67, 84, 73, 79, 78, 65, 84, 85, 82, 65, 76, 84, 69, 82, 65, 73, 83, 69, 65, 67, 72, 69, 67, 75,
     69, 89, 65, 70, 84, 69, 82, 69, 70, 69, 82, 69, 78, 67, 69, 83, 67, 65, 80, 69, 76, 83, 69, 88,
     67, 69, 80, 84, 82, 73, 71, 71, 69, 82, 69, 71, 69, 88, 80, 76, 65, 73, 78, 73, 84, 73, 65, 76,
     76, 89, 65, 78, 65, 76, 89, 90, 69, 88, 67, 76, 85, 83, 73, 86, 69, 88, 73, 83, 84, 83, 84, 65,
     84, 69, 77, 69, 78, 84, 65, 78, 68, 69, 70, 69, 82, 82, 65, 66, 76, 69, 65, 84, 84, 65, 67, 72,
     65, 86, 73, 78, 71, 76, 79, 66, 69, 70, 79, 82, 69, 73, 71, 78, 79, 82, 69, 73, 78, 68, 69, 88,
     65, 85, 84, 79, 73, 78, 67, 82, 69, 77, 69, 78, 84, 66, 69, 71, 73, 78, 78, 69, 82, 69, 78, 65,
     77, 69, 66, 69, 84, 87, 69, 69, 78, 79, 84, 78, 85, 76, 76, 73, 75, 69, 66, 89, 67, 65, 83, 67,
     65, 68, 69, 70, 69, 82, 82, 69, 68, 69, 76, 69, 84, 69, 67, 65, 83, 69, 67, 65, 83, 84, 67, 79,
     76, 76, 65, 84, 69, 67, 79, 76, 85, 77, 78, 67, 79, 77, 77, 73, 84, 67, 79, 78, 70, 76, 73, 67,
     84, 67, 79, 78, 83, 84, 82, 65, 73, 78, 84, 69, 82, 83, 69, 67, 84, 67, 82, 69, 65, 84, 69, 67,
     82, 79, 83, 83, 67, 85, 82, 82, 69, 78, 84, 95, 68, 65, 84, 69, 67, 85, 82, 82, 69, 78, 84, 95,
     84, 73, 77, 69, 83, 84, 65, 77, 80, 76, 65, 78, 68, 69, 83, 67, 68, 69, 84, 65, 67, 72, 68, 73,
     83, 84, 73, 78, 67, 84, 68, 82, 79, 80, 82, 65, 71, 77, 65, 84, 67, 72, 70, 65, 73, 76, 73, 77,
     73, 84, 70, 82, 79, 77, 70, 85, 76, 76, 71, 82, 79, 85, 80, 68, 65, 84, 69, 73, 70, 73, 77, 77,
     69, 68, 73, 65, 84, 69, 73, 78, 83, 69, 82, 84, 73, 78, 83, 84, 69, 65, 68, 73, 78, 84, 79, 70,
     70, 83, 69, 84, 73, 83, 78, 85, 76, 76, 74, 79, 73, 78, 79, 82, 68, 69, 82, 69, 80, 76, 65, 67,
     69, 79, 85, 84, 69, 82, 69, 83, 84, 82, 73, 67, 84, 80, 82, 73, 77, 65, 82, 89, 81, 85, 69, 82,
     89, 82, 73, 71, 72, 84, 82, 79, 76, 76, 66, 65, 67, 75, 82, 79, 87, 72, 69, 78, 85, 78, 73, 79,
     78, 85, 78, 73, 81, 85, 69, 85, 83, 73, 78, 71, 86, 65, 67, 85, 85, 77, 86, 65, 76, 85, 69, 83,
     86, 73, 69, 87, 72, 69, 82, 69]"
  by (simp add: zText_def chars_def)

lemma table_text: "map (\<lambda>i. take (aLen ! i) (drop (aOffset ! i) zText)) [0..<116] = map (chars \<circ> fst) keyword_table"
  by (simp add: zText_code aLen_def aOffset_def upt_conv_Cons chars_def keyword_table_def)

lemma table_code: "map (\<lambda>i. aCode ! i) [0..<116] = map snd keyword_table"
  by (simp add: aCode_def upt_conv_Cons keyword_table_def)

fun chain_ids :: "nat \<Rightarrow> nat \<Rightarrow> nat list" where
  "chain_ids 0 i = []"
| "chain_ids (Suc f) i = (if i = 0 then [] else (i - 1) # chain_ids f (aNext ! (i - 1)))"

lemma chain_ids_0 [simp]: "chain_ids f 0 = []"
  by (cases f) auto

definition kw_match :: "bytes \<Rightarrow> nat \<Rightarrow> nat \<Rightarrow> bool" where
  "kw_match z n j \<longleftrightarrow> aLen ! j = n \<and> sqlite3StrNICmp (drop (aOffset ! j) zText) z (int n) = 0"

lemma keyword_chain_find:
  "keyword_chain z n f i = (case List.find (kw_match z n) (chain_ids f i) of None \<Rightarrow> TK_ID | Some j \<Rightarrow> aCode ! j)"
  by (induction z n f i rule: keyword_chain.induct) (auto simp: kw_match_def)

definition hkey :: "u8 \<Rightarrow> u8 \<Rightarrow> nat \<Rightarrow> nat" where
  "hkey a b n = nat (((uint a * 4) XOR (uint b * 3) XOR int n) mod 127)"

lemma keywordCode_hkey:
  "keywordCode z n = (if n < 2 then TK_ID
     else keyword_chain z n 117 (aHash ! hkey (UpperToLower (cat z 0)) (UpperToLower (cat z (n - 1))) n))"
  by (simp add: keywordCode_def hkey_def Let_def)

definition kw_lower :: "string \<Rightarrow> bytes" where
  "kw_lower w = map UpperToLower (chars w)"

lemma table_hkey:
  "map (\<lambda>(w, t). hkey (hd (kw_lower w)) (last (kw_lower w)) (length w)) keyword_table =
    [94, 123, 105, 5, 51, 105, 44, 56, 96, 23, 31, 60, 76, 18, 117, 124, 88, 99, 41, 73, 69, 88, 28,
     62, 64, 79, 2, 31, 90, 71, 68, 45, 51, 76, 26, 44, 54, 59, 20, 63, 34, 78, 86, 14, 40, 74, 86,
     32, 109, 72, 120, 98, 70, 104, 124, 121, 28, 98, 37, 47, 53, 58, 40, 85, 37, 65, 87, 89, 91,
     114, 38, 81, 48, 48, 78, 15, 62, 47, 69, 1, 69, 102, 10, 89, 106, 92, 89, 74, 126, 21, 3, 0,
     16, 110, 13, 103, 20, 103, 103, 112, 97, 112, 29, 45, 43, 18, 2, 47, 19, 28, 126, 101, 26, 8,
     58, 119]"
  by (simp add: keyword_table_def hkey_def kw_lower_def chars_def UpperToLower_eq)

lemma chain_117:
  "chain_ids 117 i = (if i = 0 then [] else (i - 1) # (let j = aNext ! (i - 1) in
     if j = 0 then [] else (j - 1) # (let k = aNext ! (j - 1) in if k = 0 then [] else (k - 1) # chain_ids 114 (aNext ! (k - 1)))))"
proof -
  have fuel: "117 = Suc (Suc (Suc 114))" by simp
  show ?thesis unfolding fuel by (simp only: chain_ids.simps Let_def)
qed

lemma table_chain:
  "list_all (\<lambda>(i, h). i \<in> set (chain_ids 117 (aHash ! h)))
    (zip [0..<116] (map (\<lambda>(w, t). hkey (hd (kw_lower w)) (last (kw_lower w)) (length w)) keyword_table))"
  unfolding table_hkey by (simp add: upt_conv_Cons chain_117 aHash_def aNext_def)

lemma list_all_zip_map: "list_all P (zip [0..<n] (map f xs)) \<Longrightarrow> n = length xs \<Longrightarrow> j < n \<Longrightarrow> P (j, f (xs ! j))"
  by (simp add: list_all_length)

lemma chains_bounded: "list_all (\<lambda>k. k \<le> 116) aHash" "list_all (\<lambda>k. k \<le> 116) aNext"
  by (simp_all add: aHash_def aNext_def)


lemma nth_bounded: "list_all (\<lambda>k. k \<le> 116) xs \<Longrightarrow> i < length xs \<Longrightarrow> xs ! i \<le> (116 :: nat)"
  by (simp add: list_all_length)

lemma chain_ids_less: "i \<le> 116 \<Longrightarrow> \<forall>j \<in> set (chain_ids f i). j < 116"
proof (induction f i rule: chain_ids.induct)
  case (2 f i)
  have "length aNext = 116" by (simp add: aNext_def)
  then have "i \<noteq> 0 \<Longrightarrow> aNext ! (i - 1) \<le> 116" using 2(2) by (intro nth_bounded [OF chains_bounded(2)]) simp
  then show ?case using 2 by auto
qed simp

lemma table_length [simp]: "length keyword_table = 116"
  by (simp add: keyword_table_def)

lemma table_len: "map (\<lambda>i. aLen ! i) [0..<116] = map (length \<circ> fst) keyword_table"
  by (simp add: aLen_def upt_conv_Cons keyword_table_def)

lemma table_nth:
  assumes "j < 116"
  shows "take (aLen ! j) (drop (aOffset ! j) zText) = chars (fst (keyword_table ! j))"
    "aCode ! j = snd (keyword_table ! j)" "aLen ! j = length (fst (keyword_table ! j))"
  using arg_cong [OF table_text, of "\<lambda>xs. xs ! j"] arg_cong [OF table_code, of "\<lambda>xs. xs ! j"]
    arg_cong [OF table_len, of "\<lambda>xs. xs ! j"] assms by simp_all

lemma kw_lower_length [simp]: "length (kw_lower w) = length w"
  by (simp add: kw_lower_def chars_def)

lemma kw_lower_distinct: "distinct (map (\<lambda>x. kw_lower (fst x)) keyword_table)"
  by (simp add: keyword_table_def kw_lower_def chars_def UpperToLower_eq)

lemma zText_nul_free: "nul_free zText"
  by (simp add: zText_code)

lemma kw_match_iff:
  assumes j: "j < 116" and z: "nul_free z" "n \<le> length z"
  shows "kw_match z n j \<longleftrightarrow> kw_lower (fst (keyword_table ! j)) = map UpperToLower (take n z)"
proof -
  have nf: "nul_free (drop (aOffset ! j) zText)" using zText_nul_free by simp
  have "sqlite3StrNICmp (drop (aOffset ! j) zText) z (int n) = 0 \<longleftrightarrow>
      map UpperToLower (take n (drop (aOffset ! j) zText)) = map UpperToLower (take n z)"
    unfolding sqlite3StrNICmp_def StrNICmp_at_eq [OF nf z(1)] using nf z(1) by simp
  then show ?thesis
    using table_nth(1,3) [OF j] z(2) unfolding kw_match_def kw_lower_def
    by (metis (no_types, lifting) chars_def length_map length_take min.absorb2)
qed

lemma aHash_length: "length aHash = 127"
  by (simp add: aHash_def)

lemma hkey_less: "hkey a b n < 127"
  by (simp add: hkey_def nat_less_iff)

lemma hash_chain_less: "i \<in> set (chain_ids 117 (aHash ! hkey a b n)) \<Longrightarrow> i < 116"
  using chain_ids_less [OF nth_bounded [OF chains_bounded(1), of "hkey a b n"]] hkey_less aHash_length by auto

lemma keyword_hit:
  assumes j: "j < 116" and z: "nul_free z" "n \<le> length z"
    and m: "kw_lower (fst (keyword_table ! j)) = map UpperToLower (take n z)"
  shows "2 \<le> n" "j \<in> set (chain_ids 117 (aHash ! hkey (UpperToLower (cat z 0)) (UpperToLower (cat z (n - 1))) n))"
proof -
  define w where "w = fst (keyword_table ! j)"
  have len: "length w = n" using arg_cong [OF m, of length] z(2) by (simp add: w_def)
  have "list_all (\<lambda>(w, t). 2 \<le> length w) keyword_table" by (simp add: keyword_table_def)
  then show n: "2 \<le> n" using j len by (auto simp: list_all_length w_def split_beta)
  have nth: "kw_lower w ! i = UpperToLower (cat z i)" if "i < n" for i
    using m that z(2) by (simp add: w_def cat_def)
  have hl: "hd (kw_lower w) = UpperToLower (cat z 0)" "last (kw_lower w) = UpperToLower (cat z (n - 1))"
    using nth [of 0] nth [of "n - 1"] n len
      hd_conv_nth [of "kw_lower w"] last_conv_nth [of "kw_lower w"] kw_lower_length [of w] by fastforce+
  have "j \<in> set (chain_ids 117 (aHash ! hkey (hd (kw_lower w)) (last (kw_lower w)) (length w)))"
  proof -
    have "(\<lambda>(i, h). i \<in> set (chain_ids 117 (aHash ! h)))
        (j, (\<lambda>(w, t). hkey (hd (kw_lower w)) (last (kw_lower w)) (length w)) (keyword_table ! j))"
      by (rule list_all_zip_map [OF table_chain table_length [symmetric] j])
    then show ?thesis unfolding w_def prod.case prod.case_eq_if fst_conv snd_conv .
  qed
  then show "j \<in> set (chain_ids 117 (aHash ! hkey (UpperToLower (cat z 0)) (UpperToLower (cat z (n - 1))) n))"
    by (simp add: hl len)
qed

lemma find_unique:
  "x \<in> set xs \<Longrightarrow> P x \<Longrightarrow> \<forall>y \<in> set xs. P y \<longrightarrow> y = x \<Longrightarrow> List.find P xs = Some x"
proof (induction xs)
  case (Cons a xs)
  show ?case
  proof (cases "P a")
    case True
    then have "a = x" using Cons.prems(3) by simp
    then show ?thesis using True by simp
  next
    case False
    then have "x \<in> set xs" using Cons.prems(1,2) by auto
    then show ?thesis using Cons.IH [OF _ Cons.prems(2)] Cons.prems(3) False by simp
  qed
qed simp

lemma keywordCode_lookup:
  assumes z: "nul_free z" "n \<le> length z"
  shows "keywordCode z n =
    (case map_of (map (\<lambda>(w, t). (kw_lower w, t)) keyword_table) (map UpperToLower (take n z)) of Some t \<Rightarrow> t | None \<Rightarrow> TK_ID)"
proof (cases "\<exists>j < 116. kw_lower (fst (keyword_table ! j)) = map UpperToLower (take n z)")
  case True
  then obtain j where j: "j < 116" "kw_lower (fst (keyword_table ! j)) = map UpperToLower (take n z)" by blast
  define c where "c = chain_ids 117 (aHash ! hkey (UpperToLower (cat z 0)) (UpperToLower (cat z (n - 1))) n)"
  have less: "i < 116" if "i \<in> set c" for i
    using that unfolding c_def by (rule hash_chain_less)
  have one: "i = j" if "i \<in> set c" "kw_match z n i" for i
  proof -
    have "kw_lower (fst (keyword_table ! i)) = kw_lower (fst (keyword_table ! j))"
      using kw_match_iff [OF less [OF that(1)] z] that(2) j(2) by simp
    then show ?thesis using nth_eq_iff_index_eq [OF kw_lower_distinct, of i j] less [OF that(1)] j(1)
      by (simp add: split_beta)
  qed
  have "List.find (kw_match z n) c = Some j"
  proof (rule find_unique)
    show "j \<in> set c" unfolding c_def by (rule keyword_hit(2) [OF j(1) z j(2)])
    show "kw_match z n j" using kw_match_iff [OF j(1) z] j(2) by blast
  qed (use one in blast)
  then have "keywordCode z n = snd (keyword_table ! j)"
    using keyword_hit(1) [OF j(1) z j(2)] table_nth(2) [OF j(1)]
    unfolding keywordCode_hkey keyword_chain_find c_def [symmetric] by simp
  moreover have "map_of (map (\<lambda>(w, t). (kw_lower w, t)) keyword_table) (map UpperToLower (take n z)) = Some (snd (keyword_table ! j))"
  proof (rule map_of_is_SomeI)
    show "distinct (map fst (map (\<lambda>(w, t). (kw_lower w, t)) keyword_table))"
      using kw_lower_distinct by (simp add: comp_def prod.case_eq_if)
    have "keyword_table ! j \<in> set keyword_table" using j(1) by simp
    then show "(map UpperToLower (take n z), snd (keyword_table ! j)) \<in> set (map (\<lambda>(w, t). (kw_lower w, t)) keyword_table)"
      using j(2) by (force simp: split_beta)
  qed
  ultimately show ?thesis by simp
next
  case False
  have "List.find (kw_match z n) (chain_ids 117 (aHash ! hkey a b n)) = None" for a b
  proof (cases "List.find (kw_match z n) (chain_ids 117 (aHash ! hkey a b n))")
    case (Some i)
    then have "i \<in> set (chain_ids 117 (aHash ! hkey a b n))" "kw_match z n i"
      by (auto simp: find_Some_iff)
    moreover from this(1) have "i < 116" by (rule hash_chain_less)
    ultimately show ?thesis using False kw_match_iff [OF _ z] by blast
  qed simp
  then have "keywordCode z n = TK_ID" by (simp add: keywordCode_hkey keyword_chain_find)
  moreover have "map_of (map (\<lambda>(w, t). (kw_lower w, t)) keyword_table) (map UpperToLower (take n z)) = None"
    using False by (force simp: map_of_eq_None_iff in_set_conv_nth split_beta)
  ultimately show ?thesis by simp
qed

subsection \<open>The length of a token\<close>

lemma scan_ge: "i \<le> scan p z i"
  by (induction p z i rule: scan.induct) (subst scan.simps, auto)

lemma scan_le: "i \<le> length z \<Longrightarrow> scan p z i \<le> length z"
  by (induction p z i rule: scan.induct) (subst scan.simps, auto)

lemma comment_loop_bounds:
  "i \<le> length z \<Longrightarrow> comment_loop z i c = (e, j) \<Longrightarrow> i \<le> j \<and> j \<le> length z \<and> (e \<noteq> 0 \<longrightarrow> j < length z)"
proof (induction z i c rule: comment_loop.induct)
  case (1 z i c)
  show ?case
    using 1 by (subst (asm) (2) comment_loop.simps) (force simp: cat_def split: if_splits)
qed

lemma string_loop_bounds:
  "i \<le> length z \<Longrightarrow> string_loop d z i = (e, j) \<Longrightarrow> i \<le> j \<and> j \<le> length z \<and> (e \<noteq> 0 \<longrightarrow> j < length z)"
proof (induction d z i rule: string_loop.induct)
  case (1 d z i)
  have lt: "cat z i \<noteq> 0 \<Longrightarrow> i < length z" "cat z (Suc i) \<noteq> 0 \<Longrightarrow> Suc i < length z"
    by (auto simp: cat_def split: if_splits)
  show ?case
    using 1(3,4) lt 1(1) 1(2) by (subst (asm) string_loop.simps) (fastforce split: if_splits)
qed

lemma variable_loop_bounds:
  "i \<le> length z \<Longrightarrow> variable_loop z i n tt = (j, m, t) \<Longrightarrow> i \<le> j \<and> j \<le> length z"
proof (induction z i n tt rule: variable_loop.induct)
  case (1 z i n tt)
  have lt: "cat z k \<noteq> 0 \<Longrightarrow> k < length z" for k by (auto simp: cat_def split: if_splits)
  let ?j = "scan (\<lambda>c. c \<noteq> 0 \<and> \<not> isspace c \<and> c \<noteq> 41) z (Suc i)"
  have j: "cat z i \<noteq> 0 \<Longrightarrow> Suc i \<le> ?j \<and> ?j \<le> length z" using scan_ge scan_le lt by (simp add: Suc_leI)
  show ?case
  proof (cases "cat z i = 0 \<or> IdChar (cat z i) \<or> (cat z i = 40 \<and> n > 0)")
    case True
    then show ?thesis
      using 1(1,3,4) lt [of i] lt [of ?j] j
      by (subst (asm) variable_loop.simps) (fastforce simp: Let_def split: if_splits)
  next
    case False
    then show ?thesis using 1(2-4) lt [of i] lt [of "Suc i"]
      by (subst (asm) variable_loop.simps) (fastforce simp: Let_def split: if_splits)
  qed
qed

lemma blob_loop_bounds:
  "i \<le> length z \<Longrightarrow> blob_loop d z i = (e, j, t) \<Longrightarrow> i \<le> j \<and> j \<le> length z"
proof (induction d z i rule: blob_loop.induct)
  case (1 d z i)
  have lt: "cat z i \<noteq> 0 \<Longrightarrow> i < length z" by (auto simp: cat_def split: if_splits)
  show ?case using 1 lt by (subst (asm) (2) blob_loop.simps) (fastforce split: if_splits)
qed

lemma cat_nonzero_less: "cat z i \<noteq> 0 \<Longrightarrow> i < length z"
  by (auto simp: cat_def split: if_splits)

lemma tok_operator_bounds:
  assumes "tok_operator c d = Some (n, t)"
  shows "1 \<le> n \<and> (n = 1 \<or> n = 2 \<and> (d \<noteq> 0 \<or> c = 33 \<and> t = TK_ILLEGAL))"
  using assms by (auto simp: tok_operator_def split: if_splits)

lemma tok_number_bounds:
  assumes "z \<noteq> []" "cat z 0 = 46 \<and> isdigit (cat z 1) \<or> isdigit (cat z 0)" "tok_number z = (n, t)"
  shows "1 \<le> n \<and> n \<le> length z"
proof -
  have i0: "scan isdigit z 0 \<le> length z" by (simp add: scan_le)
  define i0 where "i0 = scan isdigit z 0"
  define i1 where "i1 = (if cat z i0 = 46 then scan isdigit z (Suc i0) else i0)"
  have i1: "i0 \<le> i1" "i1 \<le> length z"
    using i0 scan_ge [of "Suc i0" isdigit z] scan_le [of "Suc i0" z isdigit] cat_nonzero_less [of z i0]
    by (auto simp: i1_def i0_def)
  have pos: "1 \<le> i1"
  proof (cases "isdigit (cat z 0)")
    case True
    then have "1 \<le> i0" using assms(1) scan_ge [of 1 isdigit z] by (simp add: i0_def scan.simps [of isdigit z 0])
    then show ?thesis using i1 by simp
  next
    case False
    then have "i0 = 0" "cat z 0 = 46" using assms(2) by (auto simp: i0_def scan.simps [of isdigit z 0])
    then show ?thesis using scan_ge [of 1 isdigit z] by (simp add: i1_def)
  qed
  have dig: "k < length z" if "isdigit (cat z k)" for k using that by (rule isdigit_cat)
  have nx: "cat z (i1 + 1) = 43 \<or> cat z (i1 + 1) = 45 \<Longrightarrow> i1 + 1 < length z" by (rule cat_nonzero_less) auto
  show ?thesis
    using assms(3) pos i1 dig [of "i1 + 1"] nx scan_ge [of "i1 + 2" isdigit z] scan_le [of "i1 + 2" z isdigit]
    unfolding tok_number_def i0_def [symmetric] i1_def
    by (auto simp: Let_def split: if_splits)
qed

lemma getToken_bounds:
  assumes z: "z \<noteq> []" "nul_free z" and g: "getToken z = (n, t)"
  shows "1 \<le> n \<and> (n \<le> length z \<or> z = [33] \<and> n = 2 \<and> t = TK_ILLEGAL)"
proof -
  have c0: "cat z 0 \<noteq> 0" using z by (cases z) auto
  have l1: "1 \<le> length z" using z by (cases z) auto
  show ?thesis
  proof (cases "tok_operator (cat z 0) (cat z 1)")
    case (Some r)
    then have "r = (n, t)" using g by (simp add: getToken_def Let_def)
    with Some tok_operator_bounds [of "cat z 0" "cat z 1" n t]
    have b: "1 \<le> n \<and> (n = 1 \<or> n = 2 \<and> (cat z 1 \<noteq> 0 \<or> cat z 0 = 33 \<and> t = TK_ILLEGAL))" by simp
    then show ?thesis
      using l1 cat_nonzero_less [of z 1] by (cases z; cases "tl z") auto
  next
    case None
    have s1: "1 \<le> scan p z 1" "scan p z 1 \<le> length z" for p using scan_ge scan_le l1 by auto
    have s2: "1 \<le> scan p z 2 \<and> scan p z 2 \<le> length z" if "cat z 1 \<noteq> 0" for p
      using scan_ge [of 2 p z] scan_le [of 2 z p] cat_nonzero_less [OF that] by linarith
    have s2': "1 \<le> scan p z 2" "scan p z 2 \<le> length z" if "cat z 1 = 45" for p
      using s2 that by auto
    have cm: "1 \<le> j \<and> j \<le> length z \<and> (e \<noteq> 0 \<longrightarrow> j < length z)"
      if "comment_loop z 3 (cat z 2) = (e, j)" "cat z 2 \<noteq> 0" for e j
      using comment_loop_bounds [of 3 z "cat z 2" e j] that cat_nonzero_less [OF that(2)] by linarith
    have st: "1 \<le> j \<and> j \<le> length z \<and> (e \<noteq> 0 \<longrightarrow> j < length z)" if "string_loop d z 1 = (e, j)" for d e j
      using string_loop_bounds [OF l1 that] by linarith
    have br: "cat z (scan p z 1) = 93 \<Longrightarrow> Suc (scan p z 1) \<le> length z" for p
      using cat_nonzero_less [of z "scan p z 1"] by simp
    have vl: "1 \<le> j \<and> j \<le> length z" if "variable_loop z 1 0 TK_VARIABLE = (j, m, u)" for j m u
      using variable_loop_bounds [OF l1 that] .
    have bl: "1 \<le> j \<and> j \<le> length z" if "blob_loop d z 2 = (e, j, u)" "cat z 1 \<noteq> 0" for d e j u
      using blob_loop_bounds [OF _ that(1)] cat_nonzero_less [OF that(2)] by linarith
    have nb: "1 \<le> m \<and> m \<le> length z" if "tok_number z = (m, u)" "cat z 0 = 46 \<and> isdigit (cat z 1) \<or> isdigit (cat z 0)" for m u
      using tok_number_bounds [OF z(1) that(2,1)] .
    have "1 \<le> n \<and> n \<le> length z"
      using g None l1 unfolding getToken_def Let_def tok_variable_def tok_identifier_def
      by (auto simp: s1 s2' br simp del: One_nat_def dest: s2 cm st vl bl nb split: if_splits prod.splits)
    then show ?thesis by simp
  qed
qed

subsection \<open>The loop over the tokens\<close>

text \<open>
  The parse object as far as \<^verbatim>\<open>sqlite3RunParser\<close> itself uses it. \<open>engine\<close> is everything
  else; \<open>pzErr\<close> is what \<^verbatim>\<open>pzErrMsg\<close> points to (all callers pass a pointer); pointers into
  the text are offsets.
\<close>

datatype errmsg = Unrecognized "nat \<times> nat" | Interrupted | ErrStr rc | ParserMsg string

record 'p Parse =
  engine :: 'p
  prc :: rc
  sLastToken :: "nat \<times> nat"
  zTail :: nat
  zErrMsg :: "errmsg option"
  pzErr :: "errmsg option"
  nErr :: nat
  hasVdbe :: bool
  nested :: nat
  nTableLock :: nat
  interrupt :: bool
  mallocFailed :: bool

abbreviation SQLITE_INTERRUPT :: rc where "SQLITE_INTERRUPT \<equiv> 9"

text \<open>
  The loop; \<open>parser\<close> is \<^verbatim>\<open>sqlite3Parser\<close>, the generated push parser, which gets the token
  code and the token and may do anything to the parse object. The result is the offset, the
  error count, the last token parsed and the object; \<open>None\<close> is a read behind the terminator.
  \<open>getToken\<close> never returns length 0, \<open>max 1\<close> is there for the termination proof.
\<close>

function parser_loop ::
  "(token \<Rightarrow> nat \<times> nat \<Rightarrow> 'p Parse \<Rightarrow> 'p Parse) \<Rightarrow> bytes \<Rightarrow> nat \<Rightarrow> token option \<Rightarrow> 'p Parse \<Rightarrow>
   (nat \<times> nat \<times> token option \<times> 'p Parse) option" where
  "parser_loop parser z i lastTok s =
     (if mallocFailed s then Some (i, 0, lastTok, s)
      else if i > length z then None
      else if cat z i = 0 then Some (i, 0, lastTok, s)
      else
        let (n, tt) = getToken (drop i z);
            s = s\<lparr>sLastToken := (i, n)\<rparr>;
            j = i + max 1 n
        in
        if tt = TK_SPACE \<or> tt = TK_COMMENT then
          (if interrupt s then Some (j, 0, lastTok, s\<lparr>prc := SQLITE_INTERRUPT, pzErr := Some Interrupted\<rparr>)
           else parser_loop parser z j lastTok s)
        else if tt = TK_ILLEGAL then Some (j, 1, lastTok, s\<lparr>pzErr := Some (Unrecognized (i, n))\<rparr>)
        else
          let s = (if tt = TK_SEMI then s\<lparr>zTail := j\<rparr> else s);
              s = parser tt (i, n) s
          in if prc s \<noteq> SQLITE_OK then Some (j, 0, Some tt, s)
             else parser_loop parser z j (Some tt) s)"
  by pat_completeness auto
termination
  by (relation "measure (\<lambda>(p, z, i, l, s). length z - i)") (auto simp: cat_def split: if_splits)
declare parser_loop.simps [simp del]

text \<open>From the label \<^verbatim>\<open>abort_parse\<close> on: the end marker for the parser, and the clean-up.\<close>

definition parser_eof ::
  "(token \<Rightarrow> nat \<times> nat \<Rightarrow> 'p Parse \<Rightarrow> 'p Parse) \<Rightarrow> nat \<Rightarrow> token option \<Rightarrow> 'p Parse \<Rightarrow> 'p Parse" where
  "parser_eof parser i lastTok s =
     (let s = (if lastTok \<noteq> Some TK_SEMI then (parser TK_SEMI (sLastToken s) s)\<lparr>zTail := i\<rparr> else s)
      in parser 0 (sLastToken s) s)"

definition parser_cleanup :: "nat \<Rightarrow> 'p Parse \<Rightarrow> nat \<times> 'p Parse" where
  "parser_cleanup n s =
     (let s = (if mallocFailed s then s\<lparr>prc := SQLITE_NOMEM\<rparr> else s);
          s = (if prc s \<noteq> SQLITE_OK \<and> prc s \<noteq> SQLITE_DONE \<and> zErrMsg s = None
               then s\<lparr>zErrMsg := Some (ErrStr (prc s))\<rparr> else s);
          (n, s) = (if zErrMsg s \<noteq> None
               then (if n = 0 then 1 else n, s\<lparr>pzErr := (if pzErr s = None then zErrMsg s else pzErr s), zErrMsg := None\<rparr>)
               else (n, s));
          s = (if hasVdbe s \<and> nErr s > 0 \<and> nested s = 0 then s\<lparr>hasVdbe := False\<rparr> else s);
          s = (if nested s = 0 then s\<lparr>nTableLock := 0\<rparr> else s);
          s = (if n > 0 \<and> (prc s = SQLITE_OK \<or> prc s = SQLITE_DONE) then s\<lparr>prc := SQLITE_ERROR\<rparr> else s)
      in (n, s))"

definition parser_finish ::
  "(token \<Rightarrow> nat \<times> nat \<Rightarrow> 'p Parse \<Rightarrow> 'p Parse) \<Rightarrow> bytes \<Rightarrow> nat \<times> nat \<times> token option \<times> 'p Parse \<Rightarrow>
   (nat \<times> 'p Parse) option" where
  "parser_finish parser z r =
     (case r of (i, n, lastTok, s) \<Rightarrow>
      if i > length z then None
      else Some (parser_cleanup n (if cat z i = 0 \<and> n = 0 \<and> prc s = SQLITE_OK then parser_eof parser i lastTok s else s)))"

text \<open>\<open>alloc\<close> is whether \<^verbatim>\<open>sqlite3ParserAlloc\<close> succeeds; the count of errors is the result.\<close>

definition sqlite3RunParser ::
  "bool \<Rightarrow> (token \<Rightarrow> nat \<times> nat \<Rightarrow> 'p Parse \<Rightarrow> 'p Parse) \<Rightarrow> bytes \<Rightarrow> 'p Parse \<Rightarrow> (nat \<times> 'p Parse) option" where
  "sqlite3RunParser alloc parser z s =
     (let s = s\<lparr>interrupt := False, prc := SQLITE_OK\<rparr> in
      if \<not> alloc then Some (nat SQLITE_NOMEM, s)
      else case parser_loop parser z 0 None (s\<lparr>zTail := 0\<rparr>) of
             None \<Rightarrow> None
           | Some r \<Rightarrow> parser_finish parser z r)"

subsection \<open>Tokenizing a whole text\<close>

text \<open>The tokens of a text with their lengths.\<close>

function tokens :: "bytes \<Rightarrow> (nat \<times> token) list" where
  "tokens z = (if z = [] then [] else (let (n, t) = getToken z in (n, t) # tokens (drop (max 1 n) z)))"
  by pat_completeness auto
termination by (relation "measure length") auto
declare tokens.simps [simp del]

lemma max1 [simp]: "z \<noteq> [] \<Longrightarrow> nul_free z \<Longrightarrow> getToken z = (n, t) \<Longrightarrow> max 1 n = n"
  using getToken_bounds by fastforce

lemma bang: "getToken [33] = (2, TK_ILLEGAL)"
  by (simp add: getToken_def tok_operator_def)

text \<open>Only an exclamation mark at the end of the text yields a token that is longer than the text.\<close>

lemma loop_in_text:
  assumes "nul_free z" "z \<noteq> [] \<Longrightarrow> last z \<noteq> 33" "i \<le> length z"
  shows "\<exists>j n l s'. parser_loop parser z i lastTok s = Some (j, n, l, s') \<and> j \<le> length z"
  using assms
proof (induction parser z i lastTok s rule: parser_loop.induct)
  case (1 parser z i lastTok s)
  show ?case
  proof (cases "mallocFailed s \<or> i = length z")
    case True
    then show ?thesis using 1(5) by (subst parser_loop.simps) (auto simp: cat_def)
  next
    case False
    then have i: "i < length z" and s: "\<not> mallocFailed s" using 1(5) by auto
    obtain n tt where g: "getToken (drop i z) = (n, tt)" by (cases "getToken (drop i z)")
    have "drop i z \<noteq> [33]"
    proof
      assume d: "drop i z = [33]"
      then have "last z = 33" using last_drop [of i z] i by simp
      then show False using 1(4) i by (cases z) auto
    qed
    then have n: "1 \<le> n" "i + n \<le> length z" using getToken_bounds [OF _ nul_free_drop [OF 1(3)] g] i by auto
    have c: "cat z i \<noteq> 0" using 1(3) i by (auto simp: cat_def nul_free_def dest: nth_mem)
    have mx: "max 1 n = n" using n by simp
    show ?thesis
      using 1(1,2) [OF s _ c g [symmetric] refl refl] 1(3,4) n i s c g
      by (subst parser_loop.simps) (auto simp: Let_def mx simp del: One_nat_def)
  qed
qed


subsection \<open>Properties\<close>

text \<open>
  \<bold>\<open>C18\<close> A token is at least one character long and ends at the latest at the end of the
  text, with one exception: an exclamation mark at the end is reported as two characters.
\<close>

theorem token_in_text:
  assumes "z \<noteq> []" "nul_free z" "getToken z = (n, t)"
  shows "1 \<le> n \<and> (n \<le> length z \<or> z = [33] \<and> n = 2 \<and> t = TK_ILLEGAL)"
  using getToken_bounds [OF assms] .

theorem token_in_text_witness: "getToken [60, 62, 49] = (2, TK_NE) \<and> (2 :: nat) \<le> 3"
  using token_in_text [of "[60, 62, 49]" 2 TK_NE] by (simp add: getToken_def tok_operator_def)

text \<open>
  \<bold>\<open>C19\<close> Keyword lookup through the hash tables is lookup in the list of keywords, without
  regard to case.
\<close>

theorem keyword_code_is_lookup:
  assumes "nul_free z" "n \<le> length z"
  shows "keywordCode z n =
    (case map_of (map (\<lambda>(w, t). (kw_lower w, t)) keyword_table) (map UpperToLower (take n z)) of
       Some t \<Rightarrow> t | None \<Rightarrow> TK_ID)"
  using keywordCode_lookup [OF assms] .

theorem keyword_code_is_lookup_witness: "keywordCode [79, 114, 32] 2 = TK_OR"
  using keyword_code_is_lookup [of "[79, 114, 32]" 2]
  by (simp add: keyword_table_def kw_lower_def chars_def UpperToLower_eq)




text \<open>
  A blob literal without its closing quote is a legal token: the text \<^verbatim>\<open>x'\<close> is a
  blob token of length 2, which is shorter than the three characters that the code generator
  takes off for the quotes and the letter.
\<close>

lemma unterminated_blob_accepted:
  "list_all isxdigit ds \<longrightarrow> getToken (120 # 39 # ds) = (length ds + 2, TK_BLOB)"
proof
  assume "list_all isxdigit ds"
  then have nz: "isxdigit (cat (120 # 39 # ds) i)" if "2 \<le> i" "i < length ds + 2" for i
    using that by (cases i; cases "i - 1") (auto simp: cat_def list_all_length)
  have d: "isxdigit c \<Longrightarrow> c \<noteq> 39 \<and> c \<noteq> 0" for c by (auto simp: isxdigit_def isdigit_def)
  have "blob_loop 39 (120 # 39 # ds) i = (0, length ds + 2, TK_BLOB)" if "2 \<le> i" "i \<le> length ds + 2" for i
    using that
  proof (induction "length ds + 2 - i" arbitrary: i)
    case 0
    then show ?case by (subst blob_loop.simps) (simp add: cat_def)
  next
    case (Suc k)
    then have "blob_loop 39 (120 # 39 # ds) (Suc i) = (0, length ds + 2, TK_BLOB)" by simp
    then show ?case using Suc nz [of i] d by (subst blob_loop.simps) auto
  qed
  then show "getToken (120 # 39 # ds) = (length ds + 2, TK_BLOB)"
    by (simp add: getToken_def tok_operator_def isdigit_def)
qed

lemma unterminated_blob_accepted_short: "getToken [120, 39] = (2, TK_BLOB)"
  using unterminated_blob_accepted [of "[]"] by simp

end
