(* ===== verification/Complete.thy ===== *)
theory Complete
  imports Token
begin

text \<open>
  \<^verbatim>\<open>sqlite3_complete\<close> of \<^verbatim>\<open>complete.c\<close>: whether a text ends at the end of a
  statement. The code has its own scanner and a state machine that knows about
  \<^verbatim>\<open>CREATE TRIGGER\<close>. The main theorem relates it to the tokenizer of
  \<^verbatim>\<open>tokenize.c\<close>.
\<close>

subsection \<open>The state machine\<close>

text \<open>The tokens of \<^verbatim>\<open>sqlite3_complete\<close> and its transition table; states are numbered as there.\<close>

abbreviation (input) tkSEMI :: nat where "tkSEMI \<equiv> 0"
abbreviation (input) tkWS :: nat where "tkWS \<equiv> 1"
abbreviation (input) tkOTHER :: nat where "tkOTHER \<equiv> 2"
abbreviation (input) tkEXPLAIN :: nat where "tkEXPLAIN \<equiv> 3"
abbreviation (input) tkCREATE :: nat where "tkCREATE \<equiv> 4"
abbreviation (input) tkTEMP :: nat where "tkTEMP \<equiv> 5"
abbreviation (input) tkTRIGGER :: nat where "tkTRIGGER \<equiv> 6"
abbreviation (input) tkEND :: nat where "tkEND \<equiv> 7"

definition trans_table :: "nat list list" where
  "trans_table =
    [[0, 0, 1, 2, 3, 1, 1, 1],
     [0, 1, 1, 1, 1, 1, 1, 1],
     [0, 2, 1, 1, 3, 1, 1, 1],
     [0, 3, 1, 1, 1, 3, 4, 1],
     [5, 4, 4, 4, 4, 4, 4, 4],
     [5, 5, 4, 4, 4, 4, 4, 6],
     [0, 6, 4, 4, 4, 4, 4, 4]]"

abbreviation trans :: "nat \<Rightarrow> nat \<Rightarrow> nat" where
  "trans state token \<equiv> trans_table ! state ! token"

subsection \<open>The scanner\<close>

text \<open>The end of a C comment: the index of its last star, or of the terminator.\<close>

function block_end :: "bytes \<Rightarrow> nat \<Rightarrow> nat" where
  "block_end z i = (if cat z i \<noteq> 0 \<and> (cat z i \<noteq> 42 \<or> cat z (Suc i) \<noteq> 47) then block_end z (Suc i) else i)"
  by pat_completeness auto
termination by (relation "measure (\<lambda>(z, i). length z - i)") (auto simp: cat_def split: if_splits)
declare block_end.simps [simp del]

definition keyword_token :: "bytes \<Rightarrow> nat \<Rightarrow> nat" where
  "keyword_token z nId =
     (let c = cat z 0; is = (\<lambda>w. nId = length w \<and> sqlite3StrNICmp z (chars w) (int nId) = 0) in
      if c = 99 \<or> c = 67 then (if is ''create'' then tkCREATE else tkOTHER)
      else if c = 116 \<or> c = 84 then
        (if is ''trigger'' then tkTRIGGER else if is ''temp'' then tkTEMP
         else if is ''temporary'' then tkTEMP else tkOTHER)
      else if c = 101 \<or> c = 69 then
        (if is ''end'' then tkEND else if is ''explain'' then tkEXPLAIN else tkOTHER)
      else tkOTHER)"

text \<open>
  One turn of the loop at the character \<open>i\<close>: a \<^verbatim>\<open>return\<close> with its value (\<open>Inl\<close>), or the
  token and the index of its last character.
\<close>

definition complete_token :: "bytes \<Rightarrow> nat \<Rightarrow> nat \<Rightarrow> bool + nat \<times> nat" where
  "complete_token z i state =
     (let c = cat z i; d = cat z (Suc i) in
      if c = 59 then Inr (tkSEMI, i)
      else if c = 32 \<or> c = 13 \<or> c = 9 \<or> c = 10 \<or> c = 12 then Inr (tkWS, i)
      else if c = 47 then
        (if d \<noteq> 42 then Inr (tkOTHER, i)
         else let j = block_end z (i + 2) in if cat z j = 0 then Inl False else Inr (tkWS, Suc j))
      else if c = 45 then
        (if d \<noteq> 45 then Inr (tkOTHER, i)
         else let j = scan (\<lambda>c. c \<noteq> 0 \<and> c \<noteq> 10) z i in
              if cat z j = 0 then Inl (state = 0) else Inr (tkWS, j))
      else if c = 91 then
        (let j = scan (\<lambda>c. c \<noteq> 0 \<and> c \<noteq> 93) z (Suc i) in
         if cat z j = 0 then Inl False else Inr (tkOTHER, j))
      else if c = 96 \<or> c = 34 \<or> c = 39 then
        (let j = scan (\<lambda>e. e \<noteq> 0 \<and> e \<noteq> c) z (Suc i) in
         if cat z j = 0 then Inl False else Inr (tkOTHER, j))
      else if IdChar c then
        (let j = scan IdChar z (Suc i) in Inr (keyword_token (drop i z) (j - i), j - 1))
      else Inr (tkOTHER, i))"

lemma block_end_bounds: "i \<le> block_end z i \<and> (i \<le> length z \<longrightarrow> block_end z i \<le> length z)"
proof (induction z i rule: block_end.induct)
  case (1 z i)
  then show ?case using cat_nonzero_less [of z i] by (subst (1 2) block_end.simps) auto
qed

lemma complete_token_ge:
  assumes "complete_token z i state = Inr (t, j)"
  shows "i \<le> j"
proof -
  have s: "i \<le> scan p z i" "i \<le> scan p z (Suc i)" "i \<le> scan p z (Suc i) - Suc 0" for p
    using scan_ge [of i p z] scan_ge [of "Suc i" p z] by linarith+
  have b: "i \<le> Suc (block_end z (Suc (Suc i)))" using block_end_bounds [of "Suc (Suc i)" z] by linarith
  show ?thesis using assms s b by (auto simp: complete_token_def Let_def split: if_splits)
qed

function complete_loop :: "bytes \<Rightarrow> nat \<Rightarrow> nat \<Rightarrow> bool" where
  "complete_loop z i state =
     (if cat z i = 0 then state = 0
      else case complete_token z i state of
             Inl r \<Rightarrow> r
           | Inr (t, j) \<Rightarrow> complete_loop z (Suc j) (trans state t))"
  by pat_completeness auto
termination
  by (relation "measure (\<lambda>(z, i, s). length z - i)") (auto dest!: complete_token_ge cat_nonzero_less)
declare complete_loop.simps [simp del]

definition sqlite3_complete :: "bytes \<Rightarrow> bool" where
  "sqlite3_complete zSql = complete_loop zSql 0 0"

subsection \<open>Scanning a rest of the text\<close>

lemma cat_drop_add [simp]: "cat (drop i z) k = cat z (i + k)"
  by (simp add: cat_def add.commute less_diff_conv)

lemma scan_drop: "scan p z (i + k) = i + scan p (drop i z) k"
proof (induction p z "i + k" arbitrary: k rule: scan.induct)
  case (1 p z k)
  show ?case
  proof (cases "i + k < length z \<and> p (cat z (i + k))")
    case True
    then have "scan p z (i + Suc k) = i + scan p (drop i z) (Suc k)" using 1 [of "Suc k"] by simp
    then show ?thesis using True by (simp add: scan.simps [of p z "i + k"] scan.simps [of p "drop i z" k] less_diff_conv add.commute)
  next
    case False
    then show ?thesis by (auto simp: scan.simps [of p z "i + k"] scan.simps [of p "drop i z" k] less_diff_conv add.commute)
  qed
qed

lemma scan_all: "i \<le> k \<Longrightarrow> k < scan p z i \<Longrightarrow> p (cat z k)"
proof (induction p z i rule: scan.induct)
  case (1 p z i)
  have c: "i < length z \<and> p (cat z i)"
  proof (rule ccontr)
    assume "\<not> (i < length z \<and> p (cat z i))"
    then have "scan p z i = i" by (subst scan.simps) auto
    then show False using 1(2,3) by simp
  qed
  then have "scan p z i = scan p z (Suc i)" by (subst scan.simps) auto
  then show ?case using 1 c by (cases "i = k") auto
qed

lemma scan_stop: "scan p z i < length z \<Longrightarrow> \<not> p (cat z (scan p z i))"
proof (induction p z i rule: scan.induct)
  case (1 p z i)
  show ?case
  proof (cases "i < length z \<and> p (cat z i)")
    case True
    then have "scan p z i = scan p z (Suc i)" by (subst scan.simps) simp
    then show ?thesis using 1 True by simp
  next
    case False
    then have "scan p z i = i" by (subst scan.simps) auto
    then show ?thesis using 1(2) False by simp
  qed
qed

lemma block_end_drop: "block_end z (i + k) = i + block_end (drop i z) k"
proof (induction z "i + k" arbitrary: k rule: block_end.induct)
  case (1 z k)
  show ?case
  proof (cases "cat z (i + k) \<noteq> 0 \<and> (cat z (i + k) \<noteq> 42 \<or> cat z (Suc (i + k)) \<noteq> 47)")
    case True
    then have "block_end z (i + Suc k) = i + block_end (drop i z) (Suc k)" by (rule 1) (use True in simp_all)
    moreover have "block_end z (i + k) = block_end z (i + Suc k)" using True by (subst block_end.simps) simp
    moreover have "block_end (drop i z) k = block_end (drop i z) (Suc k)" using True by (subst block_end.simps) simp
    ultimately show ?thesis by simp
  next
    case False
    have "block_end z (i + k) = i + k" using False by (subst block_end.simps) auto
    moreover have "block_end (drop i z) k = k" using False by (subst block_end.simps) auto
    ultimately show ?thesis by simp
  qed
qed

lemma complete_token_drop:
  "complete_token z (i + k) s = (case complete_token (drop i z) k s of Inl r \<Rightarrow> Inl r | Inr (t, j) \<Rightarrow> Inr (t, i + j))"
proof -
  have sc: "scan p z (Suc (i + k)) = i + scan p (drop i z) (Suc k)" for p
    using scan_drop [of p z i "Suc k"] by simp
  have "1 \<le> scan p (drop i z) (Suc k)" "k \<le> scan p (drop i z) (Suc k)" for p using scan_ge [of "Suc k" p "drop i z"] by linarith+
  then have sub: "i + scan p (drop i z) (Suc k) - (i + k) = scan p (drop i z) (Suc k) - k"
    "i + scan p (drop i z) (Suc k) - 1 = i + (scan p (drop i z) (Suc k) - 1)" for p by (simp_all add: Suc_leD)
  note sub = sub sub(2) [unfolded One_nat_def]
  have be: "block_end z (Suc (Suc (i + k))) = i + block_end (drop i z) (Suc (Suc k))"
    using block_end_drop [of z i "Suc (Suc k)"] by simp
  show ?thesis
    by (simp add: complete_token_def Let_def sc sub be scan_drop add.commute [of k i])
qed

lemma complete_loop_add: "complete_loop z (i + k) s = complete_loop (drop i z) k s"
proof (induction z "i + k" s arbitrary: k rule: complete_loop.induct)
  case (1 z s k)
  show ?case
  proof (cases "cat z (i + k) = 0 \<or> isl (complete_token (drop i z) k s)")
    case True
    then show ?thesis
      by (auto simp: complete_loop.simps [of z "i + k"] complete_loop.simps [of "drop i z" k] complete_token_drop isl_def)
  next
    case False
    then obtain t j where j: "complete_token (drop i z) k s = Inr (t, j)" by (cases "complete_token (drop i z) k s") auto
    have "complete_loop z (i + Suc j) (trans s t) = complete_loop (drop i z) (Suc j) (trans s t)"
      by (rule 1) (use False j in \<open>simp_all add: complete_token_drop\<close>)
    then show ?thesis using False j
      by (simp add: complete_loop.simps [of z "i + k"] complete_loop.simps [of "drop i z" k] complete_token_drop)
  qed
qed

lemma complete_loop_drop: "complete_loop z i s = complete_loop (drop i z) 0 s"
  using complete_loop_add [of z i 0] by simp

abbreviation complete_from :: "bytes \<Rightarrow> nat \<Rightarrow> bool" where
  "complete_from z s \<equiv> complete_loop z 0 s"

lemma complete_from_Nil [simp]: "complete_from [] s \<longleftrightarrow> s = 0"
  by (simp add: complete_loop.simps)

lemma complete_from_token:
  "complete_token z 0 s = Inr (t, j) \<Longrightarrow> cat z 0 \<noteq> 0 \<Longrightarrow> complete_from z s = complete_from (drop (Suc j) z) (trans s t)"
  using complete_loop_drop [of z "Suc j" "trans s t"] by (simp add: complete_loop.simps [of z 0])

lemma complete_from_return:
  "complete_token z 0 s = Inl r \<Longrightarrow> cat z 0 \<noteq> 0 \<Longrightarrow> complete_from z s = r"
  by (simp add: complete_loop.simps [of z 0])

subsection \<open>Inside a statement\<close>

text \<open>After any token but a semicolon, white space or a keyword the state is 1 or 4.\<close>

abbreviation inside :: "nat \<Rightarrow> bool" where
  "inside s \<equiv> s = 1 \<or> s = 4"

lemma trans_other: "s < 7 \<Longrightarrow> inside (trans s tkOTHER)"
  unfolding trans_table_def by (simp add: less_Suc_eq numeral_eq_Suc) (elim disjE; simp)

lemma trans_ws [simp]: "s < 7 \<Longrightarrow> trans s (Suc 0) = s"
  unfolding trans_table_def by (simp add: less_Suc_eq numeral_eq_Suc) (elim disjE; simp)

lemma trans_inside: "inside s \<Longrightarrow> 2 \<le> t \<Longrightarrow> t < 8 \<Longrightarrow> trans s t = s"
  unfolding trans_table_def by (simp add: less_Suc_eq numeral_eq_Suc le_Suc_eq) (elim disjE; simp)

lemma keyword_token_range: "2 \<le> keyword_token z n \<and> keyword_token z n < 8"
  by (simp add: keyword_token_def Let_def)

text \<open>Characters that neither start a quoted part or a comment nor end a statement.\<close>

definition plain :: "u8 \<Rightarrow> bool" where
  "plain c \<longleftrightarrow> c \<notin> {0, 59, 32, 13, 9, 10, 12, 47, 45, 91, 96, 34, 39}"

lemma IdChar_plain: "IdChar c \<Longrightarrow> plain c"
proof -
  have "\<not> IdChar c" if "c \<in> {0, 59, 32, 13, 9, 10, 12, 47, 45, 91, 96, 34, 39}"
    using that by (auto simp: IdChar_def sqlite3IsIdChar_def)
  then show "IdChar c \<Longrightarrow> plain c" unfolding plain_def by blast
qed

lemma token_plain:
  "plain (cat z 0) \<Longrightarrow> complete_token z 0 s =
     (if IdChar (cat z 0) then Inr (keyword_token z (scan IdChar z 1), scan IdChar z 1 - 1) else Inr (tkOTHER, 0))"
  by (simp add: complete_token_def plain_def Let_def)

lemma plain_nonzero: "plain c \<Longrightarrow> c \<noteq> 0"
  by (simp add: plain_def)

lemma ident_from:
  assumes "IdChar (cat z 0)"
  shows "complete_from z s = complete_from (drop (scan IdChar z 1) z) (trans s (keyword_token z (scan IdChar z 1)))"
proof -
  have p: "plain (cat z 0)" using IdChar_plain [OF assms] .
  have "1 \<le> scan IdChar z 1" by (rule scan_ge)
  then show ?thesis
    using complete_from_token [of z s] token_plain [OF p, of s] assms plain_nonzero [OF p] by simp
qed

lemma skip_one:
  assumes "inside s" "plain (cat z 0)"
  shows "complete_from z s = complete_from (drop 1 z) s"
proof (cases "IdChar (cat z 0)")
  case True
  have kt: "trans s (keyword_token y m) = s" for y m
    using trans_inside [OF assms(1)] keyword_token_range by blast
  have a: "complete_from z s = complete_from (drop (scan IdChar z 1) z) s" using ident_from [OF True] kt by simp
  show ?thesis
  proof (cases "1 < length z \<and> IdChar (cat z 1)")
    case True
    then have "complete_from (drop 1 z) s = complete_from (drop (scan IdChar (drop 1 z) 1) (drop 1 z)) s"
      using ident_from [of "drop 1 z"] kt by simp
    also have "\<dots> = complete_from (drop (scan IdChar z 2) z) s"
      using scan_drop [of IdChar z 1 1] by (simp add: numeral_2_eq_2 add.commute)
    also have "scan IdChar z 2 = scan IdChar z 1" using True by (subst (2) scan.simps) (simp add: numeral_2_eq_2)
    finally show ?thesis using a by simp
  next
    case False
    then have "scan IdChar z 1 = 1" by (subst scan.simps) auto
    then show ?thesis using a by simp
  qed
next
  case False
  have "trans s tkOTHER = s" using trans_inside [OF assms(1), of 2] by simp
  then show ?thesis using complete_from_token [of z s tkOTHER 0] token_plain [OF assms(2)] False plain_nonzero [OF assms(2)]
    by simp
qed

lemma minus_from:
  "cat z 0 = 45 \<Longrightarrow> cat z 1 \<noteq> 45 \<Longrightarrow> complete_from z s = complete_from (drop 1 z) (trans s tkOTHER)"
  using complete_from_token [of z s tkOTHER 0] by (simp add: complete_token_def)

lemma skip_plain:
  assumes "inside s" "\<forall>k < n. plain (cat z k) \<or> cat z k = 45 \<and> cat z (Suc k) \<noteq> 45"
  shows "complete_from z s = complete_from (drop n z) s"
  using assms(2)
proof (induction n arbitrary: z)
  case (Suc n)
  have o: "trans s tkOTHER = s" using trans_inside [OF assms(1), of 2] by simp
  have "complete_from z s = complete_from (drop 1 z) s"
    using Suc.prems skip_one [OF assms(1), of z] minus_from [of z s] o by fastforce
  also have "\<dots> = complete_from (drop n (drop 1 z)) s"
    by (rule Suc.IH) (use Suc.prems in auto)
  finally show ?case by simp
qed simp

text \<open>A first character that is not the start of a keyword.\<close>

lemma first_other:
  assumes "s < 7" "plain (cat z 0)" "IdChar (cat z 0) \<Longrightarrow> keyword_token z (scan IdChar z 1) = tkOTHER"
  shows "complete_from z s = complete_from (drop 1 z) (trans s tkOTHER)"
proof (cases "IdChar (cat z 0)")
  case True
  have "complete_from z s = complete_from (drop (scan IdChar z 1) z) (trans s tkOTHER)"
    using ident_from [OF True] assms(3) [OF True] by simp
  also have "\<dots> = complete_from (drop (scan IdChar z 1 - 1) (drop 1 z)) (trans s tkOTHER)"
    using scan_ge [of 1 IdChar z] by simp
  also have "\<dots> = complete_from (drop 1 z) (trans s tkOTHER)"
  proof (rule skip_plain [symmetric])
    show "inside (trans s tkOTHER)" using trans_other [OF assms(1)] .
    have id: "IdChar (cat z k)" if "1 \<le> k" "k < scan IdChar z 1" for k
      using scan_all [OF that] .
    show "\<forall>k < scan IdChar z 1 - 1. plain (cat (drop 1 z) k) \<or> cat (drop 1 z) k = 45 \<and> cat (drop 1 z) (Suc k) \<noteq> 45"
      using id IdChar_plain by fastforce
  qed
  finally show ?thesis .
next
  case False
  then show ?thesis using complete_from_token [of z s tkOTHER 0] token_plain [OF assms(2)] plain_nonzero [OF assms(2)]
    by simp
qed

subsection \<open>The keywords\<close>

definition token_class :: "token \<Rightarrow> nat" where
  "token_class t =
     (if t = TK_SEMI then tkSEMI else if t = TK_SPACE \<or> t = TK_COMMENT then tkWS
      else if t = TK_EXPLAIN then tkEXPLAIN else if t = TK_CREATE then tkCREATE else if t = TK_TEMP then tkTEMP
      else if t = TK_TRIGGER then tkTRIGGER else if t = TK_END then tkEND else tkOTHER)"

abbreviation keyword_map :: "bytes \<Rightarrow> token option" where
  "keyword_map \<equiv> map_of (map (\<lambda>(w, t). (kw_lower w, t)) keyword_table)"

lemma class_words:
  "list_all (\<lambda>(w, t). token_class t = tkOTHER \<or>
     w \<in> {''CREATE'', ''TRIGGER'', ''TEMP'', ''TEMPORARY'', ''END'', ''EXPLAIN''}) keyword_table"
  by (simp add: keyword_table_def token_class_def)

lemma kw_lower_words:
  "kw_lower ''CREATE'' = chars ''create''" "kw_lower ''TRIGGER'' = chars ''trigger''"
  "kw_lower ''TEMP'' = chars ''temp''" "kw_lower ''TEMPORARY'' = chars ''temporary''"
  "kw_lower ''END'' = chars ''end''" "kw_lower ''EXPLAIN'' = chars ''explain''"
  by (simp_all add: kw_lower_def chars_def UpperToLower_eq)

lemma keyword_map_entry: "(w, t) \<in> set keyword_table \<Longrightarrow> keyword_map (kw_lower w) = Some t"
proof (rule map_of_is_SomeI)
  show "distinct (map fst (map (\<lambda>(w, t). (kw_lower w, t)) keyword_table))"
    using kw_lower_distinct by (simp add: comp_def prod.case_eq_if)
qed force

lemma class_entries:
  "(''CREATE'', TK_CREATE) \<in> set keyword_table" "(''TRIGGER'', TK_TRIGGER) \<in> set keyword_table"
  "(''TEMP'', TK_TEMP) \<in> set keyword_table" "(''TEMPORARY'', TK_TEMP) \<in> set keyword_table"
  "(''END'', TK_END) \<in> set keyword_table" "(''EXPLAIN'', TK_EXPLAIN) \<in> set keyword_table"
  by (simp_all add: keyword_table_def)

lemmas class_of_words = class_entries [THEN keyword_map_entry, unfolded kw_lower_words]

definition class_word :: "bytes \<Rightarrow> nat" where
  "class_word f =
     (if f = chars ''create'' then tkCREATE else if f = chars ''trigger'' then tkTRIGGER
      else if f = chars ''temp'' \<or> f = chars ''temporary'' then tkTEMP
      else if f = chars ''end'' then tkEND else if f = chars ''explain'' then tkEXPLAIN else tkOTHER)"

lemma class_word_words:
  "class_word (chars ''create'') = tkCREATE" "class_word (chars ''trigger'') = tkTRIGGER"
  "class_word (chars ''temp'') = tkTEMP" "class_word (chars ''temporary'') = tkTEMP"
  "class_word (chars ''end'') = tkEND" "class_word (chars ''explain'') = tkEXPLAIN"
  by (simp_all add: class_word_def chars_def)

lemma keyword_class:
  assumes "nul_free z" "n \<le> length z"
  shows "token_class (keywordCode z n) = class_word (map UpperToLower (take n z))"
proof -
  define f where "f = map UpperToLower (take n z)"
  have k: "keywordCode z n = (case keyword_map f of Some t \<Rightarrow> t | None \<Rightarrow> TK_ID)"
    using keywordCode_lookup [OF assms] by (simp add: f_def)
  have "token_class (case keyword_map f of Some t \<Rightarrow> t | None \<Rightarrow> TK_ID) = class_word f"
  proof (cases "f \<in> {chars ''create'', chars ''trigger'', chars ''temp'', chars ''temporary'', chars ''end'', chars ''explain''}")
    case True
    then show ?thesis by (elim insertE emptyE) (simp_all add: class_of_words class_word_words token_class_def)
  next
    case False
    have "token_class t = tkOTHER" if m: "keyword_map f = Some t" for t
    proof -
      obtain w where w: "(w, t) \<in> set keyword_table" "f = kw_lower w" using map_of_SomeD [OF m] by auto
      have "case (w, t) of (w, t) \<Rightarrow> token_class t = tkOTHER \<or>
          w \<in> {''CREATE'', ''TRIGGER'', ''TEMP'', ''TEMPORARY'', ''END'', ''EXPLAIN''}"
        using class_words [unfolded list_all_iff] w(1) by (rule bspec)
      then have "token_class t = tkOTHER \<or> w \<in> {''CREATE'', ''TRIGGER'', ''TEMP'', ''TEMPORARY'', ''END'', ''EXPLAIN''}"
        by (rule prod.case [THEN iffD1])
      then show ?thesis
      proof
        assume that: "w \<in> {''CREATE'', ''TRIGGER'', ''TEMP'', ''TEMPORARY'', ''END'', ''EXPLAIN''}"
        have "f \<in> {chars ''create'', chars ''trigger'', chars ''temp'', chars ''temporary'', chars ''end'', chars ''explain''}"
          using that by (elim insertE emptyE) (simp_all only: w(2) kw_lower_words insert_iff simp_thms)
        then show ?thesis by (rule notE [OF False])
      qed
    qed
    moreover have "class_word f = tkOTHER" using False by (simp add: class_word_def)
    moreover have "token_class TK_ID = tkOTHER" by (simp add: token_class_def)
    ultimately show ?thesis by (cases "keyword_map f") auto
  qed
  then show ?thesis using k by (simp add: f_def)
qed

lemma word_compare:
  assumes "nul_free z" "n \<le> length z" "nul_free w" "map UpperToLower w = w"
  shows "n = length w \<and> sqlite3StrNICmp z w (int n) = 0 \<longleftrightarrow> map UpperToLower (take n z) = w"
proof -
  have "sqlite3StrNICmp z w (int n) = 0 \<longleftrightarrow> map UpperToLower (take n z) = map UpperToLower (take n w)"
    unfolding sqlite3StrNICmp_def StrNICmp_at_eq [OF assms(1,3)] using assms(1,3) by simp
  then show ?thesis using assms(2,4) by (metis length_map length_take min.absorb2 order_refl take_all)
qed

lemma length_chars [simp]: "length (chars w) = length w"
  by (simp add: chars_def)

lemma lower_words:
  "w \<in> {''create'', ''trigger'', ''temp'', ''temporary'', ''end'', ''explain''} \<Longrightarrow>
   nul_free (chars w) \<and> map UpperToLower (chars w) = chars w"
  by (elim insertE emptyE) (simp_all add: chars_def UpperToLower_eq)

lemma UpperToLower_cases:
  "UpperToLower c = 99 \<longleftrightarrow> c = 99 \<or> c = 67" "UpperToLower c = 116 \<longleftrightarrow> c = 116 \<or> c = 84"
  "UpperToLower c = 101 \<longleftrightarrow> c = 101 \<or> c = 69"
proof -
  have "c + 32 = 99 \<longleftrightarrow> c = 67" "c + 32 = 116 \<longleftrightarrow> c = 84" "c + 32 = 101 \<longleftrightarrow> c = 69"
    by (auto simp: eq_diff_eq [symmetric])
  then show "UpperToLower c = 99 \<longleftrightarrow> c = 99 \<or> c = 67" "UpperToLower c = 116 \<longleftrightarrow> c = 116 \<or> c = 84"
    "UpperToLower c = 101 \<longleftrightarrow> c = 101 \<or> c = 69" by (auto simp: UpperToLower_eq)
qed

lemma keyword_token_class:
  assumes "nul_free z" "1 \<le> n" "n \<le> length z"
  shows "keyword_token z n = class_word (map UpperToLower (take n z))"
proof -
  define f where "f = map UpperToLower (take n z)"
  have wc: "(n = length w \<and> sqlite3StrNICmp z (chars w) (int n) = 0) = (f = chars w)"
    if "w \<in> {''create'', ''trigger'', ''temp'', ''temporary'', ''end'', ''explain''}" for w
    using word_compare [OF assms(1,3), of "chars w"] lower_words [OF that] by (simp add: f_def)
  have h: "hd f = UpperToLower (cat z 0)" using assms(2,3) by (cases z; cases n) (auto simp: f_def)
  have hw: "f = chars (c # w) \<Longrightarrow> UpperToLower (cat z 0) = of_char c" for c w
    using h by (simp add: chars_def)
  have c0: "f = chars ''create'' \<Longrightarrow> cat z 0 = 99 \<or> cat z 0 = 67" "f = chars ''trigger'' \<Longrightarrow> cat z 0 = 116 \<or> cat z 0 = 84"
    "f = chars ''temp'' \<Longrightarrow> cat z 0 = 116 \<or> cat z 0 = 84" "f = chars ''temporary'' \<Longrightarrow> cat z 0 = 116 \<or> cat z 0 = 84"
    "f = chars ''end'' \<Longrightarrow> cat z 0 = 101 \<or> cat z 0 = 69" "f = chars ''explain'' \<Longrightarrow> cat z 0 = 101 \<or> cat z 0 = 69"
    by (drule hw, simp add: UpperToLower_cases)+
  have kt: "keyword_token z n =
      (if cat z 0 = 99 \<or> cat z 0 = 67 then (if f = chars ''create'' then tkCREATE else tkOTHER)
       else if cat z 0 = 116 \<or> cat z 0 = 84 then
         (if f = chars ''trigger'' then tkTRIGGER else if f = chars ''temp'' then tkTEMP
          else if f = chars ''temporary'' then tkTEMP else tkOTHER)
       else if cat z 0 = 101 \<or> cat z 0 = 69 then
         (if f = chars ''end'' then tkEND else if f = chars ''explain'' then tkEXPLAIN else tkOTHER)
       else tkOTHER)"
    unfolding keyword_token_def Let_def
    using wc [of "''create''"] wc [of "''trigger''"] wc [of "''temp''"] wc [of "''temporary''"] wc [of "''end''"] wc [of "''explain''"]
    by (simp only: insert_iff simp_thms)
  have d: "chars ''temp'' \<noteq> chars ''trigger''" "chars ''temporary'' \<noteq> chars ''trigger''"
    "chars ''temporary'' \<noteq> chars ''temp''" "chars ''explain'' \<noteq> chars ''end''"
    by (simp_all add: chars_def)
  have "keyword_token z n = class_word f"
  proof (cases "f \<in> {chars ''create'', chars ''trigger'', chars ''temp'', chars ''temporary'', chars ''end'', chars ''explain''}")
    case True
    have "keyword_token z n = class_word f" if f: "f = w" and c: "f = w \<Longrightarrow> cat z 0 = a \<or> cat z 0 = b"
      and a: "cat z 0 = a \<Longrightarrow> keyword_token z n = class_word f" and b: "cat z 0 = b \<Longrightarrow> keyword_token z n = class_word f" for w a b
      using c [OF f] a b by blast
    note by_first = this
    from True show ?thesis
    proof (elim insertE emptyE)
      assume f: "f = chars ''create''"
      show ?thesis by (rule by_first [OF f c0(1)]) (simp_all add: kt class_word_words f)
    next
      assume f: "f = chars ''trigger''"
      show ?thesis by (rule by_first [OF f c0(2)]) (simp_all add: kt class_word_words f)
    next
      assume f: "f = chars ''temp''"
      show ?thesis by (rule by_first [OF f c0(3)]) (simp_all add: kt class_word_words f d)
    next
      assume f: "f = chars ''temporary''"
      show ?thesis by (rule by_first [OF f c0(4)]) (simp_all add: kt class_word_words f d)
    next
      assume f: "f = chars ''end''"
      show ?thesis by (rule by_first [OF f c0(5)]) (simp_all add: kt class_word_words f d)
    next
      assume f: "f = chars ''explain''"
      show ?thesis by (rule by_first [OF f c0(6)]) (simp_all add: kt class_word_words f d)
    qed
  next
    case False
    then show ?thesis unfolding kt by (simp add: class_word_def)
  qed
  then show ?thesis by (simp add: f_def)
qed

subsection \<open>One token\<close>

lemma drop_all_0: "cat z (scan p z i) = 0 \<Longrightarrow> nul_free z \<Longrightarrow> drop (scan p z i) z = []"
  by (auto simp: cat_def nul_free_def dest: nth_mem split: if_splits)

lemma cat_zero: "nul_free z \<Longrightarrow> cat z i = 0 \<longleftrightarrow> length z \<le> i"
  by (auto simp: cat_def nul_free_def dest: nth_mem)

text \<open>White space.\<close>

lemma skip_space:
  "s < 7 \<Longrightarrow> \<forall>k < n. cat z k \<in> {32, 13, 9, 10, 12} \<Longrightarrow> complete_from z s = complete_from (drop n z) s"
proof (induction n arbitrary: z)
  case (Suc n)
  then have c: "cat z 0 \<in> {32, 13, 9, 10, 12}" by blast
  then have "complete_token z 0 s = Inr (tkWS, 0)" "cat z 0 \<noteq> 0" by (auto simp: complete_token_def)
  then have "complete_from z s = complete_from (drop 1 z) s"
    using complete_from_token [of z s tkWS 0] Suc.prems(1) by simp
  also have "\<dots> = complete_from (drop n (drop 1 z)) s"
    by (rule Suc.IH) (use Suc.prems in auto)
  finally show ?case by simp
qed simp

text \<open>Comments.\<close>

lemma line_comment:
  assumes "nul_free z" "s < 7" "cat z 0 = 45" "cat z 1 = 45"
  shows "complete_from z s = complete_from (drop (scan (\<lambda>c. c \<noteq> 0 \<and> c \<noteq> 10) z 2) z) s"
proof -
  let ?p = "\<lambda>c :: u8. c \<noteq> 0 \<and> c \<noteq> 10"
  have l: "0 < length z" "1 < length z" using assms(3,4) cat_nonzero_less [of z] by auto
  have "scan ?p z 0 = scan ?p z 1" using assms(3) l by (subst scan.simps) simp
  also have "\<dots> = scan ?p z 2" using assms(4) l by (subst scan.simps) (simp del: One_nat_def)
  finally have j: "scan ?p z 2 = scan ?p z 0" by simp
  define j where "j = scan ?p z 0"
  show ?thesis
  proof (cases "cat z j = 0")
    case True
    then have "complete_token z 0 s = Inl (s = 0)" using assms(3,4) by (simp add: complete_token_def j_def)
    then have "complete_from z s = (s = 0)" using complete_from_return [of z s] assms(3) by simp
    moreover have "drop j z = []" using drop_all_0 [OF True [unfolded j_def] assms(1)] by (simp add: j_def)
    ultimately show ?thesis by (simp add: j j_def)
  next
    case False
    have nl: "cat z j = 10" using False scan_stop [of ?p z 0] cat_nonzero_less [OF False] by (auto simp: j_def)
    have "complete_token z 0 s = Inr (tkWS, j)" using assms(3,4) False by (simp add: complete_token_def j_def)
    then have a: "complete_from z s = complete_from (drop (Suc j) z) s"
      using complete_from_token [of z s tkWS j] assms by simp
    have "complete_from (drop j z) s = complete_from (drop 1 (drop j z)) s"
      by (rule skip_space) (use assms(2) nl in auto)
    then show ?thesis using a by (simp add: j j_def)
  qed
qed

lemma comment_loop_end:
  "nul_free z \<Longrightarrow> k < length z \<Longrightarrow> comment_loop z (Suc k) (cat z k) =
     (let j = block_end z k in if cat z j = 0 then (0, j) else (42, Suc j))"
proof (induction "length z - k" arbitrary: k)
  case (Suc m)
  have nz: "cat z k \<noteq> 0" using Suc.prems by (simp add: cat_zero)
  show ?case
  proof (cases "cat z k = 42 \<and> cat z (Suc k) = 47")
    case True
    then have "block_end z k = k" by (subst block_end.simps) simp
    then show ?thesis using True by (subst comment_loop.simps) simp
  next
    case False
    then have b: "block_end z k = block_end z (Suc k)" using nz by (subst block_end.simps) auto
    show ?thesis
    proof (cases "Suc k < length z")
      case True
      then have n1: "cat z (Suc k) \<noteq> 0" using Suc.prems(1) by (simp add: cat_zero)
      have "comment_loop z (Suc k) (cat z k) = comment_loop z (Suc (Suc k)) (cat z (Suc k))"
        using False n1 by (subst comment_loop.simps) auto
      moreover have "comment_loop z (Suc (Suc k)) (cat z (Suc k)) =
          (let j = block_end z (Suc k) in if cat z j = 0 then (0, j) else (42, Suc j))"
        by (rule Suc.hyps(1)) (use Suc.hyps(2) True Suc.prems(1) in auto)
      ultimately show ?thesis unfolding b by (rule trans)
    next
      case False
      then have z1: "cat z (Suc k) = 0" by (simp add: cat_zero [OF Suc.prems(1)])
      have "block_end z (Suc k) = Suc k" using z1 by (subst block_end.simps) simp
      moreover have "comment_loop z (Suc k) (cat z k) = (0, Suc k)" using z1 by (subst comment_loop.simps) auto
      ultimately show ?thesis using b z1 by simp
    qed
  qed
qed simp

text \<open>Quoted strings: a doubled quote looks like the border of two strings.\<close>

lemma quoted_from:
  "cat z 0 = q \<Longrightarrow> q \<in> {96, 34, 39} \<Longrightarrow> complete_from z s =
     (let j = scan (\<lambda>e. e \<noteq> 0 \<and> e \<noteq> q) z 1 in cat z j \<noteq> 0 \<and> complete_from (drop (Suc j) z) (trans s tkOTHER))"
proof -
  assume q: "cat z 0 = q" "q \<in> {96, 34, 39}"
  let ?j = "scan (\<lambda>e. e \<noteq> 0 \<and> e \<noteq> q) z 1"
  have ct: "complete_token z 0 s = (if cat z ?j = 0 then Inl False else Inr (tkOTHER, ?j))"
    using q(2) by (elim insertE emptyE) (simp_all add: complete_token_def Let_def q(1))
  have nz: "cat z 0 \<noteq> 0" using q by auto
  show ?thesis
  proof (cases "cat z ?j = 0")
    case True
    then have "complete_from z s = False" using complete_from_return [OF _ nz, of s False] ct by simp
    then show ?thesis using True by simp
  next
    case False
    then have "complete_from z s = complete_from (drop (Suc ?j) z) (trans s tkOTHER)"
      using complete_from_token [OF _ nz, of s tkOTHER ?j] ct by simp
    then show ?thesis using False by simp
  qed
qed

lemma trans_other_twice: "s < 7 \<Longrightarrow> trans (trans s tkOTHER) tkOTHER = trans s tkOTHER"
  using trans_inside [OF trans_other, of s 2] by simp

lemma trans_other_less: "s < 7 \<Longrightarrow> trans s tkOTHER < 7"
  using trans_other by fastforce

lemma string_from:
  assumes "string_loop q z i = (e, j)" "e \<noteq> 0" "nul_free z" "q \<in> {96, 34, 39}" "s < 7"
  shows "(let k = scan (\<lambda>e. e \<noteq> 0 \<and> e \<noteq> q) z i in cat z k \<noteq> 0 \<and> complete_from (drop (Suc k) z) (trans s tkOTHER)) =
    complete_from (drop (Suc j) z) (trans s tkOTHER)"
  using assms
proof (induction q z i arbitrary: s rule: string_loop.induct)
  case (1 q z i)
  let ?p = "\<lambda>e. e \<noteq> 0 \<and> e \<noteq> q"
  have nz: "cat z i \<noteq> 0" using 1(3,4) by (subst (asm) string_loop.simps) (auto split: if_splits)
  then have il: "i < length z" by (rule cat_nonzero_less)
  have qn: "q \<noteq> 0" using 1(6) by auto
  show ?case
  proof (cases "cat z i = q")
    case True
    then have si: "scan ?p z i = i" by (subst scan.simps) simp
    show ?thesis
    proof (cases "cat z (Suc i) = q")
      case False
      then have "j = i" using 1(3) True nz by (subst (asm) string_loop.simps) auto
      then show ?thesis using si nz by simp
    next
      case nxt: True
      have sl: "string_loop q z (i + 2) = (e, j)" using 1(3) True nxt nz by (subst (asm) string_loop.simps) auto
      have sc: "scan ?p (drop (Suc i) z) 1 + Suc i = scan ?p z (i + 2)" using scan_drop [of ?p z "Suc i" 1] by simp
      have "complete_from (drop (Suc i) z) (trans s tkOTHER) =
        (let k = scan ?p z (i + 2) in cat z k \<noteq> 0 \<and> complete_from (drop (Suc k) z) (trans (trans s tkOTHER) tkOTHER))"
        using quoted_from [of "drop (Suc i) z" q "trans s tkOTHER"] nxt 1(6) sc
        by (simp add: Let_def add.commute)
      also have "\<dots> = complete_from (drop (Suc j) z) (trans (trans s tkOTHER) tkOTHER)"
        by (rule 1(1)) (use nz True nxt sl 1(4-7) trans_other_less in auto)
      finally show ?thesis using si nz trans_other_twice [OF 1(7)] by simp
    qed
  next
    case False
    then have "scan ?p z i = scan ?p z (Suc i)" using nz il by (subst scan.simps) simp
    moreover have "string_loop q z (Suc i) = (e, j)" using 1(3) False nz by (subst (asm) string_loop.simps) auto
    ultimately show ?thesis using 1(2) [OF nz False _ 1(4-7)] by simp
  qed
qed

text \<open>What the two scanners must agree on: legal tokens, simple variable names, closed comments.\<close>

definition lexeme_ok :: "bytes \<Rightarrow> token \<Rightarrow> bool" where
  "lexeme_ok w t \<longleftrightarrow>
     t \<noteq> TK_ILLEGAL \<and> (t = TK_VARIABLE \<longrightarrow> 40 \<notin> set w) \<and>
     (t = TK_COMMENT \<longrightarrow> take 2 w = [47, 42] \<longrightarrow> 4 \<le> length w \<and> drop (length w - 2) w = [42, 47])"

abbreviation advances :: "bytes \<Rightarrow> nat \<Rightarrow> nat \<Rightarrow> token \<Rightarrow> bool" where
  "advances z s n t \<equiv> complete_from z s = complete_from (drop n z) (trans s (token_class t))"

text \<open>A token made of plain characters.\<close>

lemma plain_token:
  assumes "s < 7" "plain (cat z 0)" "IdChar (cat z 0) \<Longrightarrow> keyword_token z (scan IdChar z 1) = tkOTHER"
    and "\<forall>k < n. 1 \<le> k \<longrightarrow> plain (cat z k) \<or> cat z k = 45 \<and> cat z (Suc k) \<noteq> 45" "1 \<le> n" "token_class t = tkOTHER"
  shows "advances z s n t"
proof -
  have "complete_from z s = complete_from (drop 1 z) (trans s tkOTHER)" using first_other [OF assms(1-3)] .
  also have "\<dots> = complete_from (drop (n - 1) (drop 1 z)) (trans s tkOTHER)"
    by (rule skip_plain [OF trans_other [OF assms(1)]]) (use assms(4,5) in auto)
  finally show ?thesis using assms(5,6) by simp
qed

lemma keyword_first:
  "cat z 0 \<notin> {99, 67, 116, 84, 101, 69} \<Longrightarrow> keyword_token z n = tkOTHER"
  by (simp add: keyword_token_def Let_def)

lemma not_letter_digit: "isdigit c \<Longrightarrow> c \<notin> {99, 67, 116, 84, 101, 69}"
  by (auto simp: isdigit_def)

lemma digit_plain: "isdigit c \<Longrightarrow> plain c"
  by (auto simp: isdigit_def plain_def)

lemma operator_step:
  assumes "s < 7" "tok_operator (cat z 0) (cat z 1) = Some (n, t)" "t \<noteq> TK_ILLEGAL"
  shows "advances z s n t"
proof (cases "cat z 0 = 59")
  case True
  then have "n = 1" "t = TK_SEMI" using assms(2) by (simp_all add: tok_operator_def)
  moreover have "complete_token z 0 s = Inr (tkSEMI, 0)" using True by (simp add: complete_token_def)
  ultimately show ?thesis using complete_from_token [of z s tkSEMI 0] True by (simp add: token_class_def)
next
  case False
  define c d where "c = cat z 0" and "d = cat z 1"
  have o: "tok_operator c d = Some (n, t)" "c \<noteq> 59" using assms(2) False by (simp_all add: c_def d_def)
  have f: "plain c" "\<not> IdChar c" "n = 1 \<or> n = 2 \<and> plain d" "token_class t = tkOTHER"
    using o assms(3) by (auto simp: tok_operator_def plain_def IdChar_def sqlite3IsIdChar_def token_class_def split: if_splits)
  show ?thesis
    by (rule plain_token [OF assms(1)]) (use f in \<open>auto simp: c_def d_def less_Suc_eq numeral_2_eq_2\<close>)
qed

lemma isspace_cases: "isspace c \<Longrightarrow> c \<in> {32, 9, 10, 11, 12, 13}"
proof -
  assume "isspace c"
  then have "unat c = 32 \<or> 9 \<le> unat c \<and> unat c \<le> 13" by (auto simp: isspace_def word_le_nat_alt)
  then have "unat c \<in> {32, 9, 10, 11, 12, 13}" by auto
  then show ?thesis by (auto simp: word_unat_eq_iff)
qed

lemma space_step:
  assumes "s < 7" "cat z 0 \<in> {32, 9, 10, 12, 13}" "11 \<notin> set z"
  shows "complete_from z s = complete_from (drop (scan isspace z 1) z) s"
proof (rule skip_space [OF assms(1)], intro allI impI)
  fix k assume k: "k < scan isspace z 1"
  show "cat z k \<in> {32, 13, 9, 10, 12}"
  proof (cases "k = 0")
    case True then show ?thesis using assms(2) by auto
  next
    case False
    then have sp: "isspace (cat z k)" using scan_all [of 1 k isspace z] k by simp
    from isspace_cases [OF sp] have "cat z k \<in> {32, 9, 10, 11, 12, 13}" .
    moreover have "cat z k \<noteq> 11" using assms(3) cat_nonzero_less [of z k] by (auto simp: cat_def dest: nth_mem)
    ultimately show ?thesis by auto
  qed
qed

lemma bracket_step:
  assumes "s < 7" "cat z 0 = 91" "nul_free z"
  shows "complete_from z s = complete_from
    (drop (let i = scan (\<lambda>c. c \<noteq> 0 \<and> c \<noteq> 93) z 1 in if cat z i = 93 then Suc i else i) z) (trans s tkOTHER)"
proof -
  let ?p = "\<lambda>c :: u8. c \<noteq> 0 \<and> c \<noteq> 93"
  let ?j = "scan ?p z 1"
  have ct: "complete_token z 0 s = (if cat z ?j = 0 then Inl False else Inr (tkOTHER, ?j))"
    using assms(2) by (simp add: complete_token_def Let_def)
  show ?thesis
  proof (cases "cat z ?j = 0")
    case True
    have "complete_from z s = False" using complete_from_return [of z s False] ct True assms(2) by simp
    moreover have "drop ?j z = []" using drop_all_0 [OF True assms(3)] .
    ultimately show ?thesis using True trans_other [OF assms(1)] by (auto simp: Let_def)
  next
    case False
    have "cat z ?j = 93" using False scan_stop [of ?p z 1] cat_nonzero_less [OF False] by auto
    then show ?thesis using complete_from_token [of z s tkOTHER ?j] ct assms(2) by (simp add: Let_def)
  qed
qed

lemma slash_step:
  assumes "s < 7" "nul_free z" "cat z 0 = 47" "cat z 1 \<noteq> 42 \<or> cat z 2 = 0"
  shows "complete_from z s = complete_from (drop 1 z) (trans s tkOTHER)"
proof (cases "cat z 1 = 42")
  case False
  then have "complete_token z 0 s = Inr (tkOTHER, 0)" using assms(3) by (simp add: complete_token_def)
  then show ?thesis using complete_from_token [of z s tkOTHER 0] assms(3) by simp
next
  case True
  then have z2: "cat z 2 = 0" using assms(4) by simp
  have "block_end z (Suc (Suc 0)) = 2" using z2 by (subst block_end.simps) (simp add: numeral_2_eq_2)
  then have "complete_token z 0 s = Inl False" using True z2 assms(3) by (simp add: complete_token_def)
  then have a: "complete_from z s = False" using complete_from_return [of z s False] assms(3) by simp
  have star: "plain (cat (drop 1 z) 0)" using True by (simp add: plain_def)
  have "complete_from (drop 1 z) (trans s tkOTHER) = complete_from (drop 1 (drop 1 z)) (trans s tkOTHER)"
    by (rule skip_one [OF trans_other [OF assms(1)] star])
  moreover have "drop 2 z = []" using z2 by (simp add: cat_zero [OF assms(2)])
  ultimately show ?thesis using a trans_other [OF assms(1)] by (auto simp: numeral_2_eq_2)
qed

lemma comment_step:
  assumes "s < 7" "nul_free z" "cat z 0 = 47" "cat z 1 = 42" "cat z 2 \<noteq> 0" "comment_loop z 3 (cat z 2) = (e, i)" "e \<noteq> 0"
  shows "complete_from z s = complete_from (drop (Suc i) z) s"
proof -
  let ?j = "block_end z 2"
  have two: "Suc (Suc 0) = 2" by simp
  have e: "cat z ?j \<noteq> 0" "i = Suc ?j"
    using comment_loop_end [OF assms(2) cat_nonzero_less [OF assms(5)]] assms(6,7)
    by (auto simp: numeral_3_eq_3 numeral_2_eq_2 Let_def split: if_splits)
  then have "complete_token z 0 s = Inr (tkWS, Suc ?j)"
    using assms(3,4) by (simp add: complete_token_def Let_def two)
  then show ?thesis using complete_from_token [of z s tkWS "Suc ?j"] assms(1,3) e by simp
qed

lemma number_step:
  assumes "s < 7" "cat z 0 = 46 \<and> isdigit (cat z 1) \<or> isdigit (cat z 0)" "tok_number z = (n, t)" "1 \<le> n"
  shows "advances z s n t"
proof -
  define i0 where "i0 = scan isdigit z 0"
  define i1 where "i1 = (if cat z i0 = 46 then scan isdigit z (Suc i0) else i0)"
  define ex where "ex \<longleftrightarrow> (cat z i1 = 101 \<or> cat z i1 = 69) \<and> (isdigit (cat z (i1 + 1)) \<or>
    ((cat z (i1 + 1) = 43 \<or> cat z (i1 + 1) = 45) \<and> isdigit (cat z (i1 + 2))))"
  have n: "n = (if ex then scan isdigit z (i1 + 2) else i1)" and t: "t = TK_INTEGER \<or> t = TK_FLOAT"
    using assms(3) unfolding tok_number_def ex_def i1_def i0_def by (auto simp: Let_def split: if_splits)
  have d0: "plain (cat z k)" if "k < i0" for k
    using scan_all [of 0 k isdigit z] that digit_plain by (simp add: i0_def)
  have d1: "plain (cat z k)" if "k < i1" for k
  proof (cases "k < i0")
    case False
    then have dot: "cat z i0 = 46" using that by (auto simp: i1_def split: if_splits)
    show ?thesis
    proof (cases "k = i0")
      case True then show ?thesis using dot by (simp add: plain_def)
    next
      case False
      then have "Suc i0 \<le> k" using \<open>\<not> k < i0\<close> by simp
      then show ?thesis using scan_all [of "Suc i0" k isdigit z] that dot digit_plain by (simp add: i1_def)
    qed
  qed (rule d0)
  have ok: "plain (cat z k) \<or> cat z k = 45 \<and> cat z (Suc k) \<noteq> 45" if "k < n" for k
  proof (cases "k < i1 \<or> \<not> ex")
    case True then show ?thesis using d1 that n by (auto split: if_splits)
  next
    case False
    then have e: "ex" "i1 \<le> k" "k < scan isdigit z (i1 + 2)" using that n by auto
    consider "k = i1" | "k = i1 + 1" | "i1 + 2 \<le> k" using e(2) by linarith
    then show ?thesis
    proof cases
      case 1 then show ?thesis using e(1) by (auto simp: ex_def plain_def)
    next
      case 2
      then show ?thesis using e(1) digit_plain isdigit_0 unfolding ex_def by (auto simp: plain_def)
    next
      case 3
      then show ?thesis using scan_all [OF 3 e(3)] digit_plain by blast
    qed
  qed
  have kw: "keyword_token z m = tkOTHER" for m
    using assms(2) not_letter_digit by (intro keyword_first) auto
  show ?thesis
  proof (rule plain_token [OF assms(1) _ kw _ assms(4)])
    show "plain (cat z 0)" using assms(2) digit_plain by (auto simp: plain_def)
    show "token_class t = tkOTHER" using t by (auto simp: token_class_def)
  qed (use ok in blast)
qed

lemma variable_loop_chars:
  "variable_loop z i n tt = (j, m, t) \<Longrightarrow> i \<le> k \<Longrightarrow> k < j \<Longrightarrow> \<forall>l. i \<le> l \<longrightarrow> l < j \<longrightarrow> cat z l \<noteq> 40 \<Longrightarrow>
   IdChar (cat z k) \<or> cat z k = 58"
proof (induction z i n tt rule: variable_loop.induct)
  case (1 z i n tt)
  note IH2 = 1(2) and prems = 1(3-6)
  let ?q = "scan (\<lambda>c. c \<noteq> 0 \<and> \<not> isspace c \<and> c \<noteq> 41) z (Suc i)"
  have nz: "cat z i \<noteq> 0" using 1(3-5) by (subst (asm) variable_loop.simps) (auto simp: Let_def)
  show ?case
  proof (cases "IdChar (cat z i)")
    case True
    then have v: "variable_loop z (Suc i) (Suc n) tt = (j, m, t)"
      using 1(3) nz by (subst (asm) variable_loop.simps) (simp add: Let_def)
    show ?thesis
    proof (cases "k = i")
      case False
      then show ?thesis using 1(1) [OF refl nz True v] 1(4-6) by simp
    qed (use True in simp)
  next
    case nid: False
    have "cat z i \<noteq> 40" using 1(4-6) by simp
    then consider "cat z i = 58 \<and> cat z (Suc i) = 58" "variable_loop z (i + 2) n tt = (j, m, t)" | "j = i"
      using 1(3) nz nid by (subst (asm) variable_loop.simps) (auto simp: Let_def split: if_splits)
    then show ?thesis
    proof cases
      case 1
      then have p: "\<not> (cat z i = 40 \<and> n > 0)" by auto
      have pk: "\<not> i + 2 \<le> k \<Longrightarrow> k = i \<or> k = Suc i" using prems(2) by linarith
      show ?thesis
      proof (cases "i + 2 \<le> k")
        case True
        then show ?thesis using IH2 [OF refl nz nid p 1] prems(3,4) by simp
      next
        case False
        then have "k = i \<or> k = Suc i" by (rule pk)
        then show ?thesis using 1 by auto
      qed
    qed (use prems(2,3) in simp)
  qed
qed

lemma variable_step:
  assumes "s < 7" "cat z 0 \<in> {35, 36, 64, 58}" "tok_variable z = (n, t)" "1 \<le> n" "n \<le> length z" "lexeme_ok (take n z) t"
  shows "advances z s n t"
proof -
  obtain j m u where v: "variable_loop z 1 0 TK_VARIABLE = (j, m, u)" by (cases "variable_loop z 1 0 TK_VARIABLE") auto
  have ill: "t \<noteq> TK_ILLEGAL" using assms(6) by (simp add: lexeme_ok_def)
  have j: "n = j" "t = u" using assms(3) v ill by (auto simp: tok_variable_def split: if_splits)
  have u: "u = TK_VARIABLE \<or> u = TK_ILLEGAL" if "variable_loop z i k tt = (j, m, u)" "tt = TK_VARIABLE" for i k tt
    using that by (induction z i k tt rule: variable_loop.induct)
      (subst (asm) variable_loop.simps, auto simp: Let_def split: if_splits)
  then have t: "t = TK_VARIABLE" using u [OF v] j ill by simp
  have no: "cat z l \<noteq> 40" if "1 \<le> l" "l < j" for l
  proof -
    have "cat (take n z) l = cat z l" "l < length (take n z)" using that j assms(5) by (auto simp: cat_def)
    moreover have "40 \<notin> set (take n z)" using assms(6) t by (simp add: lexeme_ok_def)
    ultimately show ?thesis by (metis cat_def nth_mem)
  qed
  have ch: "IdChar (cat z k) \<or> cat z k = 58" if "1 \<le> k" "k < n" for k
    by (rule variable_loop_chars [OF v]) (use that no j in auto)
  show ?thesis
  proof (rule plain_token [OF assms(1)])
    show "plain (cat z 0)" using assms(2) by (auto simp: plain_def)
    show "keyword_token z (scan IdChar z 1) = tkOTHER" using assms(2) by (intro keyword_first) auto
    show "\<forall>k < n. 1 \<le> k \<longrightarrow> plain (cat z k) \<or> cat z k = 45 \<and> cat z (Suc k) \<noteq> 45"
      using ch IdChar_plain by (fastforce simp: plain_def)
  qed (use assms(4) t in \<open>simp_all add: token_class_def\<close>)
qed

lemma blob_loop_scan:
  "blob_loop q z i = (e, j, TK_BLOB) \<Longrightarrow> q \<in> {34, 39} \<Longrightarrow> i \<le> length z \<Longrightarrow>
   j = (let k = scan (\<lambda>e. e \<noteq> 0 \<and> e \<noteq> q) z i in if cat z k = 0 then k else Suc k)"
proof (induction q z i rule: blob_loop.induct)
  case (1 q z i)
  let ?p = "\<lambda>e. e \<noteq> 0 \<and> e \<noteq> q"
  show ?case
  proof (cases "cat z i = 0 \<or> cat z i = q")
    case True
    then have "scan ?p z i = i" by (subst scan.simps) auto
    then show ?thesis using 1(2,3) True by (subst (asm) blob_loop.simps) (auto split: if_splits)
  next
    case False
    then have x: "isxdigit (cat z i)" "blob_loop q z (Suc i) = (e, j, TK_BLOB)"
      using 1(2) by (subst (asm) blob_loop.simps, auto split: if_splits)+
    have i: "i < length z" using False cat_nonzero_less by blast
    have "scan ?p z i = scan ?p z (Suc i)" using False i by (subst scan.simps) simp
    then show ?thesis using 1(1) [OF _ _ _ x(2) 1(3)] False x(1) i by simp
  qed
qed

lemma blob_step:
  assumes "s < 7" "nul_free z" "cat z 0 \<in> {120, 88}" "cat z 1 = q" "q \<in> {34, 39}" "blob_loop q z 2 = (e, n, TK_BLOB)"
  shows "complete_from z s = complete_from (drop n z) (trans s tkOTHER)"
proof -
  let ?p = "\<lambda>e. e \<noteq> 0 \<and> e \<noteq> q"
  define k where "k = scan ?p z 2"
  have l: "2 \<le> length z" using assms(4,5) cat_nonzero_less [of z 1] by auto
  have n: "n = (if cat z k = 0 then k else Suc k)" using blob_loop_scan [OF assms(6,5) l] by (simp add: Let_def k_def)
  have o: "trans s tkOTHER < 7" "trans (trans s tkOTHER) tkOTHER = trans s tkOTHER"
    using trans_other_less trans_other_twice assms(1) by auto
  have "complete_from z s = complete_from (drop 1 z) (trans s tkOTHER)"
    by (rule first_other [OF assms(1)]) (use assms(3) in \<open>auto simp: plain_def intro!: keyword_first\<close>)
  also have "\<dots> = (cat z k \<noteq> 0 \<and> complete_from (drop (Suc k) z) (trans s tkOTHER))"
    using quoted_from [of "drop 1 z" q "trans s tkOTHER"] assms(4,5) scan_drop [of ?p z 1 1] o
    by (auto simp: Let_def k_def numeral_2_eq_2)
  also have "\<dots> = complete_from (drop n z) (trans s tkOTHER)"
  proof (cases "cat z k = 0")
    case True
    then have "drop n z = []" using n cat_zero [OF assms(2)] by simp
    then show ?thesis using True trans_other [OF assms(1)] by auto
  next
    case False then show ?thesis using n by simp
  qed
  finally show ?thesis .
qed

lemma identifier_step:
  assumes "s < 7" "nul_free z" "z \<noteq> []" "tok_identifier z = (n, t)" "t \<noteq> TK_ILLEGAL"
  shows "advances z s n t"
proof -
  have i: "IdChar (cat z 0)" "n = scan IdChar z 1" "t = keywordCode z n"
    using assms(4,5) by (auto simp: tok_identifier_def Let_def split: if_splits)
  have "1 \<le> n" "n \<le> length z" using assms(3) scan_ge [of 1 IdChar z] scan_le [of 1 z IdChar] i(2) by (cases z, auto)+
  then have "token_class t = keyword_token z n"
    using keyword_class [OF assms(2)] keyword_token_class [OF assms(2)] i(3) by simp
  then show ?thesis using ident_from [OF i(1), of s] i(2) by simp
qed

lemma string_step:
  assumes "s < 7" "nul_free z" "cat z 0 = q" "q \<in> {96, 34, 39}" "string_loop q z 1 = (e, i)" "e \<noteq> 0"
  shows "complete_from z s = complete_from (drop (Suc i) z) (trans s tkOTHER)"
  using quoted_from [OF assms(3,4), of s] string_from [OF assms(5,6,2,4,1)] by simp

lemma block_end_le: "cat z k = 42 \<Longrightarrow> cat z (Suc k) = 47 \<Longrightarrow> i \<le> k \<Longrightarrow> block_end z i \<le> k"
proof (induction z i rule: block_end.induct)
  case (1 z i)
  show ?case
  proof (cases "cat z i \<noteq> 0 \<and> (cat z i \<noteq> 42 \<or> cat z (Suc i) \<noteq> 47)")
    case True
    then have "i \<noteq> k" using 1(2,3) by auto
    then show ?thesis using 1 True by (subst block_end.simps) simp
  next
    case False
    then have "block_end z i = i" by (subst block_end.simps) auto
    then show ?thesis using 1(4) by simp
  qed
qed

text \<open>A closed comment ends at the first star and slash.\<close>

lemma closed_comment:
  assumes "nul_free z" "cat z 0 = 47" "cat z 1 = 42" "cat z 2 \<noteq> 0" "comment_loop z 3 (cat z 2) = (0, i)" "lexeme_ok (take i z) TK_COMMENT"
  shows False
proof -
  have j: "cat z (block_end z 2) = 0" "i = block_end z 2"
    using comment_loop_end [OF assms(1) cat_nonzero_less [OF assms(4)]] assms(5)
    by (auto simp: Let_def split: if_splits)
  have "block_end z 2 \<le> length z" using block_end_bounds [of 2 z] cat_nonzero_less [OF assms(4)] by simp
  then have i: "i = length z" "2 < i" using j cat_zero [OF assms(1)] cat_nonzero_less [OF assms(4)] by auto
  have "take 2 z = [47, 42]" using assms(2,3) i by (cases z; cases "tl z") (auto simp: numeral_2_eq_2)
  then have e: "drop (length z - 2) z = [42, 47]" "4 \<le> length z"
    using assms(6) i by (simp_all add: lexeme_ok_def)
  define k where "k = length z - 2"
  have k: "Suc (Suc k) = length z" using e(2) by (simp add: k_def)
  have "cat z k = 42" "cat z (Suc k) = 47"
    using arg_cong [OF e(1), of "\<lambda>x. cat x 0"] arg_cong [OF e(1), of "\<lambda>x. cat x 1"] by (simp_all add: k_def)
  then have "block_end z 2 \<le> k" using block_end_le [of z k 2] e(2) by (simp add: k_def)
  then show False using j i k by simp
qed

lemma getToken_other:
  "tok_operator (cat z 0) (cat z 1) = None \<Longrightarrow> getToken z =
     (if cat z 0 = 32 \<or> cat z 0 = 9 \<or> cat z 0 = 10 \<or> cat z 0 = 12 \<or> cat z 0 = 13 then (scan isspace z 1, TK_SPACE)
      else if cat z 0 = 45 then
        (if cat z 1 = 45 then (scan (\<lambda>c. c \<noteq> 0 \<and> c \<noteq> 10) z 2, TK_COMMENT) else (1, TK_MINUS))
      else if cat z 0 = 47 then
        (if cat z 1 \<noteq> 42 \<or> cat z 2 = 0 then (1, TK_SLASH)
         else case comment_loop z 3 (cat z 2) of (e, i) \<Rightarrow> (if e \<noteq> 0 then Suc i else i, TK_COMMENT))
      else if cat z 0 = 96 \<or> cat z 0 = 39 \<or> cat z 0 = 34 then
        (case string_loop (cat z 0) z 1 of (e, i) \<Rightarrow> if e \<noteq> 0 then (Suc i, TK_STRING) else (i, TK_ILLEGAL))
      else if cat z 0 = 46 \<and> \<not> isdigit (cat z 1) then (1, TK_DOT)
      else if cat z 0 = 46 \<or> isdigit (cat z 0) then tok_number z
      else if cat z 0 = 91 then
        (let i = scan (\<lambda>c. c \<noteq> 0 \<and> c \<noteq> 93) z 1 in (if cat z i = 93 then Suc i else i, TK_ID))
      else if cat z 0 = 63 then (scan isdigit z 1, TK_VARIABLE)
      else if cat z 0 = 35 \<and> scan isdigit z 1 > 1 then (scan isdigit z 1, TK_REGISTER)
      else if cat z 0 = 35 \<or> cat z 0 = 36 \<or> cat z 0 = 64 \<or> cat z 0 = 58 then tok_variable z
      else if (cat z 0 = 120 \<or> cat z 0 = 88) \<and> (cat z 1 = 39 \<or> cat z 1 = 34) then
        (case blob_loop (cat z 1) z 2 of (e, i, t) \<Rightarrow> (i, t))
      else tok_identifier z)"
  by (simp only: getToken_def Let_def option.case)

lemma token_step:
  assumes s: "s < 7" and z: "nul_free z" "z \<noteq> []" "11 \<notin> set z" and g: "getToken z = (n, t)" and ok: "lexeme_ok (take n z) t"
  shows "advances z s n t"
proof (cases "tok_operator (cat z 0) (cat z 1)")
  case (Some r)
  then have "r = (n, t)" using g by (simp add: getToken_def Let_def)
  then show ?thesis using operator_step [OF s] Some ok by (simp add: lexeme_ok_def)
next
  case None
  define c where "c = cat z 0"
  have ill: "t \<noteq> TK_ILLEGAL" using ok by (simp add: lexeme_ok_def)
  have bd: "1 \<le> n" "n \<le> length z" using getToken_bounds [OF z(2,1) g] ill by auto
  note G = g [unfolded getToken_other [OF None], folded c_def]
  have cls: "token_class TK_SPACE = tkWS" "token_class TK_COMMENT = tkWS" "token_class TK_MINUS = tkOTHER"
    "token_class TK_SLASH = tkOTHER" "token_class TK_STRING = tkOTHER" "token_class TK_DOT = tkOTHER"
    "token_class TK_ID = tkOTHER" "token_class TK_VARIABLE = tkOTHER" "token_class TK_REGISTER = tkOTHER"
    "token_class TK_BLOB = tkOTHER" by (simp_all add: token_class_def)
  have ws: "trans s tkWS = s" using s by simp
  consider (sp) "c \<in> {32, 9, 10, 12, 13}" | (minus) "c = 45" | (slash) "c = 47" | (quote) "c \<in> {96, 34, 39}"
    | (dot) "c = 46" | (digit) "isdigit c" | (bracket) "c = 91" | (quest) "c = 63" | (hash) "c \<in> {35, 36, 64, 58}"
    | (blob) "c \<in> {120, 88}" "cat z 1 \<in> {39, 34}"
    | (id) "c \<notin> {32, 9, 10, 12, 13, 45, 47, 96, 34, 39, 46, 91, 63, 35, 36, 64, 58}" "\<not> isdigit c"
       "\<not> (c \<in> {120, 88} \<and> cat z 1 \<in> {39, 34})" by blast
  then show ?thesis
  proof cases
    case sp
    then have "n = scan isspace z 1" "t = TK_SPACE" using G by auto
    then show ?thesis using space_step [OF s] sp z(3) ws cls by (simp add: c_def)
  next
    case minus
    then have "if cat z 1 = 45 then n = scan (\<lambda>c. c \<noteq> 0 \<and> c \<noteq> 10) z 2 \<and> t = TK_COMMENT else n = 1 \<and> t = TK_MINUS"
      using G by (auto split: if_splits)
    then show ?thesis
      using line_comment [OF z(1) s] minus_from [of z s] minus ws cls by (auto simp: c_def split: if_splits)
  next
    case slash
    show ?thesis
    proof (cases "cat z 1 \<noteq> 42 \<or> cat z 2 = 0")
      case True
      then have "n = 1" "t = TK_SLASH" using G slash by auto
      then show ?thesis using slash_step [OF s z(1)] slash True cls by (simp add: c_def)
    next
      case False
      obtain e i where e: "comment_loop z 3 (cat z 2) = (e, i)" by (cases "comment_loop z 3 (cat z 2)")
      have nt: "n = (if e \<noteq> 0 then Suc i else i)" "t = TK_COMMENT" using G slash False e by auto
      have "e \<noteq> 0"
      proof
        assume e0: "e = 0"
        then have "n = i" using nt by simp
        then show False using closed_comment [OF z(1), of i] slash False e e0 ok nt(2) by (simp add: c_def)
      qed
      then show ?thesis using comment_step [OF s z(1)] slash False e nt ws cls by (simp add: c_def)
    qed
  next
    case quote
    obtain e i where e: "string_loop c z 1 = (e, i)" by (cases "string_loop c z 1")
    then have "e \<noteq> 0" "n = Suc i" "t = TK_STRING" using G quote ill by (auto split: if_splits)
    then show ?thesis using string_step [OF s z(1) _ quote e] cls by (simp add: c_def)
  next
    case dot
    show ?thesis
    proof (cases "isdigit (cat z 1)")
      case True
      then have "tok_number z = (n, t)" using G dot by simp
      then show ?thesis using number_step [OF s _ _ bd(1)] True dot by (simp add: c_def)
    next
      case False
      then have nt: "n = 1" "t = TK_DOT" using G dot by auto
      show ?thesis unfolding nt
        by (rule plain_token [OF s]) (use dot cls in \<open>auto simp: c_def plain_def keyword_first\<close>)
    qed
  next
    case digit
    then have "c \<notin> {32, 9, 10, 12, 13, 45, 47, 96, 39, 34, 46}" by (auto simp: isdigit_def)
    then have "tok_number z = (n, t)" using G digit by simp
    then show ?thesis using number_step [OF s _ _ bd(1)] digit by (simp add: c_def)
  next
    case bracket
    then have "n = (let i = scan (\<lambda>c. c \<noteq> 0 \<and> c \<noteq> 93) z 1 in if cat z i = 93 then Suc i else i)" "t = TK_ID"
      using G by (auto simp: isdigit_def Let_def split: if_splits)
    then show ?thesis using bracket_step [OF s _ z(1)] bracket cls by (simp add: c_def)
  next
    case quest
    then have nt: "n = scan isdigit z 1" "t = TK_VARIABLE" using G by (auto simp: isdigit_def)
    show ?thesis
      by (rule plain_token [OF s]) (use quest nt cls bd scan_all [of 1 _ isdigit z] digit_plain in \<open>auto simp: c_def plain_def keyword_first\<close>)
  next
    case hash
    show ?thesis
    proof (cases "c = 35 \<and> scan isdigit z 1 > 1")
      case True
      then have nt: "n = scan isdigit z 1" "t = TK_REGISTER" using G by (auto simp: isdigit_def)
      show ?thesis
        by (rule plain_token [OF s]) (use True nt cls bd scan_all [of 1 _ isdigit z] digit_plain in \<open>auto simp: c_def plain_def keyword_first\<close>)
    next
      case False
      then have "tok_variable z = (n, t)" using G hash by (auto simp: isdigit_def split: if_splits)
      then show ?thesis using variable_step [OF s _ _ bd ok] hash by (simp add: c_def)
    qed
  next
    case blob
    obtain e i u where b: "blob_loop (cat z 1) z 2 = (e, i, u)" by (cases "blob_loop (cat z 1) z 2") auto
    then have iu: "i = n" "u = t" using G blob by (auto simp: isdigit_def)
    have "u = TK_BLOB \<or> u = TK_ILLEGAL" if "blob_loop q z k = (e, i, u)" for q k
      using that by (induction q z k rule: blob_loop.induct)
        (subst (asm) blob_loop.simps, auto split: if_splits)
    then have "u = TK_BLOB" using b iu ill by blast
    then show ?thesis using blob_step [OF s z(1) _ refl _ ] blob b iu cls by (auto simp: c_def)
  next
    case id
    then have "tok_identifier z = (n, t)" using G by auto
    then show ?thesis by (rule identifier_step [OF s z(1,2) _ ill])
  qed
qed

subsection \<open>Properties\<close>

text \<open>The tokens of a text are acceptable to both scanners, one after the other.\<close>

function text_ok :: "bytes \<Rightarrow> bool" where
  "text_ok z =
     (if z = [] then True
      else let (n, t) = getToken z in lexeme_ok (take n z) t \<and> text_ok (drop (max 1 n) z))"
  by pat_completeness auto
termination by (relation "measure length") auto
declare text_ok.simps [simp del]

lemma trans_less: "s < 7 \<Longrightarrow> t < 8 \<Longrightarrow> trans s t < 7"
proof -
  assume s: "s < 7" and t: "t < 8"
  have "list_all (\<lambda>row. length row = 8 \<and> list_all (\<lambda>x. x < 7) row) trans_table" by (simp add: trans_table_def)
  then have "length (trans_table ! s) = 8 \<and> list_all (\<lambda>x. x < 7) (trans_table ! s)"
    using s by (simp add: list_all_length trans_table_def)
  then show ?thesis using t by (simp add: list_all_length)
qed

lemma token_class_less: "token_class t < 8"
  by (simp add: token_class_def)

lemma complete_from_tokens:
  "nul_free z \<Longrightarrow> 11 \<notin> set z \<Longrightarrow> text_ok z \<Longrightarrow> s < 7 \<Longrightarrow>
   complete_from z s \<longleftrightarrow> foldl (\<lambda>s (n, t). trans s (token_class t)) s (tokens z) = 0"
proof (induction z arbitrary: s rule: tokens.induct)
  case (1 z)
  show ?case
  proof (cases "z = []")
    case True
    then show ?thesis by (simp add: tokens.simps)
  next
    case False
    obtain n t where g: "getToken z = (n, t)" by (cases "getToken z")
    have mx: "max 1 n = n" by (rule max1 [OF False 1(2) g])
    have ok: "lexeme_ok (take n z) t" "text_ok (drop n z)"
      using 1(4) False g mx by (subst (asm) text_ok.simps, simp del: max1)+
    have "complete_from z s = complete_from (drop n z) (trans s (token_class t))"
      using token_step [OF 1(5,2) False 1(3) g ok(1)] .
    also have "\<dots> \<longleftrightarrow> foldl (\<lambda>s (n, t). trans s (token_class t)) (trans s (token_class t)) (tokens (drop n z)) = 0"
      using 1(1) [OF False g [symmetric] refl, unfolded mx] 1(2,3) ok(2) trans_less [OF 1(5) token_class_less]
      by (auto dest: in_set_dropD)
    finally show ?thesis using False g mx by (subst tokens.simps) (simp del: max1)
  qed
qed



end
