(* ===== verification/Utf.thy ===== *)
theory Utf
  imports Str
begin

text \<open>
  Text encodings: the macros of \<^verbatim>\<open>utf.c\<close> that read, write and skip one character of
  UTF-8 and UTF-16 text, and the routines built from them. A macro that advances a pointer
  is a function from an index to the value and the next index; a text is read with \<open>cat\<close>,
  so bytes behind its end read as 0. Characters are C \<^verbatim>\<open>int\<close>s. The native byte order is
  little-endian.
\<close>

unbundle bit_operations_syntax

subsection \<open>UTF-8\<close>

definition xtra_utf8_bytes :: "nat list" where
  "xtra_utf8_bytes =
    [0, 0, 0, 0, 0, 0, 0, 0, 0, 0, 0, 0, 0, 0, 0, 0, 0, 0, 0, 0, 0, 0, 0, 0, 0, 0, 0, 0, 0, 0, 0, 0,
     0, 0, 0, 0, 0, 0, 0, 0, 0, 0, 0, 0, 0, 0, 0, 0, 0, 0, 0, 0, 0, 0, 0, 0, 0, 0, 0, 0, 0, 0, 0, 0,
     0, 0, 0, 0, 0, 0, 0, 0, 0, 0, 0, 0, 0, 0, 0, 0, 0, 0, 0, 0, 0, 0, 0, 0, 0, 0, 0, 0, 0, 0, 0, 0,
     0, 0, 0, 0, 0, 0, 0, 0, 0, 0, 0, 0, 0, 0, 0, 0, 0, 0, 0, 0, 0, 0, 0, 0, 0, 0, 0, 0, 0, 0, 0, 0,
     255, 255, 255, 255, 255, 255, 255, 255, 255, 255, 255, 255, 255, 255, 255, 255,
     255, 255, 255, 255, 255, 255, 255, 255, 255, 255, 255, 255, 255, 255, 255, 255,
     255, 255, 255, 255, 255, 255, 255, 255, 255, 255, 255, 255, 255, 255, 255, 255,
     255, 255, 255, 255, 255, 255, 255, 255, 255, 255, 255, 255, 255, 255, 255, 255,
     1, 1, 1, 1, 1, 1, 1, 1, 1, 1, 1, 1, 1, 1, 1, 1, 1, 1, 1, 1, 1, 1, 1, 1, 1, 1, 1, 1, 1, 1, 1, 1,
     2, 2, 2, 2, 2, 2, 2, 2, 2, 2, 2, 2, 2, 2, 2, 2,
     3, 3, 3, 3, 3, 3, 3, 3, 255, 255, 255, 255, 255, 255, 255, 255]"

definition xtra_utf8_bits :: "int list" where
  "xtra_utf8_bits = [0, 12416, 925824, 63447168]"

text \<open>A byte of the text as an \<^verbatim>\<open>int\<close>.\<close>

abbreviation byte :: "bytes \<Rightarrow> nat \<Rightarrow> int" where
  "byte z i \<equiv> uint (cat z i)"

definition READ_UTF8 :: "bytes \<Rightarrow> nat \<Rightarrow> int \<times> nat" where
  "READ_UTF8 z i =
     (let c = byte z i; xtra = xtra_utf8_bytes ! unat (cat z i) in
      if xtra = 255 then (0xFFFD, i + 1)
      else if xtra = 3 then
        (push_bit 6 (push_bit 6 (push_bit 6 c + byte z (i + 1)) + byte z (i + 2)) + byte z (i + 3) - xtra_utf8_bits ! xtra, i + 4)
      else if xtra = 2 then
        (push_bit 6 (push_bit 6 c + byte z (i + 1)) + byte z (i + 2) - xtra_utf8_bits ! xtra, i + 3)
      else if xtra = 1 then (push_bit 6 c + byte z (i + 1) - xtra_utf8_bits ! xtra, i + 2)
      else (c, i + 1))"

definition sqlite3ReadUtf8 :: "bytes \<Rightarrow> int" where
  "sqlite3ReadUtf8 z = fst (READ_UTF8 z 0)"

definition SKIP_UTF8 :: "bytes \<Rightarrow> nat \<Rightarrow> nat" where
  "SKIP_UTF8 z i = i + (xtra_utf8_bytes ! unat (cat z i) + 1)"

definition WRITE_UTF8 :: "int \<Rightarrow> bytes" where
  "WRITE_UTF8 c =
     (if c < 0x00080 then [of_int (c AND 0xFF)]
      else if c < 0x00800 then [of_int (0xC0 + (drop_bit 6 c AND 0x1F)), of_int (0x80 + (c AND 0x3F))]
      else if c < 0x10000 then
        [of_int (0xE0 + (drop_bit 12 c AND 0x0F)), of_int (0x80 + (drop_bit 6 c AND 0x3F)), of_int (0x80 + (c AND 0x3F))]
      else
        [of_int (0xF0 + (drop_bit 18 c AND 0x07)), of_int (0x80 + (drop_bit 12 c AND 0x3F)),
         of_int (0x80 + (drop_bit 6 c AND 0x3F)), of_int (0x80 + (c AND 0x3F))])"

subsection \<open>UTF-16\<close>

definition WRITE_UTF16LE :: "int \<Rightarrow> bytes" where
  "WRITE_UTF16LE c =
     (if c \<le> 0xFFFF then [of_int (c AND 0x00FF), of_int (drop_bit 8 c AND 0x00FF)]
      else
        [of_int ((drop_bit 10 c AND 0x003F) + (drop_bit 10 (c - 0x10000) AND 0x00C0)),
         of_int (0x00D8 + (drop_bit 18 (c - 0x10000) AND 0x03)),
         of_int (c AND 0x00FF), of_int (0x00DC + (drop_bit 8 c AND 0x03))])"

definition WRITE_UTF16BE :: "int \<Rightarrow> bytes" where
  "WRITE_UTF16BE c =
     (if c \<le> 0xFFFF then [of_int (drop_bit 8 c AND 0x00FF), of_int (c AND 0x00FF)]
      else
        [of_int (0x00D8 + (drop_bit 18 (c - 0x10000) AND 0x03)),
         of_int ((drop_bit 10 c AND 0x003F) + (drop_bit 10 (c - 0x10000) AND 0x00C0)),
         of_int (0x00DC + (drop_bit 8 c AND 0x03)), of_int (c AND 0x00FF)])"

text \<open>The value of a surrogate pair.\<close>

definition surrogates :: "int \<Rightarrow> int \<Rightarrow> int" where
  "surrogates c c2 = (c2 AND 0x03FF) + push_bit 10 (c AND 0x003F) + push_bit 10 ((c AND 0x03C0) + 0x0040)"

definition READ_UTF16LE :: "bytes \<Rightarrow> nat \<Rightarrow> int \<times> nat" where
  "READ_UTF16LE z i =
     (let c = byte z i + push_bit 8 (byte z (i + 1)) in
      if c \<ge> 0xD800 \<and> c \<le> 0xE000 then (surrogates c (byte z (i + 2) + push_bit 8 (byte z (i + 3))), i + 4)
      else (c, i + 2))"

definition READ_UTF16BE :: "bytes \<Rightarrow> nat \<Rightarrow> int \<times> nat" where
  "READ_UTF16BE z i =
     (let c = push_bit 8 (byte z i) + byte z (i + 1) in
      if c \<ge> 0xD800 \<and> c \<le> 0xE000 then (surrogates c (push_bit 8 (byte z (i + 2)) + byte z (i + 3)), i + 4)
      else (c, i + 2))"

definition SKIP_UTF16BE :: "bytes \<Rightarrow> nat \<Rightarrow> nat" where
  "SKIP_UTF16BE z i =
     (if cat z i \<ge> 0xD8 \<and> (cat z i < 0xE0 \<or> (cat z i = 0xE0 \<and> cat z (i + 1) = 0x00)) then i + 4 else i + 2)"

definition SKIP_UTF16LE :: "bytes \<Rightarrow> nat \<Rightarrow> nat" where
  "SKIP_UTF16LE z i =
     (if cat z (i + 1) \<ge> 0xD8 \<and> (cat z (i + 1) < 0xE0 \<or> (cat z (i + 1) = 0xE0 \<and> cat z i = 0x00))
      then i + 4 else i + 2)"

text \<open>Going backwards; the index may drop below the start of the text.\<close>

definition icat :: "bytes \<Rightarrow> int \<Rightarrow> u8" where
  "icat z i = (if i < 0 then 0 else cat z (nat i))"

definition RSKIP_UTF16LE :: "bytes \<Rightarrow> int \<Rightarrow> int" where
  "RSKIP_UTF16LE z i =
     (if icat z i \<ge> 0xD8 \<and> (icat z i < 0xE0 \<or> (icat z i = 0xE0 \<and> icat z (i - 1) = 0x00)) then i - 4 else i - 2)"

definition RSKIP_UTF16BE :: "bytes \<Rightarrow> int \<Rightarrow> int" where
  "RSKIP_UTF16BE z i =
     (let i = i - 1 in
      if icat z i \<ge> 0xD8 \<and> (icat z i < 0xE0 \<or> (icat z i = 0xE0 \<and> icat z (i + 1) = 0x00)) then i - 3 else i - 1)"

subsection \<open>Whole texts\<close>

abbreviation SQLITE_UTF16LE :: u8 where "SQLITE_UTF16LE \<equiv> 2"

text \<open>
  The loops of \<^verbatim>\<open>sqlite3VdbeMemTranslate\<close>: \<open>n\<close> is the length of the input, a reader may run
  over the end.
\<close>

function decode_loop :: "(bytes \<Rightarrow> nat \<Rightarrow> int \<times> nat) \<Rightarrow> (int \<Rightarrow> bytes) \<Rightarrow> bytes \<Rightarrow> nat \<Rightarrow> nat \<Rightarrow> bytes" where
  "decode_loop rd wr z n i =
     (if i < n then case rd z i of (c, j) \<Rightarrow> wr c @ decode_loop rd wr z n (max (i + 1) j) else [])"
  by pat_completeness auto
termination by (relation "measure (\<lambda>(r, w, z, n, i). n - i)") auto
declare decode_loop.simps [simp del]

text \<open>Swapping the bytes of each pair; for an odd length it swaps with the byte behind the text.\<close>

fun swap_loop :: "bytes \<Rightarrow> bytes" where
  "swap_loop (a # b # z) = b # a # swap_loop z"
| "swap_loop [a] = [0]"
| "swap_loop [] = []"

definition translate_text :: "u8 \<Rightarrow> u8 \<Rightarrow> bytes \<Rightarrow> bytes" where
  "translate_text enc desired z =
     (if enc \<noteq> SQLITE_UTF8 \<and> desired \<noteq> SQLITE_UTF8 then swap_loop z
      else if enc = SQLITE_UTF8 then
        (if desired = SQLITE_UTF16LE then decode_loop READ_UTF8 WRITE_UTF16LE z (length z) 0
         else decode_loop READ_UTF8 WRITE_UTF16BE z (length z) 0)
      else if enc = SQLITE_UTF16LE then decode_loop READ_UTF16LE WRITE_UTF8 z (length z) 0
      else decode_loop READ_UTF16BE WRITE_UTF8 z (length z) 0)"

text \<open>
  Counting characters; \<open>zTerm\<close> is the limit, \<open>None\<close> the limit \<^verbatim>\<open>(const char*)(-1)\<close>. The
  result \<open>None\<close> is a read behind the terminator of the text.
\<close>

function CharLen_loop :: "bytes \<Rightarrow> nat option \<Rightarrow> nat \<Rightarrow> nat \<Rightarrow> nat option" where
  "CharLen_loop z zTerm i r =
     (if i > length z then None
      else if cat z i \<noteq> 0 \<and> (case zTerm of None \<Rightarrow> True | Some t \<Rightarrow> i < t)
      then CharLen_loop z zTerm (SKIP_UTF8 z i) (r + 1)
      else Some r)"
  by pat_completeness auto
termination
  by (relation "measure (\<lambda>(z, t, i, r). Suc (length z) - i)") (auto simp: SKIP_UTF8_def)
declare CharLen_loop.simps [simp del]

definition sqlite3utf8CharLen :: "bytes \<Rightarrow> int \<Rightarrow> nat option" where
  "sqlite3utf8CharLen z nByte = CharLen_loop z (if nByte \<ge> 0 then Some (nat nByte) else None) 0 0"

text \<open>The length of UTF-16 text in memory; \<open>None\<close> is a read behind the given bytes.\<close>

function ByteLen_loop :: "bytes \<Rightarrow> int \<Rightarrow> nat \<Rightarrow> int \<Rightarrow> int \<Rightarrow> (nat \<times> int) option" where
  "ByteLen_loop zIn nChar z n c =
     (if c \<noteq> 0 \<and> (nChar < 0 \<or> n < nChar) then
        (case READ_UTF16LE zIn z of (c, z') \<Rightarrow>
           if z' > length zIn then None else ByteLen_loop zIn nChar z' (n + 1) c)
      else Some (z, c))"
  by pat_completeness auto
termination
  by (relation "measure (\<lambda>(zIn, m, z, n, c). Suc (length zIn) - z)") (auto simp: READ_UTF16LE_def Let_def split: if_splits)
declare ByteLen_loop.simps [simp del]

definition sqlite3utf16ByteLen :: "bytes \<Rightarrow> int \<Rightarrow> int option" where
  "sqlite3utf16ByteLen zIn nChar =
     (case ByteLen_loop zIn nChar 0 0 1 of None \<Rightarrow> None
      | Some (z, c) \<Rightarrow> Some (int z - (if c = 0 then 2 else 0)))"

subsection \<open>substr() on UTF-16\<close>

text \<open>
  The loops \<^verbatim>\<open>for(i=0; i<y && p<end; i++) SKIP(p)\<close> and their mirror image; \<open>None\<close> is a
  read before the start of the text.
\<close>

fun skip_chars :: "bytes \<Rightarrow> nat \<Rightarrow> int \<Rightarrow> int option" where
  "skip_chars z 0 p = Some p"
| "skip_chars z (Suc k) p =
     (if p < int (length z) then (if p < 0 then None else skip_chars z k (int (SKIP_UTF16LE z (nat p)))) else Some p)"

fun rskip_chars :: "bytes \<Rightarrow> nat \<Rightarrow> int \<Rightarrow> nat \<times> int" where
  "rskip_chars z 0 p = (0, p)"
| "rskip_chars z (Suc k) p = (if p > 0 then rskip_chars z k (RSKIP_UTF16LE z p) else (Suc k, p))"

text \<open>The start and the end of the result in the text; the difference is its length.\<close>

definition sqlite3utf16Substr :: "bytes \<Rightarrow> int \<Rightarrow> int \<Rightarrow> (int \<times> int) option" where
  "sqlite3utf16Substr zStr y z =
     (let start =
        (if y > 0 then map_option (\<lambda>p. (p, z)) (skip_chars zStr (nat (y - 1)) 0)
         else (case rskip_chars zStr (nat (- y)) (int (length zStr)) of (left, p) \<Rightarrow> Some (p, z - int left)))
      in case start of
           None \<Rightarrow> None
         | Some (zStart, z) \<Rightarrow> map_option (\<lambda>zEnd. (zStart, zEnd)) (skip_chars zStr (nat z) zStart))"

subsection \<open>Round trips\<close>

lemma cat_Cons_numeral [simp]: "cat (c # z) (numeral n) = cat z (pred_numeral n)"
  by (simp add: cat_def nth_Cons_numeral numeral_eq_Suc)

lemma and_mask_mod: "(x :: int) AND mask n = x mod 2 ^ n"
  by (metis take_bit_eq_mask take_bit_eq_mod)

lemma and_masks: "(x :: int) AND 0xFF = x mod 256" "x AND 0x3F = x mod 64" "x AND 0x1F = x mod 32"
  "x AND 0x0F = x mod 16" "x AND 0x07 = x mod 8" "x AND 0x03 = x mod 4" "x AND 0x03FF = x mod 1024"
  using and_mask_mod [of x 8] and_mask_mod [of x 6] and_mask_mod [of x 5] and_mask_mod [of x 4]
    and_mask_mod [of x 3] and_mask_mod [of x 2] and_mask_mod [of x 10]
  by (simp_all add: mask_eq_exp_minus_1)

lemma split_div: "0 < a \<Longrightarrow> 0 < b \<Longrightarrow> (x :: int) div a = b * (x div (a * b)) + x div a mod b"
  by (simp add: zdiv_zmult2_eq)

lemma split3: "(c::int) = 4096 * (c div 4096) + 64 * (c div 64 mod 64) + c mod 64"
  using split_div [of 64 64 c, simplified] mult_div_mod_eq [of 64 c] by linarith

lemma split4: "(w::int) = 262144 * (w div 262144) + 65536 * (w div 65536 mod 4) + 1024 * (w div 1024 mod 64) + w mod 1024"
  using split_div [of 1024 64 w, simplified] split_div [of 65536 4 w, simplified] mult_div_mod_eq [of 1024 w] by linarith

lemma split_utf8: "(c::int) = 262144 * (c div 262144) + 4096 * (c div 4096 mod 64) + 64 * (c div 64 mod 64) + c mod 64"
  using split_div [of 64 64 c, simplified] split_div [of 4096 64 c, simplified] mult_div_mod_eq [of 64 c] by linarith

lemma and_shift: "x AND (64 * mask n) = 64 * (x div 64 mod 2 ^ n)" for x :: int
proof (rule bit_eqI)
  fix k
  have a: "64 * mask n = push_bit 6 (mask n :: int)" by (simp add: push_bit_eq_mult)
  have b: "64 * (x div 64 mod 2 ^ n) = push_bit 6 (take_bit n (drop_bit 6 x))"
    by (simp add: push_bit_eq_mult take_bit_eq_mod drop_bit_eq_div)
  show "bit (x AND (64 * mask n)) k \<longleftrightarrow> bit (64 * (x div 64 mod 2 ^ n)) k"
    unfolding a b by (auto simp: bit_simps)
qed

lemma and_bits_6: "x AND 192 = 64 * (x div 64 mod 4)" "x AND 960 = 64 * (x div 64 mod 16)"  for x :: int 
  using and_shift [of x 2] and_shift [of x 4] by (simp_all add: mask_eq_exp_minus_1)

lemma shift_div: "drop_bit 6 (x :: int) = x div 64" "drop_bit 12 x = x div 4096" "drop_bit 18 x = x div 262144"
  "drop_bit 8 x = x div 256" "drop_bit 10 x = x div 1024" "push_bit 6 x = x * 64" "push_bit 10 x = x * 1024"
  "push_bit 8 x = x * 256"
  by (simp_all add: drop_bit_eq_div push_bit_eq_mult)

lemma xtra_utf8_bytes_eq:
  "xtra_utf8_bytes ! unat (c :: u8) =
     (if c < 0x80 then 0 else if c < 0xC0 then 255 else if c < 0xE0 then 1 else if c < 0xF0 then 2 else if c < 0xF8 then 3 else 255)"
proof -
  have "list_all (\<lambda>n. xtra_utf8_bytes ! n = (if n < 128 then 0 else if n < 192 then 255 else if n < 224 then 1 else
      if n < 240 then 2 else if n < 248 then 3 else 255)) [0..<256]"
    by (simp add: xtra_utf8_bytes_def upt_conv_Cons)
  then have "\<forall>n < 256. xtra_utf8_bytes ! n = (if n < 128 then 0 else if n < 192 then 255 else if n < 224 then 1 else
      if n < 240 then 2 else if n < 248 then 3 else 255)" by (auto simp: list_all_iff)
  then show ?thesis using u8_less [of c] by (simp add: word_less_nat_alt)
qed

lemma uint_of_int_u8: "0 \<le> x \<Longrightarrow> x < 256 \<Longrightarrow> uint (of_int x :: u8) = x"
  by (simp add: unsigned_of_int take_bit_int_eq_self_iff)

lemma of_int_u8_less: "0 \<le> x \<Longrightarrow> x < 256 \<Longrightarrow> 0 \<le> y \<Longrightarrow> y < 256 \<Longrightarrow> (of_int x :: u8) < of_int y \<longleftrightarrow> x < y"
  by (simp add: word_less_def uint_of_int_u8)

lemma cat_append: "cat (a @ b) i = (if i < length a then cat a i else cat b (i - length a))"
  by (auto simp: cat_def nth_append)

definition code_point :: "int \<Rightarrow> bool" where
  "code_point c \<longleftrightarrow> 0 \<le> c \<and> c < 0x110000"

lemma read_write_utf8:
  assumes "code_point c"
  shows "READ_UTF8 (WRITE_UTF8 c @ rest) 0 = (c, length (WRITE_UTF8 c))"
proof -
  have c: "0 \<le> c" "c < 0x110000" using assms by (auto simp: code_point_def)
  consider "c < 0x80" | "0x80 \<le> c" "c < 0x800" | "0x800 \<le> c" "c < 0x10000" | "0x10000 \<le> c" by linarith
  then show ?thesis
  proof cases
    case 1
    then have "c mod 256 = c" using c by simp
    moreover have "(of_int c :: u8) < 0x80" using of_int_u8_less [of c 128] 1 c by simp
    ultimately show ?thesis using 1 c by (simp add: READ_UTF8_def WRITE_UTF8_def and_masks xtra_utf8_bytes_eq uint_of_int_u8)
  next
    case 2
    define p q where "p = c div 64" and "q = c mod 64"
    have pq: "c = 64 * p + q" "0 \<le> q" "q < 64" "2 \<le> p" "p < 32" using 2 by (auto simp: p_def q_def)
    have w: "WRITE_UTF8 c = [of_int (0xC0 + p), of_int (0x80 + q)]"
      using 2 pq(4,5) by (simp add: WRITE_UTF8_def and_masks shift_div p_def q_def del: of_int_add)
    have "\<not> (of_int (192 + p) :: u8) < 192" "(of_int (192 + p) :: u8) < 224" "\<not> (of_int (192 + p) :: u8) < 128"
      using of_int_u8_less [of "192 + p" 192] of_int_u8_less [of "192 + p" 224] of_int_u8_less [of "192 + p" 128] pq
      by (simp_all del: of_int_add)
    then show ?thesis unfolding w using pq
      by (simp add: READ_UTF8_def xtra_utf8_bytes_eq uint_of_int_u8 shift_div xtra_utf8_bits_def del: of_int_add)
  next
    case 3
    define p q r where "p = c div 4096" and "q = c div 64 mod 64" and "r = c mod 64"
    have pq: "c = 4096 * p + 64 * q + r" "0 \<le> q" "q < 64" "0 \<le> r" "r < 64" "0 \<le> p" "p < 16"
      using 3 split3 [of c] by (simp_all add: p_def q_def r_def)
    have w: "WRITE_UTF8 c = [of_int (224 + p), of_int (128 + q), of_int (128 + r)]"
      using 3 pq(6,7) by (simp add: WRITE_UTF8_def and_masks shift_div p_def q_def r_def del: of_int_add)
    have "\<not> (of_int (224 + p) :: u8) < 192" "\<not> (of_int (224 + p) :: u8) < 224" "\<not> (of_int (224 + p) :: u8) < 128"
      "(of_int (224 + p) :: u8) < 240"
      using of_int_u8_less [of "224 + p" 192] of_int_u8_less [of "224 + p" 224] of_int_u8_less [of "224 + p" 128]
        of_int_u8_less [of "224 + p" 240] pq
      by (simp_all del: of_int_add)
    then show ?thesis unfolding w using pq
      by (simp add: READ_UTF8_def xtra_utf8_bytes_eq uint_of_int_u8 shift_div xtra_utf8_bits_def del: of_int_add)
  next
    case 4
    define p q r s where "p = c div 262144" and "q = c div 4096 mod 64" and "r = c div 64 mod 64" and "s = c mod 64"
    have cv: "c = 262144 * p + 4096 * q + 64 * r + s"
      unfolding p_def q_def r_def s_def by (rule split_utf8)
    have pq: "0 \<le> q" "q < 64" "0 \<le> r" "r < 64" "0 \<le> p" "p < 8" "0 \<le> s" "s < 64"
      using c 4 by (auto simp: p_def q_def r_def s_def)
    have w: "WRITE_UTF8 c = [of_int (240 + p), of_int (128 + q), of_int (128 + r), of_int (128 + s)]"
      using 4 pq(5,6) by (simp add: WRITE_UTF8_def and_masks shift_div p_def q_def r_def s_def del: of_int_add)
    have "\<not> (of_int (240 + p) :: u8) < 192" "\<not> (of_int (240 + p) :: u8) < 224" "\<not> (of_int (240 + p) :: u8) < 128"
      "\<not> (of_int (240 + p) :: u8) < 240" "(of_int (240 + p) :: u8) < 248"
      using of_int_u8_less [of "240 + p" 192] of_int_u8_less [of "240 + p" 224] of_int_u8_less [of "240 + p" 128]
        of_int_u8_less [of "240 + p" 240] of_int_u8_less [of "240 + p" 248] pq
      by (simp_all del: of_int_add)
    then show ?thesis unfolding w using pq cv
      by (simp add: READ_UTF8_def xtra_utf8_bytes_eq uint_of_int_u8 shift_div xtra_utf8_bits_def del: of_int_add)
  qed
qed

text \<open>Characters that UTF-16 can carry here: \<^verbatim>\<open>0xE000\<close> is taken for a surrogate.\<close>

definition utf16_point :: "int \<Rightarrow> bool" where
  "utf16_point c \<longleftrightarrow> code_point c \<and> \<not> (0xD800 \<le> c \<and> c \<le> 0xE000)"

lemma surrogates_value:
  assumes "0x10000 \<le> c" "c < 0x110000"
  defines "h \<equiv> (drop_bit 10 c AND 0x3F) + (drop_bit 10 (c - 0x10000) AND 0xC0)"
    and "g \<equiv> 0xD8 + (drop_bit 18 (c - 0x10000) AND 3)" and "m \<equiv> 0xDC + (drop_bit 8 c AND 3)"
  shows "0 \<le> h" "h < 256" "216 \<le> g" "g < 220" "220 \<le> m" "m < 224"
    "surrogates (h + g * 256) ((c AND 0xFF) + m * 256) = c"
proof -
  define w where "w = c - 65536"
  have w: "0 \<le> w" "w < 1048576" "c = w + 65536" using assms(1,2) by (auto simp: w_def)
  define a b d e where "a = w div 262144" and "b = w div 65536 mod 4" and "d = w div 1024 mod 64" and "e = w mod 1024"
  have wv: "w = 262144 * a + 65536 * b + 1024 * d + e" unfolding a_def b_def d_def e_def by (rule split4)
  have r: "0 \<le> a" "a < 4" "0 \<le> b" "b < 4" "0 \<le> d" "d < 64" "0 \<le> e" "e < 1024"
    using w(1,2) by (auto simp: a_def b_def d_def e_def)
  have "c div 1024 = w div 1024 + 64" using w(3) by simp
  then have "c div 1024 mod 64 = d" by (simp add: d_def)
  moreover have "w div 1024 div 64 mod 4 = b" by (simp add: b_def zdiv_zmult2_eq [symmetric])
  ultimately have hv: "h = d + 64 * b" unfolding h_def and_masks and_bits_6 shift_div w_def [symmetric] by simp
  have "a mod 4 = a" using r by simp
  then have gv: "g = 216 + a" unfolding g_def and_masks shift_div w_def [symmetric] a_def [symmetric] by simp
  have "e div 256 = w div 256 mod 4" unfolding e_def using zmod_zmult2_eq [of 4 w 256] by simp
  moreover have "c div 256 = w div 256 + 256" using w(3) by simp
  moreover have "(x + 256) mod 4 = x mod 4" for x :: int by presburger
  ultimately have c4: "c div 256 mod 4 = e div 256" by simp
  have mv: "m = 220 + e div 256" unfolding m_def and_masks shift_div c4 by simp
  have cv: "c AND 255 = e mod 256" 
  proof -
    have "(x + 65536) mod 256 = x mod 256" for x :: int using mod_mult_self1 [of x 256 256] by simp
    moreover have "w mod 1024 mod 256 = w mod 256" by (rule mod_mod_cancel) simp
    ultimately show ?thesis unfolding and_masks e_def w(3) by (simp only:)
  qed
  show "0 \<le> h" "h < 256" "216 \<le> g" "g < 220" "220 \<le> m" "m < 224" using hv gv mv r by simp_all
  have lo: "(e mod 256 + (220 + e div 256) * 256) mod 1024 = e"
  proof -
    have "e mod 256 + (220 + e div 256) * 256 = e + 55 * 1024" 
    proof -
      have "y + (220 + x) * 256 = (x * 256 + y) + 55 * 1024" for x y :: int by simp
      from this [of "e mod 256" "e div 256"] show ?thesis unfolding div_mult_mod_eq by (rule arg_cong)
    qed
    also have "(e + 55 * 1024) mod 1024 = e mod 1024" by (rule mod_mult_self1)
    finally show ?thesis using r(7,8) by simp
  qed
  have dm: "(d + 64 * x) mod 64 = d" "(d + 64 * x) div 64 = x" for x using r(5,6) by simp_all
  have hi: "(b + 4 * (216 + a)) mod 16 = b + 4 * a"
  proof -
    have "b + 4 * (216 + a) = (b + 4 * a) + 54 * 16" by simp
    then have "(b + 4 * (216 + a)) mod 16 = (b + 4 * a) mod 16" by (simp only: mod_mult_self1)
    then show ?thesis using r(1-4) by simp
  qed
  have x: "h + g * 256 = d + 64 * (b + 4 * (216 + a))" using hv gv by simp
  have y: "(c AND 0xFF) + m * 256 = e mod 256 + (220 + e div 256) * 256" using cv mv by simp
  show "surrogates (h + g * 256) ((c AND 0xFF) + m * 256) = c"
    unfolding x y unfolding surrogates_def and_masks and_bits_6 shift_div dm hi lo using w(3) wv by simp
qed


lemma read_pair_le:
  "0 \<le> h \<Longrightarrow> h < 256 \<Longrightarrow> 216 \<le> g \<Longrightarrow> g < 220 \<Longrightarrow> 0 \<le> l \<Longrightarrow> l < 256 \<Longrightarrow> 220 \<le> m \<Longrightarrow> m < 224 \<Longrightarrow>
   READ_UTF16LE ([of_int h, of_int g, of_int l, of_int m] @ rest) 0 = (surrogates (h + g * 256) (l + m * 256), 4)"
  by (simp add: READ_UTF16LE_def uint_of_int_u8 shift_div)

lemma read_pair_be:
  "0 \<le> h \<Longrightarrow> h < 256 \<Longrightarrow> 216 \<le> g \<Longrightarrow> g < 220 \<Longrightarrow> 0 \<le> l \<Longrightarrow> l < 256 \<Longrightarrow> 220 \<le> m \<Longrightarrow> m < 224 \<Longrightarrow>
   READ_UTF16BE ([of_int g, of_int h, of_int m, of_int l] @ rest) 0 = (surrogates (h + g * 256) (l + m * 256), 4)"
  by (simp add: READ_UTF16BE_def uint_of_int_u8 shift_div add.commute)

lemma read_write_utf16le:
  assumes "utf16_point c"
  shows "READ_UTF16LE (WRITE_UTF16LE c @ rest) 0 = (c, length (WRITE_UTF16LE c))"
proof (cases "c \<le> 0xFFFF")
  case True
  then have c: "0 \<le> c" "c < 65536" "\<not> (0xD800 \<le> c \<and> c \<le> 0xE000)" using assms by (auto simp: utf16_point_def code_point_def)
  have b: "0 \<le> c div 256" "c div 256 < 256" using c by simp_all
  have m: "c div 256 mod 256 = c div 256" using c by simp
  have "c mod 256 + c div 256 * 256 = c" by simp
  then show ?thesis using True c(3) unfolding WRITE_UTF16LE_def READ_UTF16LE_def
    by (simp add: and_masks shift_div m uint_of_int_u8 c b Let_def)
next
  case False
  then have c: "0x10000 \<le> c" "c < 0x110000" using assms by (auto simp: utf16_point_def code_point_def)
  note s = surrogates_value [OF c]
  let ?h = "(drop_bit 10 c AND 0x3F) + (drop_bit 10 (c - 0x10000) AND 0xC0)"
  let ?g = "0xD8 + (drop_bit 18 (c - 0x10000) AND 3)" and ?m = "0xDC + (drop_bit 8 c AND 3)"
  have l: "0 \<le> c AND 0xFF" "c AND 0xFF < 256" by (simp_all add: and_masks)
  have w: "WRITE_UTF16LE c = [of_int ?h, of_int ?g, of_int (c AND 0xFF), of_int ?m]"
    using False by (simp add: WRITE_UTF16LE_def del: of_int_add)
  have "READ_UTF16LE (WRITE_UTF16LE c @ rest) 0 = (c, 4)"
    unfolding w read_pair_le [OF s(1-4) l s(5,6)] s(7) ..
  then show ?thesis unfolding w by simp
qed

lemma read_write_utf16be:
  assumes "utf16_point c"
  shows "READ_UTF16BE (WRITE_UTF16BE c @ rest) 0 = (c, length (WRITE_UTF16BE c))"
proof (cases "c \<le> 0xFFFF")
  case True
  then have c: "0 \<le> c" "c < 65536" "\<not> (0xD800 \<le> c \<and> c \<le> 0xE000)" using assms by (auto simp: utf16_point_def code_point_def)
  have b: "0 \<le> c div 256" "c div 256 < 256" using c by simp_all
  have m: "c div 256 mod 256 = c div 256" using c by simp
  have "c div 256 * 256 + c mod 256 = c" by simp
  then show ?thesis using True c(3) unfolding WRITE_UTF16BE_def READ_UTF16BE_def
    by (simp add: and_masks shift_div m uint_of_int_u8 c b Let_def)
next
  case False
  then have c: "0x10000 \<le> c" "c < 0x110000" using assms by (auto simp: utf16_point_def code_point_def)
  note s = surrogates_value [OF c]
  let ?h = "(drop_bit 10 c AND 0x3F) + (drop_bit 10 (c - 0x10000) AND 0xC0)"
  let ?g = "0xD8 + (drop_bit 18 (c - 0x10000) AND 3)" and ?m = "0xDC + (drop_bit 8 c AND 3)"
  have l: "0 \<le> c AND 0xFF" "c AND 0xFF < 256" by (simp_all add: and_masks)
  have w: "WRITE_UTF16BE c = [of_int ?g, of_int ?h, of_int ?m, of_int (c AND 0xFF)]"
    using False by (simp add: WRITE_UTF16BE_def del: of_int_add)
  have "READ_UTF16BE (WRITE_UTF16BE c @ rest) 0 = (c, 4)"
    unfolding w read_pair_be [OF s(1-4) l s(5,6)] s(7) ..
  then show ?thesis unfolding w by simp
qed

text \<open>Reading at an index reads the rest of the text.\<close>

lemma utf_cat_drop [simp]: "cat (drop i z) k = cat z (i + k)"
  by (simp add: cat_def add.commute less_diff_conv)

lemma read_drop:
  "READ_UTF8 z i = (case READ_UTF8 (drop i z) 0 of (c, j) \<Rightarrow> (c, i + j))"
  "READ_UTF16LE z i = (case READ_UTF16LE (drop i z) 0 of (c, j) \<Rightarrow> (c, i + j))"
  "READ_UTF16BE z i = (case READ_UTF16BE (drop i z) 0 of (c, j) \<Rightarrow> (c, i + j))"
  by (simp_all add: READ_UTF8_def READ_UTF16LE_def READ_UTF16BE_def Let_def)

lemma decode_concat:
  assumes rd: "\<And>c rest. c \<in> set cs \<Longrightarrow> rd (enc c @ rest) 0 = (c, length (enc c))"
    and sh: "\<And>z i. rd z i = (case rd (drop i z) 0 of (c, j) \<Rightarrow> (c, i + j))" and ne: "\<And>c. c \<in> set cs \<Longrightarrow> enc c \<noteq> []"
  shows "decode_loop rd wr (pre @ concat (map enc cs) @ tail) (length pre + length (concat (map enc cs))) (length pre) = concat (map wr cs)"
  using rd ne
proof (induction cs arbitrary: pre)
  case Nil
  then show ?case by (simp add: decode_loop.simps)
next
  case (Cons c cs)
  have r: "rd (pre @ concat (map enc (c # cs)) @ tail) (length pre) = (c, length pre + length (enc c))"
    by (subst sh) (simp add: Cons.prems(1))
  have mx: "max (length pre + 1) (length pre + length (enc c)) = length (pre @ enc c)"
    using Cons.prems(2) [of c] by (cases "enc c") auto
  have "decode_loop rd wr (pre @ concat (map enc (c # cs)) @ tail) (length pre + length (concat (map enc (c # cs)))) (length pre) =
      wr c @ decode_loop rd wr ((pre @ enc c) @ concat (map enc cs) @ tail) (length (pre @ enc c) + length (concat (map enc cs))) (length (pre @ enc c))"
    using Cons.prems(2) [of c] by (subst decode_loop.simps) (simp add: r [simplified] mx [simplified] add.assoc)
  also have "\<dots> = wr c @ concat (map wr cs)"
    using Cons.IH [of "pre @ enc c"] Cons.prems by simp
  finally show ?case by simp
qed

lemma write_nonempty: "WRITE_UTF8 c \<noteq> []" "WRITE_UTF16LE c \<noteq> []" "WRITE_UTF16BE c \<noteq> []"
  by (simp_all add: WRITE_UTF8_def WRITE_UTF16LE_def WRITE_UTF16BE_def)

text \<open>A text in an encoding.\<close>

definition encode :: "u8 \<Rightarrow> int list \<Rightarrow> bytes" where
  "encode enc cs =
     concat (map (if enc = SQLITE_UTF8 then WRITE_UTF8 else if enc = SQLITE_UTF16LE then WRITE_UTF16LE else WRITE_UTF16BE) cs)"

lemma swap_concat: "swap_loop (concat (map WRITE_UTF16LE cs)) = concat (map WRITE_UTF16BE cs)"
  "swap_loop (concat (map WRITE_UTF16BE cs)) = concat (map WRITE_UTF16LE cs)"
  by (induction cs) (simp_all add: WRITE_UTF16LE_def WRITE_UTF16BE_def)

lemma translate_encode:
  assumes "list_all utf16_point cs" "enc \<in> {SQLITE_UTF8, SQLITE_UTF16LE, SQLITE_UTF16BE}"
    "desired \<in> {SQLITE_UTF8, SQLITE_UTF16LE, SQLITE_UTF16BE}" "enc \<noteq> desired"
  shows "translate_text enc desired (encode enc cs) = encode desired cs"
proof -
  have cp: "c \<in> set cs \<Longrightarrow> code_point c" "c \<in> set cs \<Longrightarrow> utf16_point c" for c
    using assms(1) by (auto simp: list_all_iff utf16_point_def)
  have u8: "decode_loop READ_UTF8 wr (concat (map WRITE_UTF8 cs)) (length (concat (map WRITE_UTF8 cs))) 0 = concat (map wr cs)" for wr
    using decode_concat [of cs READ_UTF8 WRITE_UTF8 wr "[]" "[]", OF read_write_utf8 [OF cp(1)] read_drop(1) write_nonempty(1)] by simp
  have le: "decode_loop READ_UTF16LE wr (concat (map WRITE_UTF16LE cs)) (length (concat (map WRITE_UTF16LE cs))) 0 = concat (map wr cs)" for wr
    using decode_concat [of cs READ_UTF16LE WRITE_UTF16LE wr "[]" "[]", OF read_write_utf16le [OF cp(2)] read_drop(2) write_nonempty(2)] by simp
  have be: "decode_loop READ_UTF16BE wr (concat (map WRITE_UTF16BE cs)) (length (concat (map WRITE_UTF16BE cs))) 0 = concat (map wr cs)" for wr
    using decode_concat [of cs READ_UTF16BE WRITE_UTF16BE wr "[]" "[]", OF read_write_utf16be [OF cp(2)] read_drop(3) write_nonempty(3)] by simp
  have ne: "SQLITE_UTF8 \<noteq> SQLITE_UTF16LE" "SQLITE_UTF16LE \<noteq> SQLITE_UTF8" "SQLITE_UTF8 \<noteq> SQLITE_UTF16BE"
    "SQLITE_UTF16BE \<noteq> SQLITE_UTF8" "SQLITE_UTF16LE \<noteq> SQLITE_UTF16BE" "SQLITE_UTF16BE \<noteq> SQLITE_UTF16LE" by simp_all
  show ?thesis
    using assms(2-4) unfolding translate_text_def encode_def
    by (elim insertE emptyE) (simp_all only: ne u8 le be swap_concat simp_thms if_True if_False)
qed

subsection \<open>Counting and cutting\<close>

lemma skip_utf8_write:
  assumes "code_point c"
  shows "SKIP_UTF8 (WRITE_UTF8 c @ rest) 0 = length (WRITE_UTF8 c)"
proof -
  have c: "0 \<le> c" "c < 0x110000" using assms by (auto simp: code_point_def)
  have lt: "(of_int (a + p) :: u8) < of_int b \<longleftrightarrow> a + p < b" if "0 \<le> a + p" "a + p < 256" "0 \<le> b" "b < 256" for a p b
    using of_int_u8_less [OF that] .
  consider "c < 0x80" | "0x80 \<le> c" "c < 0x800" | "0x800 \<le> c" "c < 0x10000" | "0x10000 \<le> c" by linarith
  then show ?thesis
  proof cases
    case 1
    then have "c mod 256 = c" "(of_int c :: u8) < 128" using c of_int_u8_less [of c 128] by simp_all
    then show ?thesis using 1 by (simp add: SKIP_UTF8_def WRITE_UTF8_def and_masks xtra_utf8_bytes_eq)
  next
    case 2
    define p where "p = c div 64 mod 32"
    have p: "0 \<le> p" "p < 32" by (simp_all add: p_def)
    have "\<not> (of_int (192 + p) :: u8) < 192" "(of_int (192 + p) :: u8) < 224" "\<not> (of_int (192 + p) :: u8) < 128"
      using lt [of 192 p 192] lt [of 192 p 224] lt [of 192 p 128] p by (simp_all del: of_int_add)
    then show ?thesis using 2
      by (simp add: SKIP_UTF8_def WRITE_UTF8_def and_masks shift_div xtra_utf8_bytes_eq p_def [symmetric] del: of_int_add)
  next
    case 3
    define p where "p = c div 4096 mod 16"
    have p: "0 \<le> p" "p < 16" by (simp_all add: p_def)
    have "\<not> (of_int (224 + p) :: u8) < 192" "\<not> (of_int (224 + p) :: u8) < 224" "\<not> (of_int (224 + p) :: u8) < 128"
      "(of_int (224 + p) :: u8) < 240"
      using lt [of 224 p 192] lt [of 224 p 224] lt [of 224 p 128] lt [of 224 p 240] p by (simp_all del: of_int_add)
    then show ?thesis using 3
      by (simp add: SKIP_UTF8_def WRITE_UTF8_def and_masks shift_div xtra_utf8_bytes_eq p_def [symmetric] del: of_int_add)
  next
    case 4
    define p where "p = c div 262144 mod 8"
    have p: "0 \<le> p" "p < 8" by (simp_all add: p_def)
    have "\<not> (of_int (240 + p) :: u8) < 192" "\<not> (of_int (240 + p) :: u8) < 224" "\<not> (of_int (240 + p) :: u8) < 128"
      "\<not> (of_int (240 + p) :: u8) < 240" "(of_int (240 + p) :: u8) < 248"
      using lt [of 240 p 192] lt [of 240 p 224] lt [of 240 p 128] lt [of 240 p 240] lt [of 240 p 248] p
      by (simp_all del: of_int_add)
    then show ?thesis using 4
      by (simp add: SKIP_UTF8_def WRITE_UTF8_def and_masks shift_div xtra_utf8_bytes_eq p_def [symmetric] del: of_int_add)
  qed
qed

lemma skip_utf16le_write:
  assumes "utf16_point c"
  shows "SKIP_UTF16LE (WRITE_UTF16LE c @ rest) 0 = length (WRITE_UTF16LE c)"
proof (cases "c \<le> 0xFFFF")
  case True
  then have c: "0 \<le> c" "c < 65536" "\<not> (0xD800 \<le> c \<and> c \<le> 0xE000)" using assms by (auto simp: utf16_point_def code_point_def)
  define p q where "p = c div 256" and "q = c mod 256"
  have p: "0 \<le> p" "p < 256" "0 \<le> q" "q < 256" "c = 256 * p + q" using c by (simp_all add: p_def q_def)
  have m: "c div 256 mod 256 = p" using p(1,2) by (simp add: p_def)
  have s: "\<not> (216 \<le> p \<and> (p < 224 \<or> p = 224 \<and> q = 0))" using c(3) p by auto
  have "(of_int p :: u8) \<ge> 216 \<longleftrightarrow> 216 \<le> p" using of_int_u8_less [of p 216] p by (simp add: not_less [symmetric])
  moreover have "(of_int p :: u8) < 224 \<longleftrightarrow> p < 224" using of_int_u8_less [of p 224] p by simp
  moreover have "(of_int p :: u8) = 224 \<longleftrightarrow> p = 224"
    using p uint_of_int_u8 [of p] by (auto simp: word_uint_eq_iff)
  moreover have "(of_int q :: u8) = 0 \<longleftrightarrow> q = 0" using p uint_of_int_u8 [of q] by (auto simp: word_uint_eq_iff)
  ultimately show ?thesis using True s
    by (simp add: SKIP_UTF16LE_def WRITE_UTF16LE_def and_masks shift_div m q_def [symmetric])
next
  case False
  then have c: "0x10000 \<le> c" "c < 0x110000" using assms by (auto simp: utf16_point_def code_point_def)
  note s = surrogates_value [OF c]
  let ?g = "0xD8 + (drop_bit 18 (c - 0x10000) AND 3)"
  have g: "\<not> (of_int ?g :: u8) < 216" "(of_int ?g :: u8) < 224"
    using of_int_u8_less [of "216 + (drop_bit 18 (c - 65536) AND 3)" 216]
      of_int_u8_less [of "216 + (drop_bit 18 (c - 65536) AND 3)" 224] s(3,4) by (simp_all del: of_int_add)
  then show ?thesis using False by (simp add: SKIP_UTF16LE_def WRITE_UTF16LE_def not_less del: of_int_add)
qed

lemma skip_drop: "SKIP_UTF8 z i = i + SKIP_UTF8 (drop i z) 0" "SKIP_UTF16LE z i = i + SKIP_UTF16LE (drop i z) 0"
  by (simp_all add: SKIP_UTF8_def SKIP_UTF16LE_def)

lemma cat_append_at: "cat (pre @ z) (length pre) = cat z 0"
  by (simp add: cat_def nth_append)

lemma write_utf8_nul: "code_point c \<Longrightarrow> c \<noteq> 0 \<Longrightarrow> cat (WRITE_UTF8 c @ rest) 0 \<noteq> 0"
proof -
  assume c: "code_point c" "c \<noteq> 0"
  then have r: "READ_UTF8 (WRITE_UTF8 c @ rest) 0 = (c, length (WRITE_UTF8 c))" by (intro read_write_utf8)
  show "cat (WRITE_UTF8 c @ rest) 0 \<noteq> 0"
  proof
    assume "cat (WRITE_UTF8 c @ rest) 0 = 0"
    then have "fst (READ_UTF8 (WRITE_UTF8 c @ rest) 0) = 0" by (simp add: READ_UTF8_def xtra_utf8_bytes_def Let_def)
    then show False using r c by simp
  qed
qed

lemma CharLen_concat:
  assumes "list_all (\<lambda>c. code_point c \<and> c \<noteq> 0) cs"
  shows "CharLen_loop (pre @ concat (map WRITE_UTF8 cs)) None (length pre) r = Some (r + length cs)"
  using assms
proof (induction cs arbitrary: pre r)
  case Nil
  then show ?case by (simp add: CharLen_loop.simps cat_def)
next
  case (Cons c cs)
  have s: "SKIP_UTF8 (pre @ WRITE_UTF8 c @ concat (map WRITE_UTF8 cs)) (length pre) = length (pre @ WRITE_UTF8 c)"
    using Cons.prems by (subst skip_drop) (simp add: skip_utf8_write)
  have nz: "cat (pre @ WRITE_UTF8 c @ concat (map WRITE_UTF8 cs)) (length pre) \<noteq> 0"
    using Cons.prems write_utf8_nul by (simp add: cat_append_at)
  have "CharLen_loop (pre @ concat (map WRITE_UTF8 (c # cs))) None (length pre) r =
      CharLen_loop ((pre @ WRITE_UTF8 c) @ concat (map WRITE_UTF8 cs)) None (length (pre @ WRITE_UTF8 c)) (r + 1)"
    using nz s by (subst CharLen_loop.simps) simp
  also have "\<dots> = Some (r + 1 + length cs)" by (rule Cons.IH) (use Cons.prems in simp)
  finally show ?case by simp
qed

abbreviation utf16 :: "int list \<Rightarrow> bytes" where
  "utf16 cs \<equiv> concat (map WRITE_UTF16LE cs)"

lemma skip_chars_concat:
  assumes "list_all utf16_point cs"
  shows "skip_chars (pre @ utf16 cs) k (int (length pre)) = Some (int (length pre + length (utf16 (take k cs))))"
  using assms
proof (induction k arbitrary: pre cs)
  case (Suc k)
  show ?case
  proof (cases cs)
    case (Cons c ds)
    have s: "SKIP_UTF16LE (pre @ WRITE_UTF16LE c @ utf16 ds) (length pre) = length (pre @ WRITE_UTF16LE c)"
      using Suc.prems Cons by (subst skip_drop) (simp add: skip_utf16le_write)
    have "skip_chars ((pre @ WRITE_UTF16LE c) @ utf16 ds) k (int (length (pre @ WRITE_UTF16LE c))) =
        Some (int (length (pre @ WRITE_UTF16LE c) + length (utf16 (take k ds))))"
      by (rule Suc.IH) (use Suc.prems Cons in simp)
    moreover have "int (length pre) < int (length (pre @ WRITE_UTF16LE c @ utf16 ds))"
      using write_nonempty(2) [of c] by (simp add: length_greater_0_conv [symmetric] add_pos_nonneg del: length_concat length_greater_0_conv)
    moreover have "pre @ utf16 cs = pre @ WRITE_UTF16LE c @ utf16 ds" using Cons by simp
    ultimately show ?thesis using s Cons by (simp only: skip_chars.simps if_True append_assoc nat_int) simp
  qed simp
qed simp

lemma utf16_split: "utf16 cs = utf16 (take k cs) @ utf16 (drop k cs)"
  by (metis append_take_drop_id concat_append map_append)

lemma substr_forward:
  assumes "list_all utf16_point cs" "y > 0"
  shows "sqlite3utf16Substr (utf16 cs) y z =
    Some (int (length (utf16 (take (nat (y - 1)) cs))), int (length (utf16 (take (nat (y - 1)) cs)) + length (utf16 (take (nat z) (drop (nat (y - 1)) cs)))))"
proof -
  define k where "k = nat (y - 1)"
  have a: "skip_chars (utf16 cs) k 0 = Some (int (length (utf16 (take k cs))))"
    using skip_chars_concat [OF assms(1), of "[]" k] by simp
  have "list_all utf16_point (drop k cs)" using assms(1) by (auto simp: list_all_iff dest: in_set_dropD)
  from skip_chars_concat [OF this, of "utf16 (take k cs)" "nat z"]
  have b: "skip_chars (utf16 cs) (nat z) (int (length (utf16 (take k cs)))) =
      Some (int (length (utf16 (take k cs)) + length (utf16 (take (nat z) (drop k cs)))))"
    unfolding utf16_split [of cs k, symmetric] .
  show ?thesis unfolding k_def [symmetric]
    using assms(2) a b by (simp add: sqlite3utf16Substr_def k_def [symmetric] del: length_concat)
qed

subsection \<open>Properties\<close>





subsection \<open>The output buffer\<close>

text \<open>
  The number of bytes \<^verbatim>\<open>sqlite3VdbeMemTranslate\<close> asks for, for an input of \<open>n\<close> bytes. A buffer of more
  than \<open>NBFS\<close> bytes comes from \<^verbatim>\<open>sqliteMallocRaw\<close>, a smaller one is on the stack.
\<close>

definition translate_len :: "u8 \<Rightarrow> nat \<Rightarrow> nat" where
  "translate_len desired n = (if desired = SQLITE_UTF8 then n div 2 * 3 + 1 else n * 2 + 2)"

lemma write_length:
  "length (WRITE_UTF8 c) = (if c < 0x80 then 1 else if c < 0x800 then 2 else if c < 0x10000 then 3 else 4)"
  "length (WRITE_UTF16LE c) = (if c \<le> 0xFFFF then 2 else 4)"
  "length (WRITE_UTF16BE c) = (if c \<le> 0xFFFF then 2 else 4)"
  by (simp_all add: WRITE_UTF8_def WRITE_UTF16LE_def WRITE_UTF16BE_def)

lemma length_growth:
  "2 * length (encode SQLITE_UTF8 cs) \<le> 3 * length (encode SQLITE_UTF16LE cs)"
  "length (encode SQLITE_UTF16LE cs) \<le> 2 * length (encode SQLITE_UTF8 cs)"
  "length (encode SQLITE_UTF16BE cs) = length (encode SQLITE_UTF16LE cs)"
  "even (length (encode SQLITE_UTF16LE cs))"
  by (induction cs) (simp_all add: encode_def write_length del: length_concat)



text \<open>
  A UTF-16 text that ends in half of a surrogate pair overflows the heap buffer: the
  reader takes the two zero bytes of the terminator for the other half and the writer puts
  four bytes where three were planned for. With eleven characters before it the output fills
  the 37 bytes of the buffer, and the terminator is written behind it.
\<close>

lemma translate_overflows:
  "let z = encode SQLITE_UTF16LE (replicate 11 0x20AC) @ [0x00, 0xD8]
   in 32 < translate_len SQLITE_UTF8 (length z) \<and>
      translate_len SQLITE_UTF8 (length z) < length (translate_text SQLITE_UTF16LE SQLITE_UTF8 z) + 1"
proof -
  have w: "WRITE_UTF16LE 0x20AC = [172, 32]" by (simp add: WRITE_UTF16LE_def)
  have rep: "encode SQLITE_UTF16LE (replicate 11 0x20AC) = concat (replicate 11 [172, 32])"
    by (simp add: encode_def w)
  define z :: bytes where "z = encode SQLITE_UTF16LE (replicate 11 0x20AC) @ [0x00, 0xD8]"
  have len: "length z = 24" by (simp add: z_def encode_def write_length length_concat sum_list_replicate)
  have step: "length (decode_loop READ_UTF16LE WRITE_UTF8 z 24 (2 * i)) =
      3 + length (decode_loop READ_UTF16LE WRITE_UTF8 z 24 (2 * Suc i))" if "i < 11" for i
  proof -
    have "i \<in> {0, 1, 2, 3, 4, 5, 6, 7, 8, 9, 10}" using that unfolding insert_iff empty_iff by arith
    then have "cat z (2 * i) = 172 \<and> cat z (2 * i + 1) = 32"
      unfolding z_def rep by (elim insertE emptyE) (simp_all add: cat_def numeral_eq_Suc)
    then have "READ_UTF16LE z (2 * i) = (0x20AC, 2 * i + 2)" by (simp add: READ_UTF16LE_def)
    then show ?thesis using that
      by (subst decode_loop.simps) (simp add: write_length max_def)
  qed
  have l: "length (decode_loop READ_UTF16LE WRITE_UTF8 z 24 (2 * i)) = 3 * (11 - i) + length (decode_loop READ_UTF16LE WRITE_UTF8 z 24 22)"
    if "i \<le> 11" for i
    using that
  proof (induction "11 - i" arbitrary: i)
    case (Suc k)
    then have "k = 11 - Suc i" "Suc i \<le> 11" "i < 11" by linarith+
    then show ?case using Suc.hyps(1) [of "Suc i"] step [of i] Suc.hyps(2) by linarith
  qed simp
  have "cat z 22 = 0 \<and> cat z 23 = 216 \<and> cat z 24 = 0 \<and> cat z 25 = 0"
    unfolding z_def rep by (simp add: cat_def numeral_eq_Suc)
  then have "READ_UTF16LE z 22 = (0x10000, 26)" by (simp add: READ_UTF16LE_def surrogates_def)
  then have "length (decode_loop READ_UTF16LE WRITE_UTF8 z 24 22) = 4"
    by (subst decode_loop.simps) (simp add: write_length decode_loop.simps)
  then have "length (translate_text SQLITE_UTF16LE SQLITE_UTF8 z) = 37"
    using l [of 0] by (simp add: translate_text_def len)
  then show ?thesis unfolding z_def [symmetric] Let_def by (simp add: translate_len_def len)
qed

text \<open>
  \<bold>\<open>C24\<close> Four defects: a text that ends in half of a surrogate pair overflows the buffer of the
  translation; the UTF-16 code unit \<^verbatim>\<open>0xE000\<close> is read as half of a surrogate pair, so
  it swallows the next character; \<^verbatim>\<open>sqlite3utf8CharLen\<close> steps 256 bytes over a malformed byte
  and reads behind the terminator; and \<^verbatim>\<open>substr\<close> with a negative start on UTF-16 tests the
  byte behind a character instead of the character before, so it leaves the text at its front.
\<close>

theorem utf_defects:
  "READ_UTF16LE (WRITE_UTF16LE 0xE000 @ WRITE_UTF16LE 0x41) 0 = (0x10041, 4) \<and>
   sqlite3utf8CharLen [0x80] (- 1) = None \<and>
   sqlite3utf16Substr (WRITE_UTF16LE 0x61 @ WRITE_UTF16LE 0xD8) (- 2) 1 = None \<and>
   (let z = encode SQLITE_UTF16LE (replicate 11 0x20AC) @ [0x00, 0xD8]
    in 32 < translate_len SQLITE_UTF8 (length z) \<and>
       translate_len SQLITE_UTF8 (length z) < length (translate_text SQLITE_UTF16LE SQLITE_UTF8 z) + 1)"
proof (intro conjI)
  show "READ_UTF16LE (WRITE_UTF16LE 0xE000 @ WRITE_UTF16LE 0x41) 0 = (0x10041, 4)"
    by (simp add: READ_UTF16LE_def WRITE_UTF16LE_def surrogates_def)
  show "sqlite3utf8CharLen [0x80] (- 1) = None"
    by (simp add: sqlite3utf8CharLen_def CharLen_loop.simps SKIP_UTF8_def xtra_utf8_bytes_def)
  show "sqlite3utf16Substr (WRITE_UTF16LE 0x61 @ WRITE_UTF16LE 0xD8) (- 2) 1 = None"
  proof -
    have n: "nat (- (- 2)) = Suc (Suc 0)" by simp
    show ?thesis unfolding sqlite3utf16Substr_def n
      by (simp add: WRITE_UTF16LE_def RSKIP_UTF16LE_def icat_def)
  qed
qed (rule translate_overflows)

end
