(* ===== verification/Printf.thy ===== *)
theory Printf
  imports Token Utf
begin

text \<open>
  The formatter of \<^verbatim>\<open>printf.c\<close>. A format is a NUL-terminated string read with \<open>cat\<close>; the
  variable argument list is a list of \<open>arg\<close>. The consumer that \<^verbatim>\<open>vxprintf\<close> calls is kept
  abstract: \<open>vout\<close> lists the chunks handed to it, and \<open>mout\<close>, the consumer the library uses,
  is run over them by \<open>base_vprintf\<close>. An argument of the wrong kind, a missing argument and a
  read of memory that has been freed have no defined result: they are \<open>None\<close>.

  The text of a floating-point conversion comes from long double arithmetic that is not
  modelled; it is the argument \<open>ftext\<close>.
\<close>

subsection \<open>Conversions\<close>

datatype etype = etRADIX | etFLOAT | etEXP | etGENERIC | etSIZE | etSTRING | etDYNSTRING
  | etPERCENT | etCHARX | etERROR | etCHARLIT | etSQLESCAPE | etSQLESCAPE2 | etTOKEN | etSRCLIST | etPOINTER

record et_info =
  fmttype :: u8
  ebase :: nat
  eflags :: u8
  etyp :: etype
  charset :: nat
  eprefix :: nat

definition FLAG_SIGNED :: u8 where "FLAG_SIGNED = 1"
definition FLAG_INTERN :: u8 where "FLAG_INTERN = 2"
definition FLAG_STRING :: u8 where "FLAG_STRING = 4"

text \<open>\<^verbatim>\<open>"0123456789ABCDEF0123456789abcdef"\<close> and \<^verbatim>\<open>"-x0\000X0"\<close>.\<close>

definition aDigits :: bytes where
  "aDigits = [48,49,50,51,52,53,54,55,56,57,65,66,67,68,69,70,48,49,50,51,52,53,54,55,56,57,97,98,99,100,101,102]"

definition aPrefix :: bytes where
  "aPrefix = [45, 120, 48, 0, 88, 48]"

definition fmtinfo :: "et_info list" where
  "fmtinfo = map (\<lambda>(c, b, f, t, s, p). \<lparr>fmttype = c, ebase = b, eflags = f, etyp = t, charset = s, eprefix = p\<rparr>)
    [(100, 10, 1, etRADIX,      0,  0),
     (115,  0, 4, etSTRING,     0,  0),
     (103,  0, 1, etGENERIC,    30, 0),
     (122,  0, 6, etDYNSTRING,  0,  0),
     (113,  0, 4, etSQLESCAPE,  0,  0),
     ( 81,  0, 4, etSQLESCAPE2, 0,  0),
     ( 99,  0, 0, etCHARX,      0,  0),
     (111,  8, 0, etRADIX,      0,  2),
     (117, 10, 0, etRADIX,      0,  0),
     (120, 16, 0, etRADIX,      16, 1),
     ( 88, 16, 0, etRADIX,      0,  4),
     (102,  0, 1, etFLOAT,      0,  0),
     (101,  0, 1, etEXP,        30, 0),
     ( 69,  0, 1, etEXP,        14, 0),
     ( 71,  0, 1, etGENERIC,    14, 0),
     (105, 10, 1, etRADIX,      0,  0),
     (110,  0, 0, etSIZE,       0,  0),
     ( 37,  0, 0, etPERCENT,    0,  0),
     (112, 16, 0, etPOINTER,    0,  1),
     ( 84,  0, 2, etTOKEN,      0,  0),
     ( 83,  0, 2, etSRCLIST,    0,  0)]"

abbreviation etBUFSIZE :: int where "etBUFSIZE \<equiv> 350"

subsection \<open>The format\<close>

text \<open>The variable arguments: an \<^verbatim>\<open>int\<close>, a 64-bit integer, a double, a string or a null
  pointer, a token (\<open>None\<close> also for a token without text), an item of a source list.\<close>

datatype arg = AInt u32 | ALong u64 | ADouble u64 | AStr "bytes option" | AToken "bytes option"
  | ASrc "bytes option" bytes | AIntPtr

record spec =
  leftjustify :: bool
  plussign :: bool
  blanksign :: bool
  alternateform :: bool
  altform2 :: bool
  zeropad :: bool
  swidth :: int
  sprec :: int
  slong :: bool
  slonglong :: bool

definition no_flags :: spec where
  "no_flags = \<lparr>leftjustify = False, plussign = False, blanksign = False, alternateform = False,
     altform2 = False, zeropad = False, swidth = 0, sprec = - 1, slong = False, slonglong = False\<rparr>"

function scan_flags :: "bytes \<Rightarrow> nat \<Rightarrow> spec \<Rightarrow> nat \<times> spec" where
  "scan_flags fmt i f =
     (if cat fmt i = 45 then scan_flags fmt (i + 1) (f\<lparr>leftjustify := True\<rparr>)
      else if cat fmt i = 43 then scan_flags fmt (i + 1) (f\<lparr>plussign := True\<rparr>)
      else if cat fmt i = 32 then scan_flags fmt (i + 1) (f\<lparr>blanksign := True\<rparr>)
      else if cat fmt i = 35 then scan_flags fmt (i + 1) (f\<lparr>alternateform := True\<rparr>)
      else if cat fmt i = 33 then scan_flags fmt (i + 1) (f\<lparr>altform2 := True\<rparr>)
      else if cat fmt i = 48 then scan_flags fmt (i + 1) (f\<lparr>zeropad := True\<rparr>)
      else (i, f))"
  by pat_completeness auto
termination
  by (relation "measure (\<lambda>(z, i, f). length z - i)") (auto simp: cat_def split: if_splits)
declare scan_flags.simps [simp del]

text \<open>A decimal number in the format.\<close>

function scan_number :: "bytes \<Rightarrow> nat \<Rightarrow> int \<Rightarrow> nat \<times> int" where
  "scan_number fmt i n =
     (if 48 \<le> cat fmt i \<and> cat fmt i \<le> 57 then scan_number fmt (i + 1) (n * 10 + uint (cat fmt i) - 48) else (i, n))"
  by pat_completeness auto
termination
  by (relation "measure (\<lambda>(z, i, n). length z - i)") (auto simp: cat_def split: if_splits)
declare scan_number.simps [simp del]

definition scan_width :: "bytes \<Rightarrow> nat \<Rightarrow> spec \<Rightarrow> arg list \<Rightarrow> (nat \<times> spec \<times> arg list) option" where
  "scan_width fmt i f args =
     (if cat fmt i = 42 then
        (case args of AInt w # rest \<Rightarrow>
            Some (i + 1, f\<lparr>leftjustify := leftjustify f \<or> sint w < 0, swidth := min \<bar>sint w\<bar> (etBUFSIZE - 10)\<rparr>, rest)
         | _ \<Rightarrow> None)
      else (case scan_number fmt i 0 of (j, w) \<Rightarrow> Some (j, f\<lparr>swidth := min w (etBUFSIZE - 10)\<rparr>, args)))"

definition scan_precision :: "bytes \<Rightarrow> nat \<Rightarrow> spec \<Rightarrow> arg list \<Rightarrow> (nat \<times> spec \<times> arg list) option" where
  "scan_precision fmt i f args =
     (if cat fmt i \<noteq> 46 then Some (i, f\<lparr>sprec := - 1\<rparr>, args)
      else if cat fmt (i + 1) = 42 then
        (case args of AInt p # rest \<Rightarrow> Some (i + 2, f\<lparr>sprec := \<bar>sint p\<bar>\<rparr>, rest) | _ \<Rightarrow> None)
      else (case scan_number fmt (i + 1) 0 of (j, p) \<Rightarrow> Some (j, f\<lparr>sprec := p\<rparr>, args)))"

definition scan_long :: "bytes \<Rightarrow> nat \<Rightarrow> spec \<Rightarrow> nat \<times> spec" where
  "scan_long fmt i f =
     (if cat fmt i = 108 then
        (if cat fmt (i + 1) = 108 then (i + 2, f\<lparr>slong := True, slonglong := True\<rparr>)
         else (i + 1, f\<lparr>slong := True, slonglong := False\<rparr>))
      else (i, f\<lparr>slong := False, slonglong := False\<rparr>))"

definition find_info :: "u8 \<Rightarrow> et_info option" where
  "find_info c = find (\<lambda>e. fmttype e = c) fmtinfo"

text \<open>The conversion that the entry stands for, internal ones only for internal callers.\<close>

definition info_type :: "bool \<Rightarrow> et_info option \<Rightarrow> etype" where
  "info_type useExtended infop =
     (case infop of None \<Rightarrow> etERROR
      | Some e \<Rightarrow> if useExtended \<or> eflags e AND FLAG_INTERN = 0 then etyp e else etERROR)"

text \<open>The precision is limited; for a character without an entry the test of the flags reads
  through the null pointer \<^verbatim>\<open>infop\<close>, which is \<open>None\<close>.\<close>

definition limit_precision :: "et_info option \<Rightarrow> spec \<Rightarrow> spec option" where
  "limit_precision infop f =
     (if sprec f > etBUFSIZE - 40 then
        (case infop of None \<Rightarrow> None
         | Some e \<Rightarrow> Some (if eflags e AND FLAG_STRING = 0 then f\<lparr>sprec := etBUFSIZE - 40\<rparr> else f))
      else Some f)"

subsection \<open>The conversions\<close>

text \<open>The digits of a number, which the code writes from the end of the buffer.\<close>

function radix_digits :: "bytes \<Rightarrow> nat \<Rightarrow> nat \<Rightarrow> bytes" where
  "radix_digits cset base v =
     (if v div base > 0 \<and> 1 < base then radix_digits cset base (v div base) else []) @ [cset ! (v mod base)]"
  by pat_completeness auto
termination
proof (relation "measure (\<lambda>(c, b, v). v)")
  fix cset :: bytes and base v :: nat
  assume a: "v div base > 0 \<and> 1 < base"
  then have "0 < v" by (cases "v = 0") simp_all
  then show "((cset, base, v div base), cset, base, v) \<in> measure (\<lambda>(c, b, v). v)" using a by simp
qed simp
declare radix_digits.simps [simp del]

text \<open>The characters of a prefix are put in front one by one up to the zero.\<close>

fun put_prefix :: "nat \<Rightarrow> nat \<Rightarrow> bytes \<Rightarrow> bytes" where
  "put_prefix 0 i t = t"
| "put_prefix (Suc n) i t = (if cat aPrefix i = 0 then t else put_prefix n (i + 1) (cat aPrefix i # t))"

text \<open>The value and the sign of an integer argument.\<close>

definition int_arg :: "et_info \<Rightarrow> spec \<Rightarrow> arg \<Rightarrow> (u64 \<times> u8) option" where
  "int_arg e f a =
     (let v = (case a of ALong x \<Rightarrow> if slonglong f \<or> slong f then Some x else None
               | AInt x \<Rightarrow> if slonglong f \<or> slong f then None
                           else Some (if eflags e AND FLAG_SIGNED \<noteq> 0 then scast x else ucast x)
               | _ \<Rightarrow> None)
      in case v of None \<Rightarrow> None
         | Some v \<Rightarrow>
             if eflags e AND FLAG_SIGNED \<noteq> 0 then
               (if sint v < 0 then Some (- v, 45)
                else Some (v, if plussign f then 43 else if blanksign f then 32 else 0))
             else Some (v, 0))"

definition radix_text :: "et_info \<Rightarrow> spec \<Rightarrow> u64 \<Rightarrow> u8 \<Rightarrow> bytes" where
  "radix_text e f longvalue prefix =
     (let alt = alternateform f \<and> longvalue \<noteq> 0;
          room = swidth f - (if prefix \<noteq> 0 then 1 else 0);
          precision = (if zeropad f \<and> sprec f < room then room else sprec f);
          digits = radix_digits (drop (charset e) aDigits) (ebase e) (unat longvalue);
          t = replicate (nat (precision - int (length digits))) 48 @ digits;
          t = (if prefix \<noteq> 0 then prefix # t else t)
      in if alt \<and> eprefix e \<noteq> 0 \<and> hd t \<noteq> cat aPrefix (eprefix e) then put_prefix 6 (eprefix e) t else t)"

text \<open>\<^verbatim>\<open>%q\<close> and \<^verbatim>\<open>%Q\<close>: quotes are doubled; \<open>None\<close> is a failed allocation.\<close>

fun double_quotes :: "bytes \<Rightarrow> bytes" where
  "double_quotes [] = []"
| "double_quotes (c # z) = (if c = 39 then c # c # double_quotes z else c # double_quotes z)"

definition sql_escape :: "bool \<Rightarrow> bool \<Rightarrow> bytes option \<Rightarrow> (bytes \<times> bool) option" where
  "sql_escape ok two a =
     (let esc = (case a of Some s \<Rightarrow> s | None \<Rightarrow> if two then [78,85,76,76] else [40,78,85,76,76,41]);
          needQuote = (a \<noteq> None \<and> two);
          n = length (filter (\<lambda>c. c = 39) esc) + length esc + 1 + (if needQuote then 2 else 0);
          heap = (int n > etBUFSIZE);
          t = (if needQuote then [39] else []) @ double_quotes esc @ (if needQuote then [39] else [])
      in if heap \<and> \<not> ok then None else Some (t, heap))"

subsection \<open>The formatter\<close>

text \<open>
  The pointer \<^verbatim>\<open>bufpt\<close>: null, into the local buffer at an offset, at a string, or at memory
  that has been freed. It survives a conversion, and an unknown conversion prints what it
  points at once more.
\<close>

datatype bufpt = BNull | InBuf nat bytes | At bytes | Freed

definition read_at :: "bufpt \<Rightarrow> int \<Rightarrow> bytes option" where
  "read_at p n =
     (if n \<le> 0 then Some []
      else case p of BNull \<Rightarrow> None | Freed \<Rightarrow> None
      | InBuf off t \<Rightarrow> if nat n \<le> length t then Some (take (nat n) t) else None
      | At t \<Rightarrow> if nat n \<le> length t + 1 then Some (take (nat n) (t @ [0])) else None)"

text \<open>The text in the buffer after its first two bytes have been overwritten.\<close>

definition clobber :: "u8 \<Rightarrow> bufpt \<Rightarrow> bufpt" where
  "clobber c p =
     (case p of InBuf off t \<Rightarrow>
        InBuf off (if off = 0 then 37 # c # drop 2 t else if off = 1 then c # drop 1 t else t)
      | _ \<Rightarrow> p)"

record vx =
  vout :: "bytes list"
  vcount :: int
  vlen :: int
  vbuf :: bufpt
  vargs :: "arg list"
  vsizes :: "int list"

text \<open>The consumer is called with a chunk.\<close>

definition emit :: "bytes \<Rightarrow> vx \<Rightarrow> vx" where
  "emit t s = s\<lparr>vout := vout s @ [t]\<rparr>"

abbreviation etSPACESIZE :: nat where "etSPACESIZE \<equiv> 73"

function spaces :: "nat \<Rightarrow> bytes list" where
  "spaces n =
     (if etSPACESIZE \<le> n then replicate etSPACESIZE 32 # spaces (n - etSPACESIZE)
      else if n > 0 then [replicate n 32] else [])"
  by pat_completeness auto
termination by (relation "measure id") auto
declare spaces.simps [simp del]

text \<open>
  What a conversion leaves behind: the place of its text, the length, the width and whether
  the text is in memory to be freed. \<open>Inl\<close> is the return value of the formatter after a failed
  allocation.
\<close>

record conv_result =
  cstate :: vx
  cwidth :: int
  cextra :: bool

definition done_conv :: "vx \<Rightarrow> bufpt \<Rightarrow> int \<Rightarrow> int \<Rightarrow> bool \<Rightarrow> (int \<times> vx + conv_result) option" where
  "done_conv s p n w x = Some (Inr \<lparr>cstate = s\<lparr>vbuf := p, vlen := n\<rparr>, cwidth = w, cextra = x\<rparr>)"

definition limit_len :: "spec \<Rightarrow> int \<Rightarrow> int" where
  "limit_len f n = (if sprec f \<ge> 0 \<and> sprec f < n then sprec f else n)"

definition conv_radix :: "et_info \<Rightarrow> spec \<Rightarrow> vx \<Rightarrow> (int \<times> vx + conv_result) option" where
  "conv_radix e f s =
     (case vargs s of [] \<Rightarrow> None
      | a # rest \<Rightarrow>
          (case int_arg e f a of None \<Rightarrow> None
           | Some (v, prefix) \<Rightarrow>
               (let t = radix_text e f v prefix
                in done_conv (s\<lparr>vargs := rest\<rparr>) (InBuf (nat (etBUFSIZE - 1) - length t) t) (int (length t)) (swidth f) False)))"

definition conv_string :: "etype \<Rightarrow> spec \<Rightarrow> vx \<Rightarrow> (int \<times> vx + conv_result) option" where
  "conv_string ty f s =
     (case vargs s of AStr a # rest \<Rightarrow>
        (let t = (case a of Some z \<Rightarrow> z | None \<Rightarrow> [])
         in done_conv (s\<lparr>vargs := rest\<rparr>) (At t) (limit_len f (int (length t))) (swidth f) (a \<noteq> None \<and> ty = etDYNSTRING))
      | _ \<Rightarrow> None)"

definition conv_escape :: "bool \<Rightarrow> etype \<Rightarrow> spec \<Rightarrow> vx \<Rightarrow> (int \<times> vx + conv_result) option" where
  "conv_escape ok ty f s =
     (case vargs s of AStr a # rest \<Rightarrow>
        (case sql_escape ok (ty = etSQLESCAPE2) a of None \<Rightarrow> Some (Inl (- 1, s\<lparr>vargs := rest\<rparr>))
         | Some (t, heap) \<Rightarrow>
             done_conv (s\<lparr>vargs := rest\<rparr>) (if heap then At t else InBuf 0 t) (limit_len f (int (length t))) (swidth f) heap)
      | _ \<Rightarrow> None)"

definition conv_error :: "u8 \<Rightarrow> spec \<Rightarrow> vx \<Rightarrow> (int \<times> vx + conv_result) option" where
  "conv_error c f s =
     (let t = (if c \<noteq> 0 then [37, 0] else [37]); p = clobber c (vbuf s)
      in done_conv ((emit t s)\<lparr>vcount := vcount s + int (length t)\<rparr>) p (vlen s) (swidth f) False)"

definition convert :: "bool \<Rightarrow> (et_info \<Rightarrow> spec \<Rightarrow> u64 \<Rightarrow> bytes) \<Rightarrow> et_info \<Rightarrow> etype \<Rightarrow> u8 \<Rightarrow> spec \<Rightarrow> vx \<Rightarrow>
    (int \<times> vx + conv_result) option" where
  "convert ok ftext e ty c f s =
     (case ty of
        etPOINTER \<Rightarrow> conv_radix e (f\<lparr>slong := True, slonglong := True\<rparr>) s
      | etRADIX \<Rightarrow> conv_radix e f s
      | etFLOAT \<Rightarrow> (case vargs s of ADouble r # rest \<Rightarrow>
           (let t = ftext e f r in done_conv (s\<lparr>vargs := rest\<rparr>) (InBuf 0 t) (int (length t)) (swidth f) False) | _ \<Rightarrow> None)
      | etEXP \<Rightarrow> (case vargs s of ADouble r # rest \<Rightarrow>
           (let t = ftext e f r in done_conv (s\<lparr>vargs := rest\<rparr>) (InBuf 0 t) (int (length t)) (swidth f) False) | _ \<Rightarrow> None)
      | etGENERIC \<Rightarrow> (case vargs s of ADouble r # rest \<Rightarrow>
           (let t = ftext e f r in done_conv (s\<lparr>vargs := rest\<rparr>) (InBuf 0 t) (int (length t)) (swidth f) False) | _ \<Rightarrow> None)
      | etSIZE \<Rightarrow> (case vargs s of AIntPtr # rest \<Rightarrow>
           done_conv (s\<lparr>vargs := rest, vsizes := vsizes s @ [vcount s]\<rparr>) (vbuf s) 0 0 False | _ \<Rightarrow> None)
      | etPERCENT \<Rightarrow> done_conv s (InBuf 0 [37]) 1 (swidth f) False
      | etCHARX \<Rightarrow> (case vargs s of AInt x # rest \<Rightarrow>
           (let n = (if sprec f \<ge> 0 then sprec f else 1)
            in done_conv (s\<lparr>vargs := rest\<rparr>) (InBuf 0 (replicate (nat (max 1 n)) (ucast x))) n (swidth f) False) | _ \<Rightarrow> None)
      | etSTRING \<Rightarrow> conv_string ty f s
      | etDYNSTRING \<Rightarrow> conv_string ty f s
      | etSQLESCAPE \<Rightarrow> conv_escape ok ty f s
      | etSQLESCAPE2 \<Rightarrow> conv_escape ok ty f s
      | etTOKEN \<Rightarrow> (case vargs s of AToken z # rest \<Rightarrow>
           done_conv (case z of Some t \<Rightarrow> emit t (s\<lparr>vargs := rest\<rparr>) | None \<Rightarrow> s\<lparr>vargs := rest\<rparr>) (vbuf s) 0 0 False | _ \<Rightarrow> None)
      | etSRCLIST \<Rightarrow> (case vargs s of ASrc db name # rest \<Rightarrow>
           (let s1 = s\<lparr>vargs := rest\<rparr>;
                s2 = (case db of Some d \<Rightarrow> if d \<noteq> [] then emit [46] (emit d s1) else s1 | None \<Rightarrow> s1)
            in done_conv (emit name s2) (vbuf s) 0 0 False) | _ \<Rightarrow> None)
      | etCHARLIT \<Rightarrow> None
      | etERROR \<Rightarrow> conv_error c f s)"

text \<open>The output of the converted text with its padding.\<close>

definition pad :: "bool \<Rightarrow> int \<Rightarrow> vx \<Rightarrow> vx" where
  "pad now nspace s =
     (if now \<and> nspace > 0 then s\<lparr>vcount := vcount s + nspace, vout := vout s @ spaces (nat nspace)\<rparr> else s)"

definition put_text :: "spec \<Rightarrow> conv_result \<Rightarrow> vx option" where
  "put_text f r =
     (let s = cstate r; nspace = cwidth r - vlen s; s1 = pad (\<not> leftjustify f) nspace s
      in case read_at (vbuf s1) (vlen s1) of None \<Rightarrow> None
         | Some t \<Rightarrow>
             (let s2 = (if vlen s1 > 0 then (emit t s1)\<lparr>vcount := vcount s1 + vlen s1\<rparr> else s1);
                  s3 = pad (leftjustify f) nspace s2
              in Some (if cextra r then s3\<lparr>vbuf := Freed\<rparr> else s3)))"

text \<open>The specification behind a percent sign: the index of the conversion character.\<close>

definition scan_spec :: "bytes \<Rightarrow> nat \<Rightarrow> arg list \<Rightarrow> (nat \<times> spec \<times> arg list) option" where
  "scan_spec fmt i args =
     (case scan_flags fmt i no_flags of (i1, f1) \<Rightarrow>
      case scan_width fmt i1 f1 args of None \<Rightarrow> None
      | Some (i2, f2, a2) \<Rightarrow>
          (case scan_precision fmt i2 f2 a2 of None \<Rightarrow> None
           | Some (i3, f3, a3) \<Rightarrow>
               (case scan_long fmt i3 f3 of (i4, f4) \<Rightarrow> Some (i4, f4, a3))))"

text \<open>The literal text from an index on, up to the next percent sign or the end.\<close>

definition literal :: "bytes \<Rightarrow> nat \<Rightarrow> bytes" where
  "literal fmt i = takeWhile (\<lambda>c. c \<noteq> 37) (drop i fmt)"

definition put_literal :: "bytes \<Rightarrow> nat \<Rightarrow> vx \<Rightarrow> vx" where
  "put_literal fmt i s =
     (let t = literal fmt i
      in (emit t s)\<lparr>vcount := vcount s + int (length t), vbuf := At (drop i fmt)\<rparr>)"

text \<open>One conversion; \<open>i\<close> is the index behind the percent sign, where a character stands.\<close>

definition vx_convert :: "(nat \<Rightarrow> bool) \<Rightarrow> (et_info \<Rightarrow> spec \<Rightarrow> u64 \<Rightarrow> bytes) \<Rightarrow> bool \<Rightarrow> bytes \<Rightarrow> nat \<Rightarrow> vx \<Rightarrow>
    (nat \<times> (int \<times> vx + vx)) option" where
  "vx_convert ok ftext useExtended fmt i s =
     (case scan_spec fmt i (vargs s) of None \<Rightarrow> None
      | Some (j, f, args) \<Rightarrow>
          (let infop = find_info (cat fmt j); ty = info_type useExtended infop
           in case limit_precision infop f of None \<Rightarrow> None
              | Some f \<Rightarrow>
                  (case convert (ok j) ftext (case infop of Some e \<Rightarrow> e | None \<Rightarrow> hd fmtinfo) ty (cat fmt j) f (s\<lparr>vargs := args\<rparr>) of
                     None \<Rightarrow> None
                   | Some (Inl r) \<Rightarrow> Some (j, Inl r)
                   | Some (Inr r) \<Rightarrow> map_option (\<lambda>s. (if cat fmt j = 0 then j else j + 1, Inr s)) (put_text f r))))"

text \<open>
  The loop over the format, with the return value and the final state. Each round consumes
  a character, so the loop makes at most as many rounds as the format has characters; the
  number \<open>n\<close> of rounds allowed is set to that by \<^verbatim>\<open>vxprintf\<close>.
\<close>

fun vx_loop :: "(nat \<Rightarrow> bool) \<Rightarrow> (et_info \<Rightarrow> spec \<Rightarrow> u64 \<Rightarrow> bytes) \<Rightarrow> bool \<Rightarrow> bytes \<Rightarrow> nat \<Rightarrow> nat \<Rightarrow> vx \<Rightarrow> (int \<times> vx) option" where
  "vx_loop ok ftext ext fmt 0 i s = None"
| "vx_loop ok ftext ext fmt (Suc n) i s =
     (if cat fmt i = 0 then Some (vcount s, s)
      else
        (let s1 = (if cat fmt i \<noteq> 37 then put_literal fmt i s else s);
             i1 = (if cat fmt i \<noteq> 37 then i + length (literal fmt i) else i)
         in if cat fmt i1 = 0 then Some (vcount s1, s1)
            else if cat fmt (i1 + 1) = 0 then Some (- 1, (emit [37] s1)\<lparr>vcount := vcount s1 + 1\<rparr>)
            else case vx_convert ok ftext ext fmt (i1 + 1) s1 of None \<Rightarrow> None
                 | Some (_, Inl (r, s2)) \<Rightarrow> Some (r, s2)
                 | Some (i2, Inr s2) \<Rightarrow> vx_loop ok ftext ext fmt n i2 s2))"

definition vxprintf :: "(nat \<Rightarrow> bool) \<Rightarrow> (et_info \<Rightarrow> spec \<Rightarrow> u64 \<Rightarrow> bytes) \<Rightarrow> bool \<Rightarrow> bytes \<Rightarrow> arg list \<Rightarrow> (int \<times> vx) option" where
  "vxprintf ok ftext useExtended fmt ap =
     vx_loop ok ftext useExtended fmt (length fmt + 1) 0
       \<lparr>vout = [[]], vcount = 0, vlen = 0, vbuf = BNull, vargs = ap, vsizes = []\<rparr>"

subsection \<open>The consumer\<close>

text \<open>
  \<^verbatim>\<open>struct sgMprintf\<close>. The text collected so far is \<open>zText\<close> with \<open>zCap\<close> bytes of memory behind
  the pointer, in the initial buffer or not; \<open>None\<close> is the null pointer. \<open>nAlloc\<close> is what the
  code believes the size to be. \<open>xr\<close> is \<^verbatim>\<open>xRealloc\<close>: whether a request for so many bytes
  succeeds, or \<open>None\<close> when there is no such function. The bytes of new memory in place of a
  text that was lost are zeros here; the code leaves them unwritten.
\<close>

record sgMprintf =
  zText :: "(bytes \<times> nat \<times> bool) option"
  nChar :: int
  nTotal :: int
  nAlloc :: int

definition mout_grow :: "(int \<Rightarrow> bool) option \<Rightarrow> int \<Rightarrow> sgMprintf \<Rightarrow> int \<times> sgMprintf" where
  "mout_grow xr n pM =
     (case xr of None \<Rightarrow> (nAlloc pM - nChar pM - 1, pM)
      | Some ok \<Rightarrow>
          (let size = nChar pM + n * 2 + 1; pM = pM\<lparr>nAlloc := size\<rparr>
           in case zText pM of
                Some (t, cap, True) \<Rightarrow> (n, pM\<lparr>zText := (if ok size then Some (t, nat size, False) else None)\<rparr>)
              | Some (t, cap, False) \<Rightarrow> (n, if ok size then pM\<lparr>zText := Some (t, nat size, False)\<rparr> else pM)
              | None \<Rightarrow> (n, if ok size then pM\<lparr>zText := Some (replicate (nat (nChar pM)) 0, nat size, False)\<rparr> else pM)))"

text \<open>A write behind the end of the memory is \<open>None\<close>.\<close>

definition mout_put :: "bytes \<Rightarrow> int \<Rightarrow> sgMprintf \<Rightarrow> sgMprintf option" where
  "mout_put new n pM =
     (case zText pM of None \<Rightarrow> Some pM
      | Some (t, cap, base) \<Rightarrow>
          (let t2 = (if n > 0 then t @ take (nat n) new else t)
           in if length t2 + 1 > cap then None
              else Some (pM\<lparr>zText := Some (t2, cap, base), nChar := int (length t2)\<rparr>)))"

definition mout :: "(int \<Rightarrow> bool) option \<Rightarrow> bytes \<Rightarrow> sgMprintf \<Rightarrow> sgMprintf option" where
  "mout xr new pM =
     (let n = int (length new); pM = pM\<lparr>nTotal := nTotal pM + n\<rparr>
      in if nChar pM + n + 1 > nAlloc pM
         then (case mout_grow xr n pM of (n, pM) \<Rightarrow> mout_put new n pM)
         else mout_put new n pM)"

fun mout_all :: "(int \<Rightarrow> bool) option \<Rightarrow> bytes list \<Rightarrow> sgMprintf \<Rightarrow> sgMprintf option" where
  "mout_all xr [] pM = Some pM"
| "mout_all xr (t # ts) pM = (case mout xr t pM of None \<Rightarrow> None | Some pM \<Rightarrow> mout_all xr ts pM)"

text \<open>
  The result of \<^verbatim>\<open>base_vprintf\<close>: \<open>None\<close> is undefined, \<open>Some None\<close> the null pointer. A text
  still in the initial buffer is copied; the memory of another one is cut to size, which does
  not change the text, except that the null pointer left by a failed request is asked for once
  more and then stands for memory that nobody has written.
\<close>

definition final_text :: "(int \<Rightarrow> bool) option \<Rightarrow> sgMprintf \<Rightarrow> bytes option option" where
  "final_text xr pM =
     (case xr of None \<Rightarrow> Some (map_option fst (zText pM))
      | Some ok \<Rightarrow>
          (case zText pM of
             Some (t, cap, True) \<Rightarrow> Some (if ok (nChar pM + 1) then Some t else None)
           | Some (t, cap, False) \<Rightarrow> Some (Some t)
           | None \<Rightarrow> if nAlloc pM > nChar pM + 10 \<and> ok (nChar pM + 1) then None else Some None))"

definition base_vprintf :: "(int \<Rightarrow> bool) option \<Rightarrow> (nat \<Rightarrow> bool) \<Rightarrow> (et_info \<Rightarrow> spec \<Rightarrow> u64 \<Rightarrow> bytes) \<Rightarrow> bool \<Rightarrow> nat \<Rightarrow>
    bytes \<Rightarrow> arg list \<Rightarrow> bytes option option" where
  "base_vprintf xr ok ftext useInternal nInitBuf zFormat ap =
     (case vxprintf ok ftext useInternal zFormat ap of None \<Rightarrow> None
      | Some (r, s) \<Rightarrow>
          Option.bind (mout_all xr (vout s) \<lparr>zText = Some ([], nInitBuf, True), nChar = 0, nTotal = 0, nAlloc = int nInitBuf\<rparr>)
            (final_text xr))"

definition sqlite3MPrintf :: "(int \<Rightarrow> bool) \<Rightarrow> (nat \<Rightarrow> bool) \<Rightarrow> (et_info \<Rightarrow> spec \<Rightarrow> u64 \<Rightarrow> bytes) \<Rightarrow> bytes \<Rightarrow> arg list \<Rightarrow>
    bytes option option" where
  "sqlite3MPrintf xr ok ftext zFormat ap = base_vprintf (Some xr) ok ftext True (nat etBUFSIZE) zFormat ap"

definition sqlite3_mprintf :: "(int \<Rightarrow> bool) \<Rightarrow> (nat \<Rightarrow> bool) \<Rightarrow> (et_info \<Rightarrow> spec \<Rightarrow> u64 \<Rightarrow> bytes) \<Rightarrow> bytes \<Rightarrow> arg list \<Rightarrow>
    bytes option option" where
  "sqlite3_mprintf xr ok ftext zFormat ap = base_vprintf (Some xr) ok ftext False 200 zFormat ap"

definition sqlite3_snprintf :: "(nat \<Rightarrow> bool) \<Rightarrow> (et_info \<Rightarrow> spec \<Rightarrow> u64 \<Rightarrow> bytes) \<Rightarrow> nat \<Rightarrow> bytes \<Rightarrow> arg list \<Rightarrow>
    bytes option option" where
  "sqlite3_snprintf ok ftext n zFormat ap = base_vprintf None ok ftext False n zFormat ap"

subsection \<open>The loop ends\<close>

text \<open>A conversion moves forward, so the rounds \<^verbatim>\<open>vxprintf\<close> allows are enough.\<close>

lemma cat_less: "cat z i \<noteq> 0 \<Longrightarrow> i < length z"
  by (auto simp: cat_def split: if_splits)

lemma scan_flags_in: "fst (scan_flags fmt i f) \<in> {i..max i (length fmt)}"
proof (induction fmt i f rule: scan_flags.induct)
  case (1 fmt i f)
  have l: "cat fmt i \<noteq> 0 \<Longrightarrow> i + 1 \<le> length fmt" using cat_less [of fmt i] by auto
  have w: "x \<in> {i + 1..max (i + 1) (length fmt)} \<Longrightarrow> cat fmt i \<noteq> 0 \<Longrightarrow> x \<in> {i..max i (length fmt)}" for x
    using l by (auto simp: max_def split: if_splits)
  show ?case
    by (subst scan_flags.simps) (simp only: split: if_split, use "1.IH" w in auto)
qed

lemma scan_number_in: "fst (scan_number fmt i n) \<in> {i..max i (length fmt)}"
proof (induction fmt i n rule: scan_number.induct)
  case (1 fmt i n)
  have l: "48 \<le> cat fmt i \<Longrightarrow> i < length fmt" using cat_less [of fmt i] by fastforce
  have w: "x \<in> {i + 1..max (i + 1) (length fmt)} \<Longrightarrow> 48 \<le> cat fmt i \<Longrightarrow> x \<in> {i..max i (length fmt)}" for x
    using l by (auto simp: max_def split: if_splits)
  show ?case
    by (subst scan_number.simps) (simp only: split: if_split, use "1.IH" w in auto)
qed

lemma scan_flags_le: "i \<le> fst (scan_flags fmt i f) \<and> (i \<le> length fmt \<longrightarrow> fst (scan_flags fmt i f) \<le> length fmt)"
  using scan_flags_in [of fmt i f] by (auto simp: max_def split: if_splits)

lemma scan_number_le: "i \<le> fst (scan_number fmt i n) \<and> (i \<le> length fmt \<longrightarrow> fst (scan_number fmt i n) \<le> length fmt)"
  using scan_number_in [of fmt i n] by (auto simp: max_def split: if_splits)

lemma scan_spec_le:
  assumes "scan_spec fmt i args = Some (j, f, a)" "i \<le> length fmt"
  shows "i \<le> j \<and> j \<le> length fmt"
proof -
  obtain i1 f1 where 1: "scan_flags fmt i no_flags = (i1, f1)" by fastforce
  obtain i2 f2 a2 where 2: "scan_width fmt i1 f1 args = Some (i2, f2, a2)"
    using assms(1) 1 by (fastforce simp: scan_spec_def split: option.splits)
  obtain i3 f3 a3 where 3: "scan_precision fmt i2 f2 a2 = Some (i3, f3, a3)"
    using assms(1) 1 2 by (fastforce simp: scan_spec_def split: option.splits)
  have b1: "i \<le> i1 \<and> i1 \<le> length fmt" using scan_flags_le [of i fmt no_flags] 1 assms(2) by simp
  have b2: "i1 \<le> i2 \<and> i2 \<le> length fmt"
    using 2 b1 scan_number_le [of i1 fmt 0] cat_less [of fmt i1]
    by (auto simp: scan_width_def split: if_splits list.splits arg.splits prod.splits)
  have b3: "i2 \<le> i3 \<and> i3 \<le> length fmt"
    using 3 b2 scan_number_le [of "i2 + 1" fmt 0] cat_less [of fmt i2] cat_less [of fmt "i2 + 1"]
    by (auto simp: scan_precision_def split: if_splits list.splits arg.splits prod.splits)
  show ?thesis
    using assms(1) 1 2 3 b1 b2 b3 cat_less [of fmt i3] cat_less [of fmt "i3 + 1"]
    by (auto simp: scan_spec_def scan_long_def split: if_splits)
qed

lemma vx_convert_le:
  assumes "vx_convert ok ftext ext fmt i s = Some (j, r)" "i \<le> length fmt"
  shows "i \<le> j \<and> j \<le> length fmt"
proof -
  obtain k f a where k: "scan_spec fmt i (vargs s) = Some (k, f, a)"
    using assms(1) by (auto simp: vx_convert_def split: option.splits)
  show ?thesis
    using assms scan_spec_le [OF k assms(2)] cat_less [of fmt k]
    by (auto simp: vx_convert_def Let_def k split: option.splits sum.splits if_splits)
qed

lemma vx_loop_fuel:
  assumes "i \<le> length fmt" "length fmt < n + i" "length fmt < m + i"
  shows "vx_loop ok ftext ext fmt n i s = vx_loop ok ftext ext fmt m i s"
  using assms
proof (induction n arbitrary: m i s)
  case 0
  then show ?case by simp
next
  case (Suc n)
  show ?case
  proof (cases m)
    case 0
    then show ?thesis using Suc.prems by simp
  next
    case m: (Suc k)
    define i1 where "i1 = (if cat fmt i \<noteq> 37 then i + length (literal fmt i) else i)"
    define s1 where "s1 = (if cat fmt i \<noteq> 37 then put_literal fmt i s else s)"
    have step: "vx_loop ok ftext ext fmt (Suc n) i s =
       (if cat fmt i = 0 then Some (vcount s, s)
        else if cat fmt i1 = 0 then Some (vcount s1, s1)
        else if cat fmt (i1 + 1) = 0 then Some (- 1, (emit [37] s1)\<lparr>vcount := vcount s1 + 1\<rparr>)
        else case vx_convert ok ftext ext fmt (i1 + 1) s1 of None \<Rightarrow> None
             | Some (_, Inl (r, s2)) \<Rightarrow> Some (r, s2)
             | Some (i2, Inr s2) \<Rightarrow> vx_loop ok ftext ext fmt n i2 s2)" for n
      by (simp add: i1_def s1_def Let_def)
    have le: "i \<le> i1" by (simp add: i1_def)
    have bound: "cat fmt (i1 + 1) \<noteq> 0 \<Longrightarrow> i1 + 1 \<le> length fmt" using cat_less [of fmt "i1 + 1"] by simp
    have "vx_loop ok ftext ext fmt n i2 s2 = vx_loop ok ftext ext fmt k i2 s2"
      if "cat fmt (i1 + 1) \<noteq> 0" "vx_convert ok ftext ext fmt (i1 + 1) s1 = Some (i2, Inr s2)" for i2 s2
      by (rule Suc.IH) (use Suc.prems m le vx_convert_le [OF that(2) bound [OF that(1)]] in linarith)+
    then show ?thesis unfolding m step
      by (auto split: option.splits sum.splits)
  qed
qed

subsection \<open>The consumer\<close>

text \<open>Memory as large as the code believes it to be.\<close>

definition collected :: "bytes \<Rightarrow> sgMprintf \<Rightarrow> bool" where
  "collected t pM \<longleftrightarrow> nChar pM = int (length t) \<and> int (length t) < nAlloc pM \<and>
     (\<exists>b. zText pM = Some (t, nat (nAlloc pM), b))"

lemma mout_all_grow:
  "collected t pM \<Longrightarrow> \<exists>pM'. mout_all (Some (\<lambda>_. True)) ts pM = Some pM' \<and> collected (t @ concat ts) pM'"
proof (induction ts arbitrary: t pM)
  case (Cons new ts)
  have "\<exists>pM1. mout (Some (\<lambda>_. True)) new pM = Some pM1 \<and> collected (t @ new) pM1"
    using Cons.prems
    by (auto simp: collected_def mout_def mout_grow_def mout_put_def Let_def nat_add_distrib split: bool.splits)
  then obtain pM1 where p: "mout (Some (\<lambda>_. True)) new pM = Some pM1" "collected (t @ new) pM1" by blast
  show ?case using Cons.IH [OF p(2)] p(1) by simp
qed simp

definition limited :: "nat \<Rightarrow> bytes \<Rightarrow> sgMprintf \<Rightarrow> bool" where
  "limited n t pM \<longleftrightarrow> nChar pM = int (length t) \<and> length t < n \<and> nAlloc pM = int n \<and> zText pM = Some (t, n, True)"

lemma take_take_append: "take m (take m x @ y) = take m (x @ y)"
  by (cases "length x \<le> m") (auto simp: min_def)

lemma mout_all_limit:
  "limited n t pM \<Longrightarrow> \<exists>pM'. mout_all None ts pM = Some pM' \<and> limited n (take (n - 1) (t @ concat ts)) pM'"
proof (induction ts arbitrary: t pM)
  case Nil
  then have "length t \<le> n - 1" unfolding limited_def by linarith
  then show ?case using Nil by simp
next
  case (Cons new ts)
  have "\<exists>pM1. mout None new pM = Some pM1 \<and> limited n (take (n - 1) (t @ new)) pM1"
  proof (cases "int (length t) + int (length new) + 1 > int n")
    case True
    then have n: "nat (int n - int (length t) - 1) = n - 1 - length t" by linarith
    show ?thesis using Cons.prems True
      by (auto simp: limited_def mout_def mout_grow_def mout_put_def Let_def n)
  next
    case False
    then show ?thesis using Cons.prems
      by (auto simp: limited_def mout_def mout_grow_def mout_put_def Let_def)
  qed
  then obtain pM1 where p: "mout None new pM = Some pM1" "limited n (take (n - 1) (t @ new)) pM1" by blast
  have "take (n - 1) (take (n - 1) (t @ new) @ concat ts) = take (n - 1) (t @ new @ concat ts)"
    using take_take_append [of "n - 1" "t @ new" "concat ts"] by (simp only: append_assoc)
  then show ?case using Cons.IH [OF p(2)] p(1) by (simp only: mout_all.simps option.case concat.simps)
qed

lemma mprintf_all:
  assumes "vxprintf ok ftext ext fmt ap = Some (r, s)" "0 < n"
  shows "base_vprintf (Some (\<lambda>_. True)) ok ftext ext n fmt ap = Some (Some (concat (vout s)))"
proof -
  have "collected [] \<lparr>zText = Some ([], n, True), nChar = 0, nTotal = 0, nAlloc = int n\<rparr>"
    using assms(2) by (auto simp: collected_def intro: exI [of _ True])
  from mout_all_grow [OF this, of "vout s"] show ?thesis
    using assms(1) by (auto simp: base_vprintf_def final_text_def collected_def split: bool.splits intro: exI [of _ True])
qed

subsection \<open>The size of a number\<close>

lemma radix_digits_length:
  "1 < base \<Longrightarrow> v < base ^ k \<Longrightarrow> 0 < k \<Longrightarrow> length (radix_digits cset base v) \<le> k"
proof (induction k arbitrary: v)
  case (Suc k)
  show ?case
  proof (cases "0 < v div base")
    case True
    have "v div base < base ^ k" using Suc.prems(2) by (simp add: less_mult_imp_div_less mult.commute)
    moreover have "0 < k" using True \<open>v div base < base ^ k\<close> by (cases k) auto
    ultimately show ?thesis using Suc.IH [of "v div base"] Suc.prems(1) True
      by (subst radix_digits.simps) simp
  next
    case False
    then show ?thesis by (subst radix_digits.simps) simp
  qed
qed simp

lemma put_prefix_length: "length (put_prefix n i t) \<le> n + length t"
  by (induction n i t rule: put_prefix.induct) auto

lemma put_prefix_2: "i \<in> {1, 2, 4} \<Longrightarrow> length (put_prefix 6 i t) \<le> 2 + length t"
  by (auto simp: eval_nat_numeral aPrefix_def)

lemma radix_text_length:
  assumes "e \<in> set fmtinfo" "etyp e \<in> {etRADIX, etPOINTER}" "swidth f \<le> etBUFSIZE - 10" "sprec f \<le> etBUFSIZE - 40"
  shows "length (radix_text e f v p) < nat etBUFSIZE"
proof -
  have e: "1 < ebase e" "eprefix e \<in> {0, 1, 2, 4}" using assms(1,2) by (auto simp: fmtinfo_def)
  have "unat v < 2 ^ 64" using unsigned_less [of v] by simp
  also have "(2::nat) ^ 64 \<le> ebase e ^ 64" using e(1) by (intro power_mono) auto
  finally have d: "length (radix_digits cs (ebase e) (unat v)) \<le> 64" for cs
    using radix_digits_length [OF e(1), of "unat v" 64] by simp
  define room where "room = swidth f - (if p \<noteq> 0 then 1 else 0)"
  define precision where "precision = (if zeropad f \<and> sprec f < room then room else sprec f)"
  define t where "t = replicate (nat (precision - int (length (radix_digits (drop (charset e) aDigits) (ebase e) (unat v))))) 48 @
    radix_digits (drop (charset e) aDigits) (ebase e) (unat v)"
  define u where "u = (if p \<noteq> 0 then p # t else t)"
  have t: "int (length t) \<le> max 64 precision" using d [of "drop (charset e) aDigits"] by (auto simp: t_def)
  have "precision \<le> (if p \<noteq> 0 then 339 else 340)" using assms(3,4) by (auto simp: precision_def room_def)
  then have u: "length u \<le> 340" using t by (auto simp: u_def split: if_splits)
  have "radix_text e f v p = (if (alternateform f \<and> v \<noteq> 0) \<and> eprefix e \<noteq> 0 \<and> hd u \<noteq> cat aPrefix (eprefix e)
      then put_prefix 6 (eprefix e) u else u)"
    by (simp add: radix_text_def Let_def u_def t_def precision_def room_def)
  then show ?thesis using u put_prefix_2 [of "eprefix e" u] e(2) by (auto split: if_splits)
qed

lemma scan_spec_width: "scan_spec fmt i args = Some (j, f, a) \<Longrightarrow> swidth f \<le> etBUFSIZE - 10"
  by (auto simp: scan_spec_def scan_width_def scan_precision_def scan_long_def
      split: prod.splits option.splits if_splits list.splits arg.splits)



subsection \<open>Quoted text\<close>

lemma find_escape: "find_info 81 = Some \<lparr>fmttype = 81, ebase = 0, eflags = 4, etyp = etSQLESCAPE2, charset = 0, eprefix = 0\<rparr>"
  "find_info 113 = Some \<lparr>fmttype = 113, ebase = 0, eflags = 4, etyp = etSQLESCAPE, charset = 0, eprefix = 0\<rparr>"
  by (simp_all add: find_info_def fmtinfo_def)

lemma double_quotes_escape: "double_quotes s = escape 39 s"
  by (induction s) (simp_all add: escape_def)

lemma plain_spec:
  assumes "cat fmt i \<in> {81, 113}"
  shows "scan_spec fmt i args = Some (i, no_flags, args)"
proof -
  have "scan_flags fmt i no_flags = (i, no_flags)" using assms by (subst scan_flags.simps) auto
  moreover have "scan_number fmt i 0 = (i, 0)" using assms by (subst scan_number.simps) auto
  ultimately show ?thesis using assms
    by (auto simp: scan_spec_def scan_width_def scan_precision_def scan_long_def no_flags_def)
qed

text \<open>One quoting conversion with enough memory.\<close>

lemma escape_step:
  assumes "cat fmt i = (if two then 81 else 113)" "vargs s = AStr (Some z) # rest"
  shows "\<exists>b. vx_convert (\<lambda>_. True) ftext ext fmt i s =
    Some (i + 1, Inr (let t = (if two then [39] else []) @ escape 39 z @ (if two then [39] else [])
                      in s\<lparr>vargs := rest, vlen := int (length t), vbuf := b, vcount := vcount s + int (length t),
                           vout := vout s @ (if t = [] then [] else [t])\<rparr>))"
proof -
  have c: "cat fmt i \<in> {81, 113}" "cat fmt i \<noteq> 0" using assms(1) by auto
  define t where "t = (if two then [39] else []) @ escape 39 z @ (if two then [39] else [])"
  obtain heap where esc: "sql_escape True two (Some z) = Some (t, heap)"
    by (simp add: sql_escape_def Let_def t_def double_quotes_escape)
  have lp: "limit_precision x no_flags = Some no_flags" for x by (simp add: limit_precision_def no_flags_def)
  have cv: "convert True ftext e (if two then etSQLESCAPE2 else etSQLESCAPE) k no_flags s =
      done_conv (s\<lparr>vargs := rest\<rparr>) (if heap then At t else InBuf 0 t) (int (length t)) 0 heap" for e k
    using esc by (cases two) (simp_all add: convert_def conv_escape_def assms(2) limit_len_def no_flags_def)
  have pt: "put_text no_flags \<lparr>cstate = s'\<lparr>vbuf := (if heap then At t else InBuf 0 t), vlen := int (length t)\<rparr>, cwidth = 0, cextra = heap\<rparr> =
      Some (s'\<lparr>vbuf := (if heap then Freed else InBuf 0 t), vlen := int (length t), vcount := vcount s' + int (length t),
               vout := vout s' @ (if t = [] then [] else [t])\<rparr>)" for s'
    by (auto simp: put_text_def pad_def read_at_def emit_def no_flags_def Let_def)
  show ?thesis
    using assms(1) c(2) cv pt [of "s\<lparr>vargs := rest\<rparr>"] unfolding t_def [symmetric] vx_convert_def plain_spec [OF c(1)]
    by (intro exI [of _ "if heap then Freed else InBuf 0 t"])
      (cases two; simp add: find_escape info_type_def FLAG_INTERN_def lp done_conv_def Let_def)
qed

lemma literal_eq:
  assumes "drop i fmt = lit @ r" "37 \<notin> set lit" "r = [] \<or> hd r = 37"
  shows "literal fmt i = lit"
proof -
  have "\<forall>c \<in> set lit. c \<noteq> 37" using assms(2) by metis
  moreover have "takeWhile (\<lambda>c. c \<noteq> 37) r = []" using assms(3) by (cases r) auto
  ultimately show ?thesis using assms(1) by (simp add: literal_def)
qed

definition plain :: "bytes \<Rightarrow> bool" where
  "plain z \<longleftrightarrow> nul_free z \<and> 37 \<notin> set z"

lemma plain_hd: "plain z \<Longrightarrow> z \<noteq> [] \<Longrightarrow> cat (z @ r) 0 \<noteq> 0 \<and> cat (z @ r) 0 \<noteq> 37"
  by (cases z) (auto simp: plain_def nul_free_def)

lemma cat_at: "cat (x @ y) (length x + i) = cat y i"
  by (simp add: cat_def nth_append)

text \<open>A literal text behind the last conversion ends the loop.\<close>

lemma loop_tail:
  assumes "plain post" "fmt = x @ post"
  shows "\<exists>r s'. vx_loop ok ftext ext fmt (Suc n) (length x) s = Some (r, s') \<and> concat (vout s') = concat (vout s) @ post"
proof (cases "post = []")
  case True
  then show ?thesis using assms(2) by (simp add: cat_def)
next
  case False
  have c: "cat fmt (length x) \<noteq> 0 \<and> cat fmt (length x) \<noteq> 37"
    using plain_hd [OF assms(1) False, of "[]"] cat_at [of x post 0] assms(2) by simp
  have l: "literal fmt (length x) = post"
    by (rule literal_eq [of _ _ _ "[]"]) (use assms in \<open>simp_all add: plain_def\<close>)
  have "cat fmt (length x + length post) = 0" using assms(2) by (simp add: cat_def)
  then show ?thesis using c l by (simp add: put_literal_def emit_def Let_def)
qed

lemma template_run:
  assumes "plain pre" "plain post"
  shows "\<exists>r s'. vxprintf (\<lambda>_. True) ftext ext (pre @ 37 # (if two then 81 else 113) # post) [AStr (Some z)] = Some (r, s') \<and>
    concat (vout s') = pre @ ((if two then [39] else []) @ escape 39 z @ (if two then [39] else [])) @ post"
proof -
  define k :: u8 where "k = (if two then 81 else 113)"
  define t where "t = (if two then [39] else []) @ escape 39 z @ (if two then [39] else [])"
  define fmt where "fmt = pre @ 37 # k # post"
  define s where "s = \<lparr>vout = [[]], vcount = 0, vlen = 0, vbuf = BNull, vargs = [AStr (Some z)], vsizes = []\<rparr>"
  define s1 where "s1 = (if pre = [] then s else put_literal fmt 0 s)"
  have s1: "vargs s1 = AStr (Some z) # []" "concat (vout s1) = pre"
  proof -
    have "literal fmt 0 = pre" if "pre \<noteq> []"
      by (rule literal_eq [of _ _ _ "37 # k # post"]) (use assms(1) in \<open>simp_all add: fmt_def plain_def\<close>)
    then show "vargs s1 = AStr (Some z) # []" "concat (vout s1) = pre"
      by (auto simp: s1_def s_def put_literal_def emit_def Let_def)
  qed
  have cs: "cat fmt (length pre) = 37" "cat fmt (length pre + 1) = k"
    using cat_at [of pre "37 # k # post" 0] cat_at [of pre "37 # k # post" 1] by (simp_all add: fmt_def)
  have k0: "k \<noteq> 0" by (simp add: k_def)
  obtain b where conv: "vx_convert (\<lambda>_. True) ftext ext fmt (length pre + 1) s1 =
      Some (length pre + 2, Inr (s1\<lparr>vargs := [], vlen := int (length t), vbuf := b, vcount := vcount s1 + int (length t),
         vout := vout s1 @ (if t = [] then [] else [t])\<rparr>))"
    using escape_step [of fmt "length pre + 1" two s1 z "[]" ftext ext, folded t_def] cs(2) s1(1)
    by (auto simp: k_def Let_def)
  let ?s2 = "s1\<lparr>vargs := [], vlen := int (length t), vbuf := b, vcount := vcount s1 + int (length t),
         vout := vout s1 @ (if t = [] then [] else [t])\<rparr>"
  have step: "vx_loop (\<lambda>_. True) ftext ext fmt (Suc n) 0 s = vx_loop (\<lambda>_. True) ftext ext fmt n (length pre + 2) ?s2" for n
  proof (cases "pre = []")
    case True
    then show ?thesis using cs k0 conv by (simp add: s1_def Let_def)
  next
    case False
    have "cat fmt 0 \<noteq> 0 \<and> cat fmt 0 \<noteq> 37" unfolding fmt_def by (rule plain_hd [OF assms(1) False])
    moreover have "literal fmt 0 = pre"
      by (rule literal_eq [of _ _ _ "37 # k # post"]) (use assms(1) in \<open>simp_all add: fmt_def plain_def\<close>)
    ultimately show ?thesis using False cs k0 conv by (simp add: s1_def Let_def)
  qed
  have n: "length fmt + 1 = Suc (Suc (length pre + length post + 1))" by (simp add: fmt_def)
  obtain r s' where "vx_loop (\<lambda>_. True) ftext ext fmt (Suc (length pre + length post + 1)) (length (pre @ [37, k])) ?s2 = Some (r, s')"
    "concat (vout s') = concat (vout ?s2) @ post"
    using loop_tail [OF assms(2), of fmt "pre @ [37, k]"] unfolding fmt_def by force
  then have "vxprintf (\<lambda>_. True) ftext ext fmt [AStr (Some z)] = Some (r, s') \<and> concat (vout s') = pre @ t @ post"
    unfolding vxprintf_def s_def [symmetric] n step using s1(2) by simp
  then show ?thesis unfolding fmt_def k_def t_def by blast
qed

lemma string_loop_escape:
  "drop i z = escape q s @ q # r \<Longrightarrow> cat r 0 \<noteq> q \<Longrightarrow> q \<noteq> 0 \<Longrightarrow> nul_free s \<Longrightarrow>
   string_loop q z i = (q, i + length (escape q s))"
proof (induction s arbitrary: i)
  case Nil
  have "cat z i = q" "cat z (Suc i) = cat r 0"
    using Nil(1) cat_cong_drop [of z i] cat_cong_drop [of z "Suc i"] by (simp_all add: escape_def drop_Suc_tl)
  then show ?case using Nil by (subst string_loop.simps) (simp add: escape_def)
next
  case (Cons c s)
  have c: "c \<noteq> 0" "nul_free s" using Cons.prems by (auto simp: nul_free_def)
  show ?case
  proof (cases "c = q")
    case True
    then have d: "drop i z = q # q # escape q s @ q # r" using Cons.prems(1) by (simp add: escape_def)
    then have "drop (i + 2) z = escape q s @ q # r" "cat z i = q" "cat z (Suc i) = q"
      using cat_cong_drop [of z i] cat_cong_drop [of z "Suc i"] by (simp_all add: drop_Suc_tl)
    then show ?thesis using Cons.IH [of "i + 2"] Cons.prems c True
      by (subst string_loop.simps) (simp add: escape_def)
  next
    case False
    then have d: "drop i z = c # escape q s @ q # r" using Cons.prems(1) by (simp add: escape_def)
    then have "drop (Suc i) z = escape q s @ q # r" "cat z i = c"
      using cat_cong_drop [of z i] by (simp_all add: drop_Suc_tl)
    then show ?thesis using Cons.IH [of "Suc i"] Cons.prems c False
      by (subst string_loop.simps) (simp add: escape_def)
  qed
qed

abbreviation quoted :: "bytes \<Rightarrow> bytes" where
  "quoted z \<equiv> 39 # escape 39 z @ [39]"

text \<open>
  \<bold>\<open>C26\<close> Text put into an SQL statement by \<^verbatim>\<open>%Q\<close>, or by \<^verbatim>\<open>%q\<close> between quotes, cannot break out of
  its quotes: the formatter writes the surrounding text and the quoted text, the tokenizer
  reads exactly the quoted text as one string token, and removing its quotes gives the
  argument back, whatever characters it has.
\<close>

theorem quoted_argument_is_one_token:
  assumes "plain pre" "plain post" "nul_free z" "cat post 0 \<noteq> 39"
  shows "sqlite3_mprintf (\<lambda>_. True) (\<lambda>_. True) ftext (pre @ 37 # 81 # post) [AStr (Some z)] = Some (Some (pre @ quoted z @ post)) \<and>
    sqlite3_mprintf (\<lambda>_. True) (\<lambda>_. True) ftext (pre @ 39 # 37 # 113 # 39 # post) [AStr (Some z)] = Some (Some (pre @ quoted z @ post)) \<and>
    getToken (quoted z @ post) = (length (quoted z), TK_STRING) \<and>
    str_of (sqlite3Dequote (quoted z @ [0])) = z"
proof (intro conjI)
  obtain r s where "vxprintf (\<lambda>_. True) ftext False (pre @ 37 # 81 # post) [AStr (Some z)] = Some (r, s)"
    "concat (vout s) = pre @ quoted z @ post"
    using template_run [OF assms(1,2), of ftext False True z] by auto
  then show "sqlite3_mprintf (\<lambda>_. True) (\<lambda>_. True) ftext (pre @ 37 # 81 # post) [AStr (Some z)] = Some (Some (pre @ quoted z @ post))"
    unfolding sqlite3_mprintf_def using mprintf_all by auto
next
  have "plain (pre @ [39])" "plain (39 # post)" using assms(1,2) by (auto simp: plain_def nul_free_def)
  from template_run [OF this, of ftext False False z] obtain r s
    where "vxprintf (\<lambda>_. True) ftext False (pre @ 39 # 37 # 113 # 39 # post) [AStr (Some z)] = Some (r, s)"
      "concat (vout s) = pre @ quoted z @ post"
    by auto
  then show "sqlite3_mprintf (\<lambda>_. True) (\<lambda>_. True) ftext (pre @ 39 # 37 # 113 # 39 # post) [AStr (Some z)] = Some (Some (pre @ quoted z @ post))"
    unfolding sqlite3_mprintf_def using mprintf_all by auto
next
  have "string_loop 39 (quoted z @ post) 1 = (39, 1 + length (escape 39 z))"
    by (rule string_loop_escape [of _ _ _ _ post]) (use assms(3,4) in simp_all)
  then show "getToken (quoted z @ post) = (length (quoted z), TK_STRING)"
    by (simp add: getToken_def tok_operator_def)
next
  have "str_of (dequote_loop 39 1 0 (39 # escape 39 z @ 39 # [0])) = take 0 (39 # escape 39 z @ 39 # [0]) @ z"
    by (rule dequote_loop_escape [of _ _ _ _ "[0]"]) (use assms(3) in \<open>auto simp: nul_free_def\<close>)
  then show "str_of (sqlite3Dequote (quoted z @ [0])) = z" by (simp add: sqlite3Dequote_def)
qed

theorem quoted_argument_is_one_token_witness:
  "getToken (quoted [79, 39, 59, 45, 45] @ [59]) = (8, TK_STRING)"
  using quoted_argument_is_one_token [of "[]" "[59]" "[79, 39, 59, 45, 45]"]
  by (simp add: plain_def nul_free_def escape_def)

text \<open>
  \<bold>\<open>C27\<close> \<^verbatim>\<open>sqlite3_snprintf\<close> with a buffer of \<open>n > 0\<close> bytes leaves the first \<open>n - 1\<close> bytes of the
  formatted text there and never writes behind the buffer; \<^verbatim>\<open>sqlite3_mprintf\<close> returns the whole
  text when there is memory.
\<close>

theorem formatted_text:
  assumes "vxprintf ok ftext False fmt ap = Some (r, s)" "0 < n"
  shows "sqlite3_snprintf ok ftext n fmt ap = Some (Some (take (n - 1) (concat (vout s)))) \<and>
    sqlite3_mprintf (\<lambda>_. True) ok ftext fmt ap = Some (Some (concat (vout s)))"
proof
  have "limited n [] \<lparr>zText = Some ([], n, True), nChar = 0, nTotal = 0, nAlloc = int n\<rparr>"
    using assms(2) by (simp add: limited_def)
  from mout_all_limit [OF this, of "vout s"]
  show "sqlite3_snprintf ok ftext n fmt ap = Some (Some (take (n - 1) (concat (vout s))))"
    using assms(1) by (auto simp: sqlite3_snprintf_def base_vprintf_def final_text_def limited_def)
  show "sqlite3_mprintf (\<lambda>_. True) ok ftext fmt ap = Some (Some (concat (vout s)))"
    unfolding sqlite3_mprintf_def by (rule mprintf_all [OF assms(1)]) simp
qed

lemma vx_ex: "vxprintf (\<lambda>_. True) ftext False [97, 98, 99] [] =
  Some (3, \<lparr>vout = [[], [97, 98, 99]], vcount = 3, vlen = 0, vbuf = At [97, 98, 99], vargs = [], vsizes = []\<rparr>)"
  by (simp add: vxprintf_def literal_def put_literal_def emit_def cat_def Let_def)

theorem formatted_text_witness:
  "\<forall>ftext. sqlite3_snprintf (\<lambda>_. True) ftext 3 [97, 98, 99] [] = Some (Some [97, 98])"
  using formatted_text [OF vx_ex, of 3] by simp

subsection \<open>Defects\<close>

lemma convert_s:
  "vx_loop ok ftext False (fmt :: bytes) (Suc n) i s =
     (case read_at (At t) (int (length t)) of None \<Rightarrow> None | Some u \<Rightarrow>
       vx_loop ok ftext False fmt n (i + 2) (s\<lparr>vargs := rest, vbuf := At t, vlen := int (length t), 
         vout := vout s @ [t], vcount := vcount s + int (length t)\<rparr>))"
  if "cat fmt i = 37" "cat fmt (Suc i) = 115" "vargs s = AStr (Some t) # rest" "t \<noteq> []"
proof -
  have fi: "find_info 115 = Some \<lparr>fmttype = 115, ebase = 0, eflags = 4, etyp = etSTRING, charset = 0, eprefix = 0\<rparr>"
    by (simp add: find_info_def fmtinfo_def)
  have "scan_flags fmt (Suc i) no_flags = (Suc i, no_flags)" using that(2) by (subst scan_flags.simps) simp
  moreover have "scan_number fmt (Suc i) 0 = (Suc i, 0)" using that(2) by (subst scan_number.simps) simp
  ultimately have sp: "scan_spec fmt (Suc i) a = Some (Suc i, no_flags, a)" for a
    using that(2) by (simp add: scan_spec_def scan_width_def scan_precision_def scan_long_def no_flags_def)
  show ?thesis using that
    by (simp add: Let_def vx_convert_def sp fi info_type_def FLAG_INTERN_def limit_precision_def convert_def conv_string_def
        done_conv_def put_text_def pad_def read_at_def emit_def limit_len_def no_flags_def)
qed

lemma mprintf_oom:
  assumes "length a = 250" "length b = 300"
  shows "sqlite3_mprintf (\<lambda>n. n < 600) ok ftext [37, 115, 37, 115] [AStr (Some a), AStr (Some b)] = None"
proof -
  have ne: "a \<noteq> []" "b \<noteq> []" using assms by auto
  have n: "length [37, 115, 37, 115 :: u8] + 1 = Suc 4" "4 = Suc 3" "3 = Suc 2" by simp_all
  let ?s = "\<lambda>ts t rest. \<lparr>vout = [] # ts, vcount = int (length (concat ts)), vlen = int (length t), vbuf = At t, vargs = rest, vsizes = []\<rparr>"
  have "vxprintf ok ftext False [37, 115, 37, 115] [AStr (Some a), AStr (Some b)] =
      vx_loop ok ftext False [37, 115, 37, 115] 4 2 (?s [a] a [AStr (Some b)])"
    unfolding vxprintf_def n(1) using ne by (subst convert_s [of _ _ _ a "[AStr (Some b)]"]) (simp_all add: read_at_def numeral_2_eq_2)
  also have "\<dots> = vx_loop ok ftext False [37, 115, 37, 115] 3 4 (?s [a, b] b [])"
    unfolding n(2) using ne by (subst convert_s [of _ _ _ b "[]"]) (simp_all add: read_at_def)
  also have "\<dots> = Some (int (length (concat [a, b])), ?s [a, b] b [])"
    unfolding n(3) vx_loop.simps(2) by (simp add: cat_def)
  finally have "\<exists>r s. vxprintf ok ftext False [37, 115, 37, 115] [AStr (Some a), AStr (Some b)] = Some (r, s) \<and> vout s = [[], a, b]"
    by simp
  then show ?thesis using assms
    by (auto simp: sqlite3_mprintf_def base_vprintf_def mout_def mout_grow_def mout_put_def Let_def)
qed

text \<open>
  \<bold>\<open>C29\<close> Three defects: when the memory of a text cannot be enlarged, \<^verbatim>\<open>mout\<close> has already noted the
  larger size and writes behind the memory; an unknown conversion with a large precision
  reads through a null pointer; and an unknown conversion writes a zero byte in place of its
  character and then prints the text of the conversion before it once more.
\<close>

theorem printf_defects:
  "sqlite3_mprintf (\<lambda>n. n < 600) (\<lambda>_. True) (\<lambda>e f r. []) [37, 115, 37, 115]
     [AStr (Some (replicate 250 97)), AStr (Some (replicate 300 98))] = None \<and>
   sqlite3_mprintf (\<lambda>_. True) (\<lambda>_. True) (\<lambda>e f r. []) [37, 46, 52, 48, 48, 121] [] = None \<and>
   sqlite3_mprintf (\<lambda>_. True) (\<lambda>_. True) (\<lambda>e f r. []) [37, 115, 37, 121] [AStr (Some [97, 98])] = Some (Some [97, 98, 37, 0, 97, 98])"
proof (intro conjI)
  show "sqlite3_mprintf (\<lambda>n. n < 600) (\<lambda>_. True) (\<lambda>e f r. []) [37, 115, 37, 115]
     [AStr (Some (replicate 250 97)), AStr (Some (replicate 300 98))] = None"
    by (rule mprintf_oom) simp_all
  have n: "length [37, 46, 52, 48, 48, 121 :: u8] + 1 = Suc 6" by simp
  show "sqlite3_mprintf (\<lambda>_. True) (\<lambda>_. True) (\<lambda>e f r. []) [37, 46, 52, 48, 48, 121] [] = None"
    unfolding sqlite3_mprintf_def base_vprintf_def vxprintf_def n vx_loop.simps(2)
    by (simp add: vx_convert_def scan_spec_def scan_flags.simps scan_number.simps scan_width_def scan_precision_def
        scan_long_def no_flags_def find_info_def fmtinfo_def limit_precision_def Let_def)
  have n: "length [37, 115, 37, 121 :: u8] + 1 = Suc 4" "4 = Suc 3" "3 = Suc 2" by simp_all
  let ?s = "\<lparr>vout = [[], [97, 98]], vcount = 2, vlen = 2, vbuf = At [97, 98], vargs = [], vsizes = []\<rparr>"
  have "vxprintf (\<lambda>_. True) (\<lambda>e f r. []) False [37, 115, 37, 121] [AStr (Some [97, 98])] =
      vx_loop (\<lambda>_. True) (\<lambda>e f r. []) False [37, 115, 37, 121] 4 2 ?s"
    unfolding vxprintf_def n(1) by (subst convert_s [of _ _ _ "[97, 98]" "[]"]) (simp_all add: read_at_def numeral_2_eq_2)
  also have "\<dots> = Some (6, ?s\<lparr>vout := [[], [97, 98], [37, 0], [97, 98]], vcount := 6\<rparr>)"
    unfolding n(2) vx_loop.simps(2)
    by (simp add: vx_convert_def scan_spec_def scan_flags.simps scan_number.simps scan_width_def scan_precision_def
        scan_long_def no_flags_def find_info_def fmtinfo_def limit_precision_def Let_def info_type_def convert_def
        conv_error_def done_conv_def put_text_def pad_def read_at_def emit_def clobber_def)
      (unfold n(3) vx_loop.simps(2), simp add: cat_def)
  finally have e: "vxprintf (\<lambda>_. True) (\<lambda>e f r. []) False [37, 115, 37, 121] [AStr (Some [97, 98])] =
      Some (6, ?s\<lparr>vout := [[], [97, 98], [37, 0], [97, 98]], vcount := 6\<rparr>)" .
  show "sqlite3_mprintf (\<lambda>_. True) (\<lambda>_. True) (\<lambda>e f r. []) [37, 115, 37, 121] [AStr (Some [97, 98])] =
      Some (Some [97, 98, 37, 0, 97, 98])"
    using mprintf_all [OF e, of 200] by (simp add: sqlite3_mprintf_def)
qed

end
