(* ===== verification/Mem.thy ===== *)
theory Mem
  imports Utf
begin

text \<open>
  The value cells of the virtual machine, \<^verbatim>\<open>vdbemem.c\<close>. A cell is a record \<open>Mem\<close>; the pointer to
  its text or blob is null, into the cell's own buffer \<^verbatim>\<open>zShort\<close>, or to memory elsewhere, which
  is given with its bytes. Who owns that memory is in the flags. The argument \<open>ok\<close> of an
  operation says whether the memory it asks for is there; assertions are those of a build
  without \<^verbatim>\<open>NDEBUG\<close> and are shown to hold, not tested. Cells that hold the context of an
  aggregate function (\<^verbatim>\<open>MEM_Agg\<close>) are released through \<open>sqlite3VdbeMemFinalize\<close> only.

  A double is its 64 bits. Comparison, truncation and conversion from integers follow IEEE
  754 with rounding to nearest, ties to even. Conversion between text and double is done by
  long double arithmetic that is not modelled: the arguments \<open>atof\<close> and \<open>dtext\<close>.
\<close>

subsection \<open>Flags and types\<close>

definition MEM_Null :: u16 where "MEM_Null = 0x0001"
definition MEM_Str :: u16 where "MEM_Str = 0x0002"
definition MEM_Int :: u16 where "MEM_Int = 0x0004"
definition MEM_Real :: u16 where "MEM_Real = 0x0008"
definition MEM_Blob :: u16 where "MEM_Blob = 0x0010"
definition MEM_Term :: u16 where "MEM_Term = 0x0020"
definition MEM_Dyn :: u16 where "MEM_Dyn = 0x0040"
definition MEM_Static :: u16 where "MEM_Static = 0x0080"
definition MEM_Ephem :: u16 where "MEM_Ephem = 0x0100"
definition MEM_Short :: u16 where "MEM_Short = 0x0200"
definition MEM_Agg :: u16 where "MEM_Agg = 0x0400"

lemmas mem_flags = MEM_Null_def MEM_Str_def MEM_Int_def MEM_Real_def MEM_Blob_def MEM_Term_def
  MEM_Dyn_def MEM_Static_def MEM_Ephem_def MEM_Short_def MEM_Agg_def

abbreviation SQLITE_INTEGER :: u8 where "SQLITE_INTEGER \<equiv> 1"
abbreviation SQLITE_FLOAT :: u8 where "SQLITE_FLOAT \<equiv> 2"
abbreviation SQLITE_TEXT :: u8 where "SQLITE_TEXT \<equiv> 3"
abbreviation SQLITE_BLOB :: u8 where "SQLITE_BLOB \<equiv> 4"
abbreviation SQLITE_NULL :: u8 where "SQLITE_NULL \<equiv> 5"

abbreviation NBFS :: nat where "NBFS \<equiv> 32"

datatype zptr = ZNull | ZShort | ZBuf bytes

record Mem =
  mi :: i64
  mr :: u64
  mz :: zptr
  mn :: int
  mflags :: u16
  mtype :: u8
  menc :: u8
  mxDel :: bool
  mzShort :: bytes

text \<open>Any of the flags of a mask; setting and clearing flags.\<close>

definition has :: "Mem \<Rightarrow> u16 \<Rightarrow> bool" where
  "has m x \<longleftrightarrow> mflags m AND x \<noteq> 0"

definition set_flags :: "u16 \<Rightarrow> Mem \<Rightarrow> Mem" where
  "set_flags x m = m\<lparr>mflags := mflags m OR x\<rparr>"

definition clear_flags :: "u16 \<Rightarrow> Mem \<Rightarrow> Mem" where
  "clear_flags x m = m\<lparr>mflags := mflags m AND NOT x\<rparr>"

lemma has_or: "has m (x OR y) \<longleftrightarrow> has m x \<or> has m y"
  by (simp add: has_def bit.conj_disj_distrib or_eq_0_iff)

text \<open>The memory the pointer refers to, and the \<open>n\<close> bytes of the value.\<close>

definition zmem :: "Mem \<Rightarrow> bytes" where
  "zmem m = (case mz m of ZNull \<Rightarrow> [] | ZShort \<Rightarrow> mzShort m | ZBuf b \<Rightarrow> b)"

definition content :: "Mem \<Rightarrow> bytes" where
  "content m = take (nat (mn m)) (zmem m)"

definition put_short :: "bytes \<Rightarrow> Mem \<Rightarrow> Mem" where
  "put_short b m = m\<lparr>mzShort := b @ drop (length b) (mzShort m), mz := ZShort\<rparr>"

subsection \<open>Doubles\<close>

definition d_exp :: "u64 \<Rightarrow> nat" where "d_exp x = unat (shr x 52) mod 2048"
definition d_frac :: "u64 \<Rightarrow> int" where "d_frac x = uint (x AND mask 52)"
definition d_neg :: "u64 \<Rightarrow> bool" where "d_neg x \<longleftrightarrow> bit x 63"
definition d_nan :: "u64 \<Rightarrow> bool" where "d_nan x \<longleftrightarrow> d_exp x = 2047 \<and> d_frac x \<noteq> 0"

text \<open>The value in units of \<open>2 ^ -1074\<close>, the smallest positive double; an infinity is larger than
  every finite value.\<close>

definition d_val :: "u64 \<Rightarrow> int" where
  "d_val x = (if d_neg x then - 1 else 1) *
     (if d_exp x = 0 then d_frac x else (2 ^ 52 + d_frac x) * 2 ^ (d_exp x - 1))"

definition d_less :: "u64 \<Rightarrow> u64 \<Rightarrow> bool" where
  "d_less x y \<longleftrightarrow> \<not> d_nan x \<and> \<not> d_nan y \<and> d_val x < d_val y"

definition d_eq :: "u64 \<Rightarrow> u64 \<Rightarrow> bool" where
  "d_eq x y \<longleftrightarrow> \<not> d_nan x \<and> \<not> d_nan y \<and> d_val x = d_val y"

fun bitlen :: "nat \<Rightarrow> nat" where
  "bitlen n = (if n = 0 then 0 else Suc (bitlen (n div 2)))"
declare bitlen.simps [simp del]

text \<open>The nearest double to a natural number: its 53 leading bits, rounded, with a carry into the
  exponent.\<close>

definition d_of_nat :: "nat \<Rightarrow> nat" where
  "d_of_nat n =
     (let k = bitlen n
      in if n = 0 then 0
         else if k \<le> 53 then (k + 1022) * 2 ^ 52 + (n * 2 ^ (53 - k) - 2 ^ 52)
         else (let s = k - 53; q = n div 2 ^ s; r = n mod 2 ^ s; half = 2 ^ (s - 1);
                   q' = (if r > half \<or> r = half \<and> odd q then q + 1 else q)
               in (k + 1022) * 2 ^ 52 + (q' - 2 ^ 52)))"

definition d_of_i64 :: "i64 \<Rightarrow> u64" where
  "d_of_i64 i = (if sint i < 0 then of_nat (2 ^ 63 + d_of_nat (nat (- sint i))) else of_nat (d_of_nat (nat (sint i))))"

text \<open>Truncation. A value out of range has no defined result in C; x86 processors give the
  smallest integer.\<close>

definition i64_of_d :: "u64 \<Rightarrow> i64" where
  "i64_of_d x =
     (let q = sgn (d_val x) * (\<bar>d_val x\<bar> div 2 ^ 1074)
      in if d_nan x \<or> q < - (2 ^ 63) \<or> 2 ^ 63 \<le> q then 0x8000000000000000 else of_int q)"

subsection \<open>Memory\<close>

text \<open>
  The user's finaliser of an aggregate maps the cell with the context to the cell of the result
  and an error flag; \<open>fin\<close> is \<^verbatim>\<open>pFunc->xFinalize\<close>, or \<open>None\<close> when there is none. The result keeps
  its own buffer.
\<close>

definition sqlite3VdbeMemFinalize :: "(Mem \<Rightarrow> Mem \<times> bool) option \<Rightarrow> Mem \<Rightarrow> Mem \<times> rc" where
  "sqlite3VdbeMemFinalize fin m =
     (case fin of None \<Rightarrow> (m, SQLITE_OK)
      | Some f \<Rightarrow>
          (case f m of (s, isError) \<Rightarrow>
             (if has s MEM_Short then s\<lparr>mz := ZShort\<rparr> else s, if isError then SQLITE_ERROR else SQLITE_OK)))"

text \<open>The memory is freed, by \<^verbatim>\<open>xDel\<close> or by \<^verbatim>\<open>sqliteFree\<close>.\<close>

definition sqlite3VdbeMemRelease :: "Mem \<Rightarrow> Mem" where
  "sqlite3VdbeMemRelease m = (if has m (MEM_Dyn OR MEM_Agg) then m\<lparr>mz := ZNull, mxDel := False\<rparr> else m)"

text \<open>A copy of the value with two zero bytes behind it.\<close>

definition copied :: "Mem \<Rightarrow> bytes" where
  "copied m = content m @ [0, 0]"

definition sqlite3VdbeMemDynamicify :: "bool \<Rightarrow> Mem \<Rightarrow> Mem \<times> rc" where
  "sqlite3VdbeMemDynamicify ok m =
     (if \<not> has m (MEM_Ephem OR MEM_Static OR MEM_Short) then (m, SQLITE_OK)
      else if \<not> ok then (m, SQLITE_NOMEM)
      else (clear_flags (MEM_Ephem OR MEM_Static OR MEM_Short)
              ((set_flags (MEM_Dyn OR MEM_Term) m)\<lparr>mxDel := False, mz := ZBuf (copied m)\<rparr>), SQLITE_OK))"

definition sqlite3VdbeMemMakeWriteable :: "bool \<Rightarrow> Mem \<Rightarrow> Mem \<times> rc" where
  "sqlite3VdbeMemMakeWriteable ok m =
     (if \<not> has m (MEM_Ephem OR MEM_Static) then (m, SQLITE_OK)
      else if mn m + 2 < int NBFS then
        (clear_flags (MEM_Ephem OR MEM_Static) (put_short (copied m) (set_flags (MEM_Short OR MEM_Term) m)), SQLITE_OK)
      else if \<not> ok then (m, SQLITE_NOMEM)
      else (clear_flags (MEM_Ephem OR MEM_Static)
              ((set_flags (MEM_Dyn OR MEM_Term) m)\<lparr>mxDel := False, mz := ZBuf (copied m)\<rparr>), SQLITE_OK))"

definition sqlite3VdbeMemNulTerminate :: "bool \<Rightarrow> Mem \<Rightarrow> Mem \<times> rc" where
  "sqlite3VdbeMemNulTerminate ok m =
     (if has m MEM_Term \<or> \<not> has m MEM_Str then (m, SQLITE_OK)
      else if has m (MEM_Static OR MEM_Ephem) then sqlite3VdbeMemMakeWriteable ok m
      else if \<not> ok then (m, SQLITE_NOMEM)
      else (m\<lparr>mxDel := False, mz := ZBuf (copied m)\<rparr>, SQLITE_OK))"

subsection \<open>Encodings\<close>

text \<open>
  The translation between UTF-8 and UTF-16. The readers see the memory behind the text, the
  terminator if there is one.
\<close>

definition translate_body :: "u8 \<Rightarrow> u8 \<Rightarrow> bytes \<Rightarrow> nat \<Rightarrow> bytes" where
  "translate_body enc desired z n =
     (if enc = SQLITE_UTF8 then
        (if desired = SQLITE_UTF16LE then decode_loop READ_UTF8 WRITE_UTF16LE z n 0
         else decode_loop READ_UTF8 WRITE_UTF16BE z n 0)
      else if enc = SQLITE_UTF16LE then decode_loop READ_UTF16LE WRITE_UTF8 z n 0
      else decode_loop READ_UTF16BE WRITE_UTF8 z n 0)"

definition swap_mem :: "Mem \<Rightarrow> Mem" where
  "swap_mem m =
     (let k = 2 * ((nat (mn m) + 1) div 2); b = swap_loop (take k (zmem m)) @ drop k (zmem m)
      in case mz m of ZNull \<Rightarrow> m | ZShort \<Rightarrow> m\<lparr>mzShort := b\<rparr> | ZBuf _ \<Rightarrow> m\<lparr>mz := ZBuf b\<rparr>)"

text \<open>The output goes to a buffer on the stack when it fits there, and from it to \<^verbatim>\<open>zShort\<close>.\<close>

definition sqlite3VdbeMemTranslate :: "bool \<Rightarrow> u8 \<Rightarrow> Mem \<Rightarrow> Mem \<times> rc" where
  "sqlite3VdbeMemTranslate ok desired m =
     (if menc m \<noteq> SQLITE_UTF8 \<and> desired \<noteq> SQLITE_UTF8 then
        (case sqlite3VdbeMemMakeWriteable ok m of (m, r) \<Rightarrow>
           if r \<noteq> SQLITE_OK then (m, SQLITE_NOMEM) else ((swap_mem m)\<lparr>menc := desired\<rparr>, SQLITE_OK))
      else
        (let len = translate_len desired (nat (mn m));
             out = translate_body (menc m) desired (zmem m) (nat (mn m));
             buf = out @ (if menc m = SQLITE_UTF8 then [0, 0] else [0]);
             m1 = clear_flags (MEM_Static OR MEM_Dyn OR MEM_Ephem OR MEM_Short)
                    (sqlite3VdbeMemRelease (m\<lparr>mn := int (length out)\<rparr>))
         in if len > NBFS then
              (if \<not> ok then (m, SQLITE_NOMEM)
               else ((set_flags (MEM_Term OR MEM_Dyn) m1)\<lparr>menc := desired, mz := ZBuf buf\<rparr>, SQLITE_OK))
            else (put_short (take len buf) ((set_flags (MEM_Term OR MEM_Short) m1)\<lparr>menc := desired\<rparr>), SQLITE_OK)))"

definition sqlite3VdbeChangeEncoding :: "bool \<Rightarrow> u8 \<Rightarrow> Mem \<Rightarrow> Mem \<times> rc" where
  "sqlite3VdbeChangeEncoding ok desiredEnc m =
     (if \<not> has m MEM_Str \<or> menc m = desiredEnc then (m, SQLITE_OK) else sqlite3VdbeMemTranslate ok desiredEnc m)"

subsection \<open>Conversions\<close>

text \<open>\<^verbatim>\<open>sqlite3_snprintf\<close> with the format \<^verbatim>\<open>%lld\<close>: a sign and the decimal digits.\<close>

function digits10 :: "nat \<Rightarrow> bytes" where
  "digits10 n = (if n < 10 then [] else digits10 (n div 10)) @ [of_nat (48 + n mod 10)]"
  by pat_completeness auto
termination by (relation "measure id") auto
declare digits10.simps [simp del]

definition itext :: "i64 \<Rightarrow> bytes" where
  "itext i = (if sint i < 0 then [45] else []) @ digits10 (nat \<bar>sint i\<bar>)"

definition sqlite3VdbeMemStringify :: "(u64 \<Rightarrow> bytes) \<Rightarrow> bool \<Rightarrow> u8 \<Rightarrow> Mem \<Rightarrow> Mem \<times> rc" where
  "sqlite3VdbeMemStringify dtext ok enc m =
     (let z = (if has m MEM_Int then itext (mi m) else take (NBFS - 1) (dtext (mr m)));
          m1 = put_short (z @ [0]) m;
          m2 = set_flags (MEM_Str OR MEM_Short OR MEM_Term) (m1\<lparr>mn := int (length z), menc := SQLITE_UTF8\<rparr>)
      in (fst (sqlite3VdbeChangeEncoding ok enc m2), SQLITE_OK))"

text \<open>A text is first brought to UTF-8 with a terminator; \<open>env 0\<close> and \<open>env 1\<close> are the
  outcomes of the two allocations.\<close>

definition utf8_terminated :: "(nat \<Rightarrow> bool) \<Rightarrow> Mem \<Rightarrow> Mem \<times> rc" where
  "utf8_terminated env m =
     (case sqlite3VdbeChangeEncoding (env 0) SQLITE_UTF8 m of (m, r) \<Rightarrow>
        if r \<noteq> SQLITE_OK then (m, r) else sqlite3VdbeMemNulTerminate (env 1) m)"

definition sqlite3VdbeIntValue :: "(nat \<Rightarrow> bool) \<Rightarrow> Mem \<Rightarrow> Mem \<times> i64" where
  "sqlite3VdbeIntValue env m =
     (if has m MEM_Int then (m, mi m)
      else if has m MEM_Real then (m, i64_of_d (mr m))
      else if has m (MEM_Str OR MEM_Blob) then
        (case utf8_terminated env m of (m, r) \<Rightarrow>
           if r \<noteq> SQLITE_OK then (m, 0) else (m, fst (sqlite3atoi64 (str_of (zmem m)))))
      else (m, 0))"

definition sqlite3VdbeRealValue :: "(bytes \<Rightarrow> u64) \<Rightarrow> (nat \<Rightarrow> bool) \<Rightarrow> Mem \<Rightarrow> Mem \<times> u64" where
  "sqlite3VdbeRealValue atof env m =
     (if has m MEM_Real then (m, mr m)
      else if has m MEM_Int then (m, d_of_i64 (mi m))
      else if has m (MEM_Str OR MEM_Blob) then
        (case utf8_terminated env m of (m, r) \<Rightarrow>
           if r \<noteq> SQLITE_OK then (m, 0) else (m, atof (str_of (zmem m))))
      else (m, 0))"

definition sqlite3VdbeIntegerAffinity :: "Mem \<Rightarrow> Mem" where
  "sqlite3VdbeIntegerAffinity m =
     (let m = m\<lparr>mi := i64_of_d (mr m)\<rparr> in if d_eq (d_of_i64 (mi m)) (mr m) then set_flags MEM_Int m else m)"

definition sqlite3VdbeMemIntegerify :: "(nat \<Rightarrow> bool) \<Rightarrow> Mem \<Rightarrow> Mem" where
  "sqlite3VdbeMemIntegerify env m =
     (case sqlite3VdbeIntValue env m of (m, i) \<Rightarrow> (sqlite3VdbeMemRelease (m\<lparr>mi := i\<rparr>))\<lparr>mflags := MEM_Int\<rparr>)"

definition sqlite3VdbeMemRealify :: "(bytes \<Rightarrow> u64) \<Rightarrow> (nat \<Rightarrow> bool) \<Rightarrow> Mem \<Rightarrow> Mem" where
  "sqlite3VdbeMemRealify atof env m =
     (case sqlite3VdbeRealValue atof env m of (m, r) \<Rightarrow> (sqlite3VdbeMemRelease (m\<lparr>mr := r\<rparr>))\<lparr>mflags := MEM_Real\<rparr>)"

definition sqlite3VdbeMemNumerify :: "(bytes \<Rightarrow> u64) \<Rightarrow> (nat \<Rightarrow> bool) \<Rightarrow> Mem \<Rightarrow> Mem" where
  "sqlite3VdbeMemNumerify atof env m = sqlite3VdbeIntegerAffinity (sqlite3VdbeMemRealify atof env m)"

subsection \<open>Setting a value\<close>

definition sqlite3VdbeMemSetNull :: "Mem \<Rightarrow> Mem" where
  "sqlite3VdbeMemSetNull m = (sqlite3VdbeMemRelease m)\<lparr>mflags := MEM_Null, mtype := SQLITE_NULL, mn := 0\<rparr>"

definition sqlite3VdbeMemSetInt64 :: "i64 \<Rightarrow> Mem \<Rightarrow> Mem" where
  "sqlite3VdbeMemSetInt64 val m = (sqlite3VdbeMemRelease m)\<lparr>mi := val, mflags := MEM_Int, mtype := SQLITE_INTEGER\<rparr>"

definition sqlite3VdbeMemSetDouble :: "u64 \<Rightarrow> Mem \<Rightarrow> Mem" where
  "sqlite3VdbeMemSetDouble val m = (sqlite3VdbeMemRelease m)\<lparr>mr := val, mflags := MEM_Real, mtype := SQLITE_FLOAT\<rparr>"

text \<open>
  A shallow copy has everything but the buffer \<^verbatim>\<open>zShort\<close>, and its pointer goes where the pointer of
  the original goes: for a short text, into the buffer of the original.
\<close>

definition sqlite3VdbeMemShallowCopy :: "u16 \<Rightarrow> Mem \<Rightarrow> Mem \<Rightarrow> Mem" where
  "sqlite3VdbeMemShallowCopy srcType pTo pFrom =
     (let m = pFrom\<lparr>mzShort := mzShort pTo, mxDel := False,
                mz := (if mz pFrom = ZShort then ZBuf (mzShort pFrom) else mz pFrom)\<rparr>
      in if has m (MEM_Str OR MEM_Blob)
         then set_flags srcType (clear_flags (MEM_Dyn OR MEM_Static OR MEM_Short OR MEM_Ephem) m) else m)"

definition sqlite3VdbeMemCopy :: "bool \<Rightarrow> Mem \<Rightarrow> Mem \<Rightarrow> Mem \<times> rc" where
  "sqlite3VdbeMemCopy ok pTo pFrom =
     (let pTo = (if has pTo MEM_Dyn then sqlite3VdbeMemRelease pTo else pTo);
          m = sqlite3VdbeMemShallowCopy MEM_Ephem pTo pFrom
      in if has m MEM_Ephem then sqlite3VdbeMemMakeWriteable ok m else (m, SQLITE_OK))"

text \<open>The result: the two cells and the code.\<close>

definition sqlite3VdbeMemMove :: "bool \<Rightarrow> Mem \<Rightarrow> Mem \<Rightarrow> Mem \<times> Mem \<times> rc" where
  "sqlite3VdbeMemMove ok pTo pFrom =
     (let m = (if has pFrom MEM_Short then pFrom\<lparr>mz := ZShort\<rparr> else pFrom);
          from' = pFrom\<lparr>mflags := MEM_Null, mxDel := False\<rparr>
      in case (if has m MEM_Ephem then sqlite3VdbeMemMakeWriteable ok m else (m, SQLITE_OK)) of
           (m, r) \<Rightarrow> (m, from', r))"

text \<open>
  The destructor argument of \<^verbatim>\<open>sqlite3VdbeMemSetStr\<close>. The string is given with the bytes in memory
  from the pointer on, the negative length stands for the length up to the terminator. A
  byte-order mark is taken off a UTF-16 text, which is then stored anew as a transient text;
  several marks are taken off one after the other. \<open>ok\<close> is the success of the one copy that is
  made in the end.
\<close>

datatype destructor = XStatic | XTransient | XDel

definition bom_of :: "bytes \<Rightarrow> int \<Rightarrow> u8" where
  "bom_of z n =
     (if n < 0 \<or> n > 1 then
        (if cat z 0 = 0xFE \<and> cat z 1 = 0xFF then SQLITE_UTF16BE
         else if cat z 0 = 0xFF \<and> cat z 1 = 0xFE then SQLITE_UTF16LE else 0)
      else 0)"

definition set_dest :: "destructor \<Rightarrow> Mem \<Rightarrow> Mem" where
  "set_dest x m =
     (case x of XStatic \<Rightarrow> m\<lparr>mflags := MEM_Static\<rparr> | XTransient \<Rightarrow> m\<lparr>mflags := MEM_Ephem\<rparr>
      | XDel \<Rightarrow> m\<lparr>mflags := MEM_Dyn, mxDel := True\<rparr>)"

definition copy_ephem :: "bool \<Rightarrow> Mem \<Rightarrow> Mem \<times> rc" where
  "copy_ephem ok m = (if has m MEM_Ephem then sqlite3VdbeMemMakeWriteable ok m else (m, SQLITE_OK))"

text \<open>The length of a UTF-16 text up to its terminator.\<close>

definition utf16_length :: "bytes \<Rightarrow> int" where
  "utf16_length z = (case sqlite3utf16ByteLen z (- 1) of Some n \<Rightarrow> n | None \<Rightarrow> int (length z))"

function SetStr_16 :: "bool \<Rightarrow> bytes \<Rightarrow> int \<Rightarrow> u16 \<Rightarrow> u8 \<Rightarrow> destructor \<Rightarrow> Mem \<Rightarrow> Mem \<times> rc" where
  "SetStr_16 ok z n term enc x m =
     (let m1 = set_flags (MEM_Str OR term) ((set_dest x (m\<lparr>mz := ZBuf z\<rparr>))\<lparr>menc := enc, mtype := SQLITE_TEXT, mn := n\<rparr>)
      in if bom_of z n \<noteq> 0 \<and> 1 < n then
           (case SetStr_16 ok (drop 2 z) (n - 2) 0 (bom_of z n) XTransient
               (if has m1 MEM_Dyn then m1\<lparr>mz := ZNull, mxDel := False\<rparr> else m1) of
              (m2, r) \<Rightarrow> if r \<noteq> SQLITE_OK then (m2, SQLITE_NOMEM) else copy_ephem ok m2)
         else copy_ephem ok m1)"
  by pat_completeness auto
termination by (relation "measure (\<lambda>(ok, z, n, t, e, x, m). nat n)") auto
declare SetStr_16.simps [simp del]

definition sqlite3VdbeMemSetStr :: "bool \<Rightarrow> bytes option \<Rightarrow> int \<Rightarrow> u8 \<Rightarrow> destructor \<Rightarrow> Mem \<Rightarrow> Mem \<times> rc" where
  "sqlite3VdbeMemSetStr ok z n enc x m =
     (let m = sqlite3VdbeMemRelease m
      in case z of None \<Rightarrow> (m\<lparr>mflags := MEM_Null, mtype := SQLITE_NULL\<rparr>, SQLITE_OK)
         | Some z \<Rightarrow>
             if enc = 0 then
               copy_ephem ok (set_flags MEM_Blob ((set_dest x (m\<lparr>mz := ZBuf z\<rparr>))\<lparr>menc := SQLITE_UTF8, mtype := SQLITE_BLOB, mn := n\<rparr>))
             else if enc = SQLITE_UTF8 then
               (let m1 = set_flags MEM_Str ((set_dest x (m\<lparr>mz := ZBuf z\<rparr>))\<lparr>menc := enc, mtype := SQLITE_TEXT, mn := n\<rparr>)
                in copy_ephem ok (if n < 0 then set_flags MEM_Term (m1\<lparr>mn := int (length (str_of z))\<rparr>) else m1))
             else if n < 0 then SetStr_16 ok z (utf16_length z) MEM_Term enc x m
             else SetStr_16 ok z n 0 enc x m)"

subsection \<open>Reading a value\<close>

definition sqlite3ValueText :: "(u64 \<Rightarrow> bytes) \<Rightarrow> bool \<Rightarrow> u8 \<Rightarrow> Mem \<Rightarrow> Mem \<times> bytes option" where
  "sqlite3ValueText dtext ok enc m =
     (if has m MEM_Null then (m, None)
      else
        (let m1 = (if has m MEM_Blob then set_flags MEM_Str m else m);
             m2 = (if has m1 MEM_Str then fst (sqlite3VdbeChangeEncoding ok enc m1)
                   else fst (sqlite3VdbeMemStringify dtext ok enc m1))
         in (m2, if menc m2 = enc then Some (zmem m2) else None)))"

definition sqlite3ValueBytes :: "(u64 \<Rightarrow> bytes) \<Rightarrow> bool \<Rightarrow> u8 \<Rightarrow> Mem \<Rightarrow> Mem \<times> int" where
  "sqlite3ValueBytes dtext ok enc m =
     (if has m MEM_Blob then (m, mn m)
      else (case sqlite3ValueText dtext ok enc m of (m, t) \<Rightarrow> (m, if t \<noteq> None then mn m else 0)))"

definition sqlite3ValueNew :: "bool \<Rightarrow> Mem option" where
  "sqlite3ValueNew ok =
     (if ok then Some \<lparr>mi = 0, mr = 0, mz = ZNull, mn = 0, mflags = MEM_Null, mtype = SQLITE_NULL, menc = 0,
        mxDel = False, mzShort = replicate NBFS 0\<rparr> else None)"

definition sqlite3ValueSetStr :: "bool \<Rightarrow> int \<Rightarrow> bytes option \<Rightarrow> u8 \<Rightarrow> destructor \<Rightarrow> Mem option \<Rightarrow> Mem option" where
  "sqlite3ValueSetStr ok n z enc x v = map_option (\<lambda>m. fst (sqlite3VdbeMemSetStr ok z n enc x m)) v"

text \<open>The type a value is reported with.\<close>

definition storeTypeInfo :: "Mem \<Rightarrow> Mem" where
  "storeTypeInfo m =
     m\<lparr>mtype := (if has m MEM_Null then SQLITE_NULL else if has m MEM_Int then SQLITE_INTEGER
       else if has m MEM_Real then SQLITE_FLOAT else if has m MEM_Str then SQLITE_TEXT else SQLITE_BLOB)\<rparr>"

subsection \<open>Affinity\<close>

abbreviation SQLITE_AFF_TEXT :: u8 where "SQLITE_AFF_TEXT \<equiv> 97"
abbreviation SQLITE_AFF_NONE :: u8 where "SQLITE_AFF_NONE \<equiv> 98"
abbreviation SQLITE_AFF_NUMERIC :: u8 where "SQLITE_AFF_NUMERIC \<equiv> 99"
abbreviation SQLITE_AFF_INTEGER :: u8 where "SQLITE_AFF_INTEGER \<equiv> 100"
abbreviation SQLITE_AFF_REAL :: u8 where "SQLITE_AFF_REAL \<equiv> 101"

text \<open>The allocations in their order: the terminator, the change of the encoding and those of the
  conversion to a double.\<close>

definition applyNumericAffinity :: "(bytes \<Rightarrow> u64) \<Rightarrow> (nat \<Rightarrow> bool) \<Rightarrow> Mem \<Rightarrow> Mem" where
  "applyNumericAffinity atof env m =
     (if has m (MEM_Real OR MEM_Int) then m
      else
        (let m1 = fst (sqlite3VdbeMemNulTerminate (env 0) m);
             (isnum, realnum) = sqlite3IsNumber (zmem m1) (menc m1)
         in if has m1 MEM_Str \<and> isnum then
              (let m2 = fst (sqlite3VdbeChangeEncoding (env 1) SQLITE_UTF8 m1);
                   (value, fits) = sqlite3atoi64 (str_of (zmem m2))
               in if realnum = Some 0 \<and> fits
                  then (sqlite3VdbeMemRelease m2)\<lparr>mi := value, mflags := MEM_Int\<rparr>
                  else sqlite3VdbeMemRealify atof (\<lambda>i. env (i + 2)) m2)
            else m1))"

definition applyAffinity :: "(u64 \<Rightarrow> bytes) \<Rightarrow> (bytes \<Rightarrow> u64) \<Rightarrow> (nat \<Rightarrow> bool) \<Rightarrow> u8 \<Rightarrow> u8 \<Rightarrow> Mem \<Rightarrow> Mem" where
  "applyAffinity dtext atof env affinity enc m =
     (if affinity = SQLITE_AFF_TEXT then
        clear_flags (MEM_Real OR MEM_Int)
          (if \<not> has m MEM_Str \<and> has m (MEM_Real OR MEM_Int) then fst (sqlite3VdbeMemStringify dtext (env 0) enc m) else m)
      else if affinity \<noteq> SQLITE_AFF_NONE then
        (let m1 = applyNumericAffinity atof env m
         in if has m1 MEM_Real then sqlite3VdbeIntegerAffinity m1 else m1)
      else m)"

definition sqlite3_value_numeric_type :: "(bytes \<Rightarrow> u64) \<Rightarrow> (nat \<Rightarrow> bool) \<Rightarrow> Mem \<Rightarrow> Mem \<times> u8" where
  "sqlite3_value_numeric_type atof env m =
     (let m1 = storeTypeInfo (applyNumericAffinity atof env m) in (m1, mtype m1))"

subsection \<open>Comparison\<close>

text \<open>A collating sequence: the encoding it wants its texts in and the user's comparison.\<close>

record CollSeq =
  cenc :: u8
  cxCmp :: "bytes \<Rightarrow> bytes \<Rightarrow> int"

text \<open>\<^verbatim>\<open>memcmp\<close> of the two values, then their lengths.\<close>

definition blob_compare :: "Mem \<Rightarrow> Mem \<Rightarrow> int" where
  "blob_compare m1 m2 =
     (let r = memcmp (zmem m1) (zmem m2) (nat (if mn m1 > mn m2 then mn m2 else mn m1))
      in if r = 0 then mn m1 - mn m2 else r)"

text \<open>The value as the collating sequence sees it: its bytes in the wanted encoding, none when
  there was no memory to convert them.\<close>

definition coll_text :: "bool \<Rightarrow> u8 \<Rightarrow> Mem \<Rightarrow> bytes" where
  "coll_text ok enc m =
     (let m1 = fst (sqlite3ValueBytes (\<lambda>_. []) ok enc m); n = snd (sqlite3ValueBytes (\<lambda>_. []) ok enc m)
      in case snd (sqlite3ValueText (\<lambda>_. []) ok enc m1) of Some t \<Rightarrow> take (nat n) t | None \<Rightarrow> [])"

definition num_less :: "Mem \<Rightarrow> Mem \<Rightarrow> bool" where
  "num_less m1 m2 =
     d_less (if has m1 MEM_Real then mr m1 else d_of_i64 (mi m1)) (if has m2 MEM_Real then mr m2 else d_of_i64 (mi m2))"

definition sqlite3MemCompare :: "(nat \<Rightarrow> bool) \<Rightarrow> Mem \<Rightarrow> Mem \<Rightarrow> CollSeq option \<Rightarrow> int" where
  "sqlite3MemCompare env m1 m2 pColl =
     (if has m1 MEM_Null \<or> has m2 MEM_Null then (if has m2 MEM_Null then 1 else 0) - (if has m1 MEM_Null then 1 else 0)
      else if has m1 (MEM_Int OR MEM_Real) \<or> has m2 (MEM_Int OR MEM_Real) then
        (if \<not> has m1 (MEM_Int OR MEM_Real) then 1
         else if \<not> has m2 (MEM_Int OR MEM_Real) then - 1
         else if \<not> (has m1 MEM_Int \<and> has m2 MEM_Int) then
           (if num_less m1 m2 then - 1 else if num_less m2 m1 then 1 else 0)
         else if sint (mi m1) < sint (mi m2) then - 1 else if sint (mi m1) > sint (mi m2) then 1 else 0)
      else if (has m1 MEM_Str \<or> has m2 MEM_Str) \<and> \<not> has m1 MEM_Str then 1
      else if (has m1 MEM_Str \<or> has m2 MEM_Str) \<and> \<not> has m2 MEM_Str then - 1
      else case (if has m1 MEM_Str then pColl else None) of
             Some c \<Rightarrow>
               if menc m1 = cenc c then cxCmp c (content m1) (content m2)
               else cxCmp c (coll_text (env 0) (cenc c) m1) (coll_text (env 1) (cenc c) m2)
           | None \<Rightarrow> blob_compare m1 m2)"

end
