(* ===== verification/MemInv.thy ===== *)
theory MemInv
  imports Mem
begin

text \<open>
  The consistency of value cells: \<^verbatim>\<open>sqlite3VdbeMemSanity\<close>, the checks the code itself makes, and
  the stronger invariant \<open>cell_ok\<close> that every operation of \<^verbatim>\<open>vdbemem.c\<close> keeps.
\<close>

definition sqlite3VdbeMemSanity :: "Mem \<Rightarrow> bool" where
  "sqlite3VdbeMemSanity m \<longleftrightarrow>
     mflags m \<noteq> 0 \<and>
     (if has m (MEM_Str OR MEM_Blob) then
        (let x = mflags m AND (MEM_Static OR MEM_Dyn OR MEM_Ephem OR MEM_Short)
         in x \<noteq> 0 \<and> x AND (x - 1) = 0 \<and> mz m \<noteq> ZNull \<and>
            (\<not> has m MEM_Short \<or> mz m = ZShort) \<and> (has m MEM_Short \<or> mz m \<noteq> ZShort) \<and>
            (\<not> mxDel m \<or> has m MEM_Dyn) \<and>
            (has m MEM_Str \<longrightarrow>
               (menc m = SQLITE_UTF8 \<or> menc m = SQLITE_UTF16BE \<or> menc m = SQLITE_UTF16LE) \<and>
               (menc m = SQLITE_UTF8 \<and> has m MEM_Term \<longrightarrow>
                  int (length (str_of (zmem m))) \<le> mn m \<and> cat (zmem m) (nat (mn m)) = 0)))
      else \<not> has m (MEM_Static OR MEM_Dyn OR MEM_Ephem OR MEM_Short) \<and> \<not> mxDel m) \<and>
     (\<not> has m (MEM_Str OR MEM_Int OR MEM_Real OR MEM_Blob) \<or> \<not> has m MEM_Null) \<and>
     (mflags m AND (MEM_Int OR MEM_Real) \<noteq> MEM_Int OR MEM_Real \<or> d_eq (mr m) (d_of_i64 (mi m)))"

subsection \<open>Flags as bits\<close>


lemma has_exp: "has m (2 ^ j) \<longleftrightarrow> bit (mflags m) j"
  by (simp add: has_def and_exp_eq_0_iff_not_bit)

lemma bit_exp_flag: "j < 16 \<Longrightarrow> bit (2 ^ j :: u16) k \<longleftrightarrow> k = j"
  by (auto simp: bit_exp_iff)

lemma flag_exp:
  "MEM_Null = 2 ^ 0"
  "MEM_Str = 2 ^ 1"
  "MEM_Int = 2 ^ 2"
  "MEM_Real = 2 ^ 3"
  "MEM_Blob = 2 ^ 4"
  "MEM_Term = 2 ^ 5"
  "MEM_Dyn = 2 ^ 6"
  "MEM_Static = 2 ^ 7"
  "MEM_Ephem = 2 ^ 8"
  "MEM_Short = 2 ^ 9"
  "MEM_Agg = 2 ^ 10"
  by (simp_all add: mem_flags)

lemma has_bit:
  "has m MEM_Null \<longleftrightarrow> bit (mflags m) 0"
  "has m MEM_Str \<longleftrightarrow> bit (mflags m) 1"
  "has m MEM_Int \<longleftrightarrow> bit (mflags m) 2"
  "has m MEM_Real \<longleftrightarrow> bit (mflags m) 3"
  "has m MEM_Blob \<longleftrightarrow> bit (mflags m) 4"
  "has m MEM_Term \<longleftrightarrow> bit (mflags m) 5"
  "has m MEM_Dyn \<longleftrightarrow> bit (mflags m) 6"
  "has m MEM_Static \<longleftrightarrow> bit (mflags m) 7"
  "has m MEM_Ephem \<longleftrightarrow> bit (mflags m) 8"
  "has m MEM_Short \<longleftrightarrow> bit (mflags m) 9"
  "has m MEM_Agg \<longleftrightarrow> bit (mflags m) 10"
  unfolding flag_exp has_exp by (rule refl)+

lemma bit_flag:
  "bit MEM_Null k \<longleftrightarrow> k = 0"
  "bit MEM_Str k \<longleftrightarrow> k = 1"
  "bit MEM_Int k \<longleftrightarrow> k = 2"
  "bit MEM_Real k \<longleftrightarrow> k = 3"
  "bit MEM_Blob k \<longleftrightarrow> k = 4"
  "bit MEM_Term k \<longleftrightarrow> k = 5"
  "bit MEM_Dyn k \<longleftrightarrow> k = 6"
  "bit MEM_Static k \<longleftrightarrow> k = 7"
  "bit MEM_Ephem k \<longleftrightarrow> k = 8"
  "bit MEM_Short k \<longleftrightarrow> k = 9"
  "bit MEM_Agg k \<longleftrightarrow> k = 10"
  unfolding flag_exp by (simp_all only: bit_exp_flag arith_simps rel_simps)

lemma bit_set: "bit (mflags (set_flags x m)) k \<longleftrightarrow> bit (mflags m) k \<or> bit x k"
  "bit (mflags (clear_flags x m)) k \<longleftrightarrow> bit (mflags m) k \<and> \<not> bit x k"
  using bit_imp_le_length [of "mflags m" k] by (auto simp: set_flags_def clear_flags_def bit_or_iff bit_and_iff bit_not_iff)

lemma flags_read:
  "mi (set_flags x m) = mi m" "mr (set_flags x m) = mr m" "mz (set_flags x m) = mz m" "mn (set_flags x m) = mn m"
  "menc (set_flags x m) = menc m" "mxDel (set_flags x m) = mxDel m" "mzShort (set_flags x m) = mzShort m"
  "mtype (set_flags x m) = mtype m"
  "mi (clear_flags x m) = mi m" "mr (clear_flags x m) = mr m" "mz (clear_flags x m) = mz m" "mn (clear_flags x m) = mn m"
  "menc (clear_flags x m) = menc m" "mxDel (clear_flags x m) = mxDel m" "mzShort (clear_flags x m) = mzShort m"
  "mtype (clear_flags x m) = mtype m"
  by (simp_all add: set_flags_def clear_flags_def)

lemma short_read:
  "mi (put_short b m) = mi m" "mr (put_short b m) = mr m" "mz (put_short b m) = ZShort" "mn (put_short b m) = mn m"
  "menc (put_short b m) = menc m" "mxDel (put_short b m) = mxDel m" "mflags (put_short b m) = mflags m"
  "mzShort (put_short b m) = b @ drop (length b) (mzShort m)"
  by (simp_all add: put_short_def)

lemmas cell_simps = has_or has_bit bit_flag bit_set bit_or_iff flags_read short_read

subsection \<open>The invariant\<close>

definition text_ok :: "u8 \<Rightarrow> bytes \<Rightarrow> bool" where
  "text_ok enc z \<longleftrightarrow> enc \<in> {SQLITE_UTF8, SQLITE_UTF16LE, SQLITE_UTF16BE} \<and>
     (\<exists>cs. list_all utf16_point cs \<and> z = encode enc cs)"

text \<open>Exactly one flag says where a text or blob is; its pointer is as the flag says, and the
  value lies in its memory, with a zero behind it if the flags say so.\<close>

definition place_ok :: "Mem \<Rightarrow> bool" where
  "place_ok m \<longleftrightarrow>
     (let f = bit (mflags m) in
      (f 6 \<or> f 7 \<or> f 8 \<or> f 9) \<and> \<not> (f 6 \<and> f 7) \<and> \<not> (f 6 \<and> f 8) \<and> \<not> (f 6 \<and> f 9) \<and> \<not> (f 7 \<and> f 8) \<and> \<not> (f 7 \<and> f 9) \<and> \<not> (f 8 \<and> f 9) \<and>
      mz m \<noteq> ZNull \<and> (f 9 \<longleftrightarrow> mz m = ZShort) \<and> (mxDel m \<longrightarrow> f 6) \<and>
      0 \<le> mn m \<and> mn m \<le> int (length (zmem m)) \<and> (f 5 \<longrightarrow> cat (zmem m) (nat (mn m)) = 0))"

definition kinds_ok :: "(nat \<Rightarrow> bool) \<Rightarrow> bool" where
  "kinds_ok f \<longleftrightarrow> (f 0 \<or> f 1 \<or> f 2 \<or> f 3 \<or> f 4) \<and> (f 0 \<longrightarrow> \<not> f 1 \<and> \<not> f 2 \<and> \<not> f 3 \<and> \<not> f 4) \<and>
     (f 4 \<longrightarrow> \<not> f 1 \<and> \<not> f 2 \<and> \<not> f 3) \<and> \<not> f 10 \<and> (f 1 \<and> f 9 \<longrightarrow> f 5)"

definition cell_ok :: "Mem \<Rightarrow> bool" where
  "cell_ok m \<longleftrightarrow>
     (let f = bit (mflags m) in
      length (mzShort m) = NBFS \<and> kinds_ok f \<and>
      (if f 1 \<or> f 4 then place_ok m else \<not> f 6 \<and> \<not> f 7 \<and> \<not> f 8 \<and> \<not> f 9 \<and> \<not> mxDel m) \<and>
      (f 1 \<longrightarrow> text_ok (menc m) (content m)) \<and>
      (f 2 \<and> f 3 \<longrightarrow> i64_of_d (mr m) = mi m \<and> d_eq (mr m) (d_of_i64 (mi m))))"

lemma str_of_le: "cat z n = 0 \<Longrightarrow> length (str_of z) \<le> n"
proof (rule ccontr)
  assume z: "cat z n = 0" and "\<not> length (str_of z) \<le> n"
  then have n: "n < length (takeWhile (\<lambda>c. c \<noteq> 0) z)" by (simp add: str_of_def)
  have "takeWhile (\<lambda>c. c \<noteq> 0) z ! n \<noteq> 0" by (rule set_takeWhileD [OF nth_mem [OF n], THEN conjunct2])
  moreover have "takeWhile (\<lambda>c. c \<noteq> 0) z ! n = z ! n" "n < length z"
    by (rule takeWhile_nth [OF n]) (rule less_le_trans [OF n length_takeWhile_le])
  ultimately show False using z by (simp add: cat_def)
qed

lemma one_place:
  assumes "place_ok m" "x = mflags m AND (MEM_Static OR MEM_Dyn OR MEM_Ephem OR MEM_Short)"
  shows "x \<noteq> 0 \<and> x AND (x - 1) = 0"
proof -
  obtain j where j: "j \<in> {6, 7, 8, 9::nat}" "\<And>k. k \<in> {6, 7, 8, 9} \<Longrightarrow> bit (mflags m) k \<longleftrightarrow> k = j"
  proof -
    let ?f = "bit (mflags m)"
    have "?f 6 \<or> ?f 7 \<or> ?f 8 \<or> ?f 9" and "\<not> (?f 6 \<and> ?f 7)" "\<not> (?f 6 \<and> ?f 8)" "\<not> (?f 6 \<and> ?f 9)"
      "\<not> (?f 7 \<and> ?f 8)" "\<not> (?f 7 \<and> ?f 9)" "\<not> (?f 8 \<and> ?f 9)" using assms(1) unfolding place_ok_def Let_def by iprover+
    then have "\<exists>j\<in>{6, 7, 8, 9}. \<forall>k\<in>{6, 7, 8, 9}. ?f k \<longleftrightarrow> k = j" by simp blast
    then show thesis using that by blast
  qed
  have "bit x k \<longleftrightarrow> bit (mflags m) k \<and> k \<in> {6, 7, 8, 9}" for k
    unfolding assms(2) bit_and_iff bit_or_iff bit_flag by simp blast
  moreover have "j < 16" using j(1) by auto
  ultimately have "x = 2 ^ j" using j by (intro bit_word_eqI) (simp only: bit_exp_flag, blast)
  then show ?thesis using j(1) by auto
qed

lemma cell_ok_sane:
  assumes "cell_ok m"
  shows "sqlite3VdbeMemSanity m"
proof -
  let ?f = "bit (mflags m)"
  have c: "?f 0 \<or> ?f 1 \<or> ?f 2 \<or> ?f 3 \<or> ?f 4" "?f 0 \<longrightarrow> \<not> ?f 1 \<and> \<not> ?f 2 \<and> \<not> ?f 3 \<and> \<not> ?f 4"
    "if ?f 1 \<or> ?f 4 then place_ok m else \<not> ?f 6 \<and> \<not> ?f 7 \<and> \<not> ?f 8 \<and> \<not> ?f 9 \<and> \<not> mxDel m"
    "?f 1 \<longrightarrow> text_ok (menc m) (content m)" "?f 2 \<and> ?f 3 \<longrightarrow> d_eq (mr m) (d_of_i64 (mi m))"
    using assms unfolding cell_ok_def kinds_ok_def Let_def by iprover+
  have f0: "mflags m \<noteq> 0" using c(1) by (cases "mflags m = 0") simp_all
  have both: "mflags m AND (MEM_Int OR MEM_Real) \<noteq> MEM_Int OR MEM_Real \<or> d_eq (mr m) (d_of_i64 (mi m))"
  proof (cases "?f 2 \<and> ?f 3")
    case False
    have "mflags m AND (MEM_Int OR MEM_Real) \<noteq> MEM_Int OR MEM_Real"
    proof
      assume "mflags m AND (MEM_Int OR MEM_Real) = MEM_Int OR MEM_Real"
      from arg_cong [OF this, of "\<lambda>w. bit w 2"] arg_cong [OF this, of "\<lambda>w. bit w 3"] show False
        using False by (simp add: bit_and_iff bit_or_iff bit_flag)
    qed
    then show ?thesis ..
  qed (use c(5) in blast)
  have nul: "\<not> has m (MEM_Str OR MEM_Int OR MEM_Real OR MEM_Blob) \<or> \<not> has m MEM_Null"
    using c(2) by (auto simp: cell_simps)
  show ?thesis
  proof (cases "?f 1 \<or> ?f 4")
    case True
    then have p: "place_ok m" using c(3) by simp
    have z: "mz m \<noteq> ZNull" "?f 9 \<longleftrightarrow> mz m = ZShort" "mxDel m \<longrightarrow> ?f 6" "0 \<le> mn m" "?f 5 \<longrightarrow> cat (zmem m) (nat (mn m)) = 0"
      using p unfolding place_ok_def Let_def by iprover+
    have t: "?f 5 \<longrightarrow> int (length (str_of (zmem m))) \<le> mn m \<and> cat (zmem m) (nat (mn m)) = 0"
      using z(4,5) str_of_le [of "zmem m" "nat (mn m)"] by auto
    have e: "?f 1 \<longrightarrow> menc m = SQLITE_UTF8 \<or> menc m = SQLITE_UTF16BE \<or> menc m = SQLITE_UTF16LE"
      using c(4) by (auto simp: text_ok_def)
    show ?thesis
      unfolding sqlite3VdbeMemSanity_def Let_def
      using f0 both nul True one_place [OF p refl] z(1-3) t e by (simp add: cell_simps)
  next
    case False
    then show ?thesis
      unfolding sqlite3VdbeMemSanity_def Let_def
      using f0 both nul c(3) by (simp add: cell_simps)
  qed
qed

subsection \<open>Memory\<close>

lemma cell_okD:
  assumes "cell_ok m"
  shows "length (mzShort m) = NBFS" "kinds_ok (bit (mflags m))"
    "bit (mflags m) 1 \<or> bit (mflags m) 4 \<Longrightarrow> place_ok m"
    "\<not> bit (mflags m) 1 \<Longrightarrow> \<not> bit (mflags m) 4 \<Longrightarrow>
       \<not> bit (mflags m) 6 \<and> \<not> bit (mflags m) 7 \<and> \<not> bit (mflags m) 8 \<and> \<not> bit (mflags m) 9 \<and> \<not> mxDel m"
    "bit (mflags m) 1 \<Longrightarrow> text_ok (menc m) (content m)"
    "bit (mflags m) 2 \<Longrightarrow> bit (mflags m) 3 \<Longrightarrow> i64_of_d (mr m) = mi m \<and> d_eq (mr m) (d_of_i64 (mi m))"
  using assms unfolding cell_ok_def Let_def by (simp_all split: if_splits)

lemma place_okD:
  assumes "place_ok m"
  shows "mxDel m \<Longrightarrow> bit (mflags m) 6" "0 \<le> mn m" "mn m \<le> int (length (zmem m))"
    "bit (mflags m) 5 \<Longrightarrow> cat (zmem m) (nat (mn m)) = 0" "bit (mflags m) 9 \<longleftrightarrow> mz m = ZShort" "mz m \<noteq> ZNull"
  using assms unfolding place_ok_def Let_def by iprover+

text \<open>A cell whose value moves to another place.\<close>

lemma moved_ok:
  assumes "cell_ok m" "place_ok m'" "\<And>k. k < 5 \<Longrightarrow> bit (mflags m') k \<longleftrightarrow> bit (mflags m) k" "\<not> bit (mflags m') 10"
    "bit (mflags m') 9 \<Longrightarrow> bit (mflags m') 5" "length (mzShort m') = NBFS"
    "mi m' = mi m" "mr m' = mr m" "menc m' = menc m" "content m' = content m" "bit (mflags m) 1 \<or> bit (mflags m) 4"
  shows "cell_ok m'"
proof -
  have b: "bit (mflags m') 0 \<longleftrightarrow> bit (mflags m) 0" "bit (mflags m') 1 \<longleftrightarrow> bit (mflags m) 1" "bit (mflags m') 2 \<longleftrightarrow> bit (mflags m) 2"
    "bit (mflags m') 3 \<longleftrightarrow> bit (mflags m) 3" "bit (mflags m') 4 \<longleftrightarrow> bit (mflags m) 4"
    by (rule assms(3), simp)+
  have "kinds_ok (bit (mflags m'))"
    using cell_okD(2) [OF assms(1)] assms(4,5) unfolding kinds_ok_def b by iprover
  then show ?thesis
    using assms(2,6,11) cell_okD(5,6) [OF assms(1)] unfolding cell_ok_def Let_def b assms(7-10) by simp
qed

lemma copied_read:
  assumes "place_ok m"
  shows "length (content m) = nat (mn m)" "take (nat (mn m)) (copied m @ r) = content m"
    "cat (copied m @ r) (nat (mn m)) = 0" "length (copied m) = nat (mn m) + 2"
proof -
  show l: "length (content m) = nat (mn m)" using place_okD(2,3) [OF assms] by (simp add: content_def)
  then show "take (nat (mn m)) (copied m @ r) = content m" "cat (copied m @ r) (nat (mn m)) = 0"
      "length (copied m) = nat (mn m) + 2" by (simp_all add: copied_def cat_append)
qed

lemma ZBuf_place:
  assumes "place_ok m" "mz m' = ZBuf (copied m)" "mn m' = mn m" "bit (mflags m') 6" "\<not> bit (mflags m') 7" "\<not> bit (mflags m') 8"
    "\<not> bit (mflags m') 9"
  shows "place_ok m'" "content m' = content m"
  using copied_read(1,4) [OF assms(1)] copied_read(2,3) [OF assms(1), of "[]"] assms place_okD(2) [OF assms(1)]
  by (simp_all add: place_ok_def Let_def zmem_def content_def)

lemma ZShort_place:
  assumes "place_ok m" "mz m' = ZShort" "mzShort m' = copied m @ r" "mn m' = mn m" "bit (mflags m') 9" "\<not> bit (mflags m') 7" "\<not> bit (mflags m') 8"
    "\<not> bit (mflags m') 6" "\<not> mxDel m'"
  shows "place_ok m'" "content m' = content m"
  using copied_read(1,4) [OF assms(1)] copied_read(2,3) [OF assms(1), of r] assms place_okD(2) [OF assms(1)]
  by (simp_all add: place_ok_def Let_def zmem_def content_def)

lemma placed_one:
  assumes "place_ok m"
  shows "bit (mflags m) 7 \<or> bit (mflags m) 8 \<Longrightarrow> \<not> bit (mflags m) 6 \<and> \<not> bit (mflags m) 9"
    "bit (mflags m) 6 \<Longrightarrow> \<not> bit (mflags m) 7 \<and> \<not> bit (mflags m) 8 \<and> \<not> bit (mflags m) 9"
    "bit (mflags m) 9 \<Longrightarrow> \<not> bit (mflags m) 7 \<and> \<not> bit (mflags m) 8 \<and> \<not> bit (mflags m) 6"
    "bit (mflags m) 6 \<or> bit (mflags m) 7 \<or> bit (mflags m) 8 \<or> bit (mflags m) 9"
  using assms unfolding place_ok_def Let_def by blast+

lemma located:
  assumes "cell_ok m" "bit (mflags m) 6 \<or> bit (mflags m) 7 \<or> bit (mflags m) 8 \<or> bit (mflags m) 9"
  shows "place_ok m" "bit (mflags m) 1 \<or> bit (mflags m) 4"
  using cell_okD(3,4) [OF assms(1)] assms(2) by blast+

lemma writeable_ok:
  assumes "cell_ok m"
  shows "cell_ok (fst (sqlite3VdbeMemMakeWriteable ok m))"
proof (cases "bit (mflags m) 7 \<or> bit (mflags m) 8")
  case False
  then show ?thesis using assms by (simp add: sqlite3VdbeMemMakeWriteable_def cell_simps)
next
  case True
  then have p: "place_ok m" and v: "bit (mflags m) 1 \<or> bit (mflags m) 4" using located [OF assms] by blast+
  have one: "\<not> bit (mflags m) 6" "\<not> bit (mflags m) 9" using placed_one [OF p] True by blast+
  have x: "\<not> mxDel m" using place_okD(1) [OF p] one by blast
  note k = cell_okD(2) [OF assms, unfolded kinds_ok_def]
  have l: "length (mzShort m) = NBFS" by (rule cell_okD(1) [OF assms])
  show ?thesis
  proof (cases "mn m + 2 < int NBFS")
    case short: True
    let ?m = "clear_flags (MEM_Ephem OR MEM_Static) (put_short (copied m) (set_flags (MEM_Short OR MEM_Term) m))"
    have "cell_ok ?m"
    proof (rule moved_ok [OF assms ZShort_place(1) [OF p], of ?m "drop (length (copied m)) (mzShort m)"])
      show "length (mzShort ?m) = NBFS" using short l copied_read(4) [OF p] by (simp add: cell_simps)
      show "content ?m = content m"
        by (rule ZShort_place(2) [OF p, of _ "drop (length (copied m)) (mzShort m)"]) (simp_all add: cell_simps one x)
    qed (use k v one x in \<open>simp_all add: cell_simps\<close>)
    then show ?thesis using True short by (auto simp: sqlite3VdbeMemMakeWriteable_def cell_simps)
  next
    case long: False
    let ?m = "clear_flags (MEM_Ephem OR MEM_Static) ((set_flags (MEM_Dyn OR MEM_Term) m)\<lparr>mxDel := False, mz := ZBuf (copied m)\<rparr>)"
    have "cell_ok ?m"
    proof (rule moved_ok [OF assms ZBuf_place(1) [OF p]])
      show "content ?m = content m" by (rule ZBuf_place(2) [OF p]) (simp_all add: cell_simps one)
    qed (use k v one l in \<open>simp_all add: cell_simps\<close>)
    then show ?thesis using True long assms by (simp add: sqlite3VdbeMemMakeWriteable_def cell_simps)
  qed
qed

lemma dynamicify_ok:
  assumes "cell_ok m"
  shows "cell_ok (fst (sqlite3VdbeMemDynamicify ok m))"
proof (cases "bit (mflags m) 7 \<or> bit (mflags m) 8 \<or> bit (mflags m) 9")
  case False
  then show ?thesis using assms by (simp add: sqlite3VdbeMemDynamicify_def cell_simps)
next
  case True
  then have p: "place_ok m" and v: "bit (mflags m) 1 \<or> bit (mflags m) 4" using located [OF assms] by blast+
  have one: "\<not> bit (mflags m) 6" using placed_one [OF p] True by blast
  note k = cell_okD(2) [OF assms, unfolded kinds_ok_def]
  let ?m = "clear_flags (MEM_Ephem OR MEM_Static OR MEM_Short) ((set_flags (MEM_Dyn OR MEM_Term) m)\<lparr>mxDel := False, mz := ZBuf (copied m)\<rparr>)"
  have "cell_ok ?m"
  proof (rule moved_ok [OF assms ZBuf_place(1) [OF p]])
    show "content ?m = content m" by (rule ZBuf_place(2) [OF p]) (simp_all add: cell_simps one)
  qed (use k v one cell_okD(1) [OF assms] in \<open>simp_all add: cell_simps\<close>)
  then show ?thesis using True assms by (auto simp: sqlite3VdbeMemDynamicify_def cell_simps)
qed

lemma terminate_ok:
  assumes "cell_ok m"
  shows "cell_ok (fst (sqlite3VdbeMemNulTerminate ok m))"
proof (cases "bit (mflags m) 5 \<or> \<not> bit (mflags m) 1 \<or> bit (mflags m) 7 \<or> bit (mflags m) 8 \<or> \<not> ok")
  case True
  then show ?thesis using assms writeable_ok [OF assms, of ok] by (auto simp: sqlite3VdbeMemNulTerminate_def cell_simps)
next
  case False
  note k = cell_okD(2) [OF assms, unfolded kinds_ok_def]
  have p: "place_ok m" using cell_okD(3) [OF assms] False by simp
  have one: "bit (mflags m) 6" "\<not> bit (mflags m) 9" using placed_one(4) [OF p] k False by blast+
  let ?m = "m\<lparr>mxDel := False, mz := ZBuf (copied m)\<rparr>"
  have "cell_ok ?m"
  proof (rule moved_ok [OF assms ZBuf_place(1) [OF p]])
    show "content ?m = content m" by (rule ZBuf_place(2) [OF p]) (use one False in simp_all)
  qed (use k one False cell_okD(1) [OF assms] in simp_all)
  then show ?thesis using False by (simp add: sqlite3VdbeMemNulTerminate_def cell_simps)
qed

subsection \<open>Encodings\<close>

abbreviation encs :: "u8 set" where "encs \<equiv> {SQLITE_UTF8, SQLITE_UTF16LE, SQLITE_UTF16BE}"

lemma translate_body_encode:
  assumes "list_all utf16_point cs" "enc \<in> encs" "desired \<in> encs" "enc \<noteq> desired" "enc = SQLITE_UTF8 \<or> desired = SQLITE_UTF8"
  shows "translate_body enc desired (encode enc cs @ tail) (length (encode enc cs)) = encode desired cs"
proof -
  have cp: "c \<in> set cs \<Longrightarrow> code_point c" "c \<in> set cs \<Longrightarrow> utf16_point c" for c
    using assms(1) by (auto simp: list_all_iff utf16_point_def)
  have u8: "decode_loop READ_UTF8 wr (concat (map WRITE_UTF8 cs) @ tail) (length (concat (map WRITE_UTF8 cs))) 0 = concat (map wr cs)" for wr
    using decode_concat [of cs READ_UTF8 WRITE_UTF8 wr "[]" tail, OF read_write_utf8 [OF cp(1)] read_drop(1) write_nonempty(1)] by simp
  have le: "decode_loop READ_UTF16LE wr (concat (map WRITE_UTF16LE cs) @ tail) (length (concat (map WRITE_UTF16LE cs))) 0 = concat (map wr cs)" for wr
    using decode_concat [of cs READ_UTF16LE WRITE_UTF16LE wr "[]" tail, OF read_write_utf16le [OF cp(2)] read_drop(2) write_nonempty(2)] by simp
  have be: "decode_loop READ_UTF16BE wr (concat (map WRITE_UTF16BE cs) @ tail) (length (concat (map WRITE_UTF16BE cs))) 0 = concat (map wr cs)" for wr
    using decode_concat [of cs READ_UTF16BE WRITE_UTF16BE wr "[]" tail, OF read_write_utf16be [OF cp(2)] read_drop(3) write_nonempty(3)] by simp
  have ne: "SQLITE_UTF8 \<noteq> SQLITE_UTF16LE" "SQLITE_UTF16LE \<noteq> SQLITE_UTF8" "SQLITE_UTF8 \<noteq> SQLITE_UTF16BE"
    "SQLITE_UTF16BE \<noteq> SQLITE_UTF8" "SQLITE_UTF16LE \<noteq> SQLITE_UTF16BE" "SQLITE_UTF16BE \<noteq> SQLITE_UTF16LE" by simp_all
  show ?thesis
    using assms(2-5) unfolding translate_body_def encode_def
    by (elim insertE emptyE) (simp_all only: ne u8 le be simp_thms if_True if_False)
qed

lemma writeable_read:
  assumes "cell_ok m" "bit (mflags m) 1" "snd (sqlite3VdbeMemMakeWriteable ok m) = SQLITE_OK"
  shows "menc (fst (sqlite3VdbeMemMakeWriteable ok m)) = menc m" "bit (mflags (fst (sqlite3VdbeMemMakeWriteable ok m))) 1"
    "content (fst (sqlite3VdbeMemMakeWriteable ok m)) = content m"
proof -
  have p: "place_ok m" using cell_okD(3) [OF assms(1)] assms(2) by simp
  have x: "bit (mflags m) 7 \<or> bit (mflags m) 8 \<Longrightarrow> \<not> bit (mflags m) 6 \<and> \<not> bit (mflags m) 9 \<and> \<not> mxDel m"
    using placed_one [OF p] place_okD(1) [OF p] by blast
  show "menc (fst (sqlite3VdbeMemMakeWriteable ok m)) = menc m" "bit (mflags (fst (sqlite3VdbeMemMakeWriteable ok m))) 1"
    using assms(2) by (simp_all add: sqlite3VdbeMemMakeWriteable_def cell_simps)
  show "content (fst (sqlite3VdbeMemMakeWriteable ok m)) = content m"
    unfolding sqlite3VdbeMemMakeWriteable_def using assms(3) x
      ZShort_place(2) [OF p, of "clear_flags (MEM_Ephem OR MEM_Static) (put_short (copied m) (set_flags (MEM_Short OR MEM_Term) m))" "drop (length (copied m)) (mzShort m)"]
      ZBuf_place(2) [OF p, of "clear_flags (MEM_Ephem OR MEM_Static) ((set_flags (MEM_Dyn OR MEM_Term) m)\<lparr>mxDel := False, mz := ZBuf (copied m)\<rparr>)"]
    by (auto simp: cell_simps)
qed

lemma even_div: "even n \<Longrightarrow> 2 * ((n + 1) div 2) = (n :: nat)"
  by auto

lemma encode_length: "enc \<in> {SQLITE_UTF16LE, SQLITE_UTF16BE} \<Longrightarrow> even (length (encode enc cs))"
  using length_growth(3,4) [of cs] by auto

lemma swap_encode:
  assumes "enc \<in> {SQLITE_UTF16LE, SQLITE_UTF16BE}" "desired \<in> {SQLITE_UTF16LE, SQLITE_UTF16BE}" "enc \<noteq> desired"
  shows "swap_loop (encode enc cs) = encode desired cs"
  using assms by (elim insertE emptyE) (simp_all add: encode_def swap_concat)

lemma encode_16_length: "length (encode SQLITE_UTF16BE cs) = length (encode SQLITE_UTF16LE cs)"
  by (rule length_growth(3))

text \<open>Swapping in place.\<close>

lemma swap_ok:
  assumes "cell_ok m" "bit (mflags m) 1" "menc m \<in> {SQLITE_UTF16LE, SQLITE_UTF16BE}" "desired \<in> {SQLITE_UTF16LE, SQLITE_UTF16BE}"
    "menc m \<noteq> desired"
  shows "cell_ok ((swap_mem m)\<lparr>menc := desired\<rparr>)"
proof -
  have p: "place_ok m" using cell_okD(3) [OF assms(1)] assms(2) by simp
  obtain cs where cs: "list_all utf16_point cs" "content m = encode (menc m) cs"
    using cell_okD(5) [OF assms(1,2)] by (auto simp: text_ok_def)
  have l: "length (content m) = nat (mn m)" by (rule copied_read(1) [OF p])
  define n where "n = nat (mn m)"
  have n: "2 * ((n + 1) div 2) = n" using even_div [OF encode_length [OF assms(3), of cs]] l cs(2) n_def by simp
  define b where "b = encode desired cs @ drop n (zmem m)"
  have le: "length (encode desired cs) = n"
    using l cs(2) assms(3-5) encode_16_length [of cs] n_def by auto
  have sw: "swap_loop (take n (zmem m)) = encode desired cs"
    using swap_encode [OF assms(3-5), of cs] cs(2) by (simp add: content_def n_def)
  have e: "swap_mem m = (case mz m of ZNull \<Rightarrow> m | ZShort \<Rightarrow> m\<lparr>mzShort := b\<rparr> | ZBuf _ \<Rightarrow> m\<lparr>mz := ZBuf b\<rparr>)"
    unfolding swap_mem_def Let_def n_def [symmetric] n sw b_def by (rule refl)
  have zl: "n \<le> length (zmem m)" using l by (simp add: content_def n_def)
  have bl: "length b = length (zmem m)" "cat b n = cat (zmem m) n" "take n b = encode desired cs"
    using le zl by (simp_all add: b_def cat_append)
  let ?m = "(swap_mem m)\<lparr>menc := desired\<rparr>"
  have z: "zmem ?m = b" "mn ?m = mn m" "mflags ?m = mflags m" "mxDel ?m = mxDel m" "mz ?m \<noteq> ZNull" "mz ?m = ZShort \<longleftrightarrow> mz m = ZShort"
    "mi ?m = mi m" "mr ?m = mr m" "menc ?m = desired"
    using place_okD(6) [OF p] by (cases "mz m"; simp add: e zmem_def)+
  have sh: "length (mzShort ?m) = NBFS"
    using bl(1) place_okD(6) [OF p] cell_okD(1) [OF assms(1)] by (cases "mz m") (simp_all add: e zmem_def)
  have pl: "place_ok ?m"
    using p z bl(1,2) unfolding place_ok_def Let_def by (simp add: n_def) blast
  have t: "text_ok desired (content ?m)"
    using z(1,2) bl(3) cs(1) assms(4) by (auto simp: text_ok_def content_def n_def)
  show ?thesis
    using cell_okD(2,6) [OF assms(1)] sh pl t assms(2) z(3,7-9) unfolding cell_ok_def Let_def by simp
qed

lemma release_read:
  "mflags (sqlite3VdbeMemRelease m) = mflags m" "mi (sqlite3VdbeMemRelease m) = mi m" "mr (sqlite3VdbeMemRelease m) = mr m"
  "mn (sqlite3VdbeMemRelease m) = mn m" "menc (sqlite3VdbeMemRelease m) = menc m" "mzShort (sqlite3VdbeMemRelease m) = mzShort m"
  "mxDel (sqlite3VdbeMemRelease m) \<longleftrightarrow> mxDel m \<and> \<not> bit (mflags m) 6 \<and> \<not> bit (mflags m) 10"
  by (simp_all add: sqlite3VdbeMemRelease_def cell_simps)

lemma translate_room:
  assumes "enc \<in> encs" "desired \<in> encs" "enc \<noteq> desired" "enc = SQLITE_UTF8 \<or> desired = SQLITE_UTF8"
  shows "length (encode desired cs) + (if enc = SQLITE_UTF8 then 2 else 1) \<le> translate_len desired (length (encode enc cs))"
proof -
  obtain k where k: "length (encode SQLITE_UTF16LE cs) = 2 * k" using length_growth(4) by (rule evenE)
  show ?thesis unfolding translate_len_def
    using assms length_growth(1,2) [of cs] k length_growth(3) [of cs] by auto
qed

lemma new_text_ok:
  assumes "cell_ok m" "bit (mflags m) 1" "list_all utf16_point cs" "desired \<in> encs"
    "mflags m' = (mflags m AND NOT (MEM_Static OR MEM_Dyn OR MEM_Ephem OR MEM_Short)) OR (MEM_Term OR f)" "f = MEM_Dyn \<or> f = MEM_Short"
    "mn m' = int (length (encode desired cs))" "\<not> mxDel m'" "menc m' = desired" "mi m' = mi m" "mr m' = mr m"
    "length (mzShort m') = NBFS" "mz m' = ZShort \<longleftrightarrow> f = MEM_Short" "mz m' \<noteq> ZNull" "zmem m' = encode desired cs @ 0 # w"
  shows "cell_ok m'"
proof -
  have lt: "bit (mflags m) k \<Longrightarrow> k < 16" for k using bit_imp_le_length [of "mflags m" k] by simp
  have b: "bit (mflags m') k \<longleftrightarrow> (bit (mflags m) k \<and> k \<notin> {6, 7, 8, 9}) \<or> k = 5 \<or> bit f k" for k
    using lt [of k] unfolding assms(5) by (simp add: bit_or_iff bit_and_iff bit_not_iff bit_flag) blast
  have ne: "MEM_Dyn \<noteq> MEM_Short" by (simp add: mem_flags)
  have f: "bit f 6 \<longleftrightarrow> f = MEM_Dyn" "bit f 9 \<longleftrightarrow> f = MEM_Short" "k \<notin> {6, 9} \<Longrightarrow> \<not> bit f k" for k
    using assms(6) ne by (elim disjE; simp add: bit_flag)+
  have f': "(f = MEM_Dyn) = (f \<noteq> MEM_Short)" using assms(6) ne by auto
  have pl: "place_ok m'"
    using assms(7,8,13-15) f' unfolding place_ok_def Let_def b f by (simp add: b f cat_append)
  have t: "text_ok desired (content m')"
    using assms(3,4,7,15) by (auto simp: text_ok_def content_def)
  show ?thesis
    using cell_okD(2,6) [OF assms(1)] pl t assms(2,9-12)
    unfolding cell_ok_def kinds_ok_def Let_def b by (simp add: f)
qed

lemma translate_ok:
  assumes "cell_ok m" "bit (mflags m) 1" "desired \<in> encs" "menc m \<noteq> desired"
  shows "cell_ok (fst (sqlite3VdbeMemTranslate ok desired m))"
proof (cases "menc m \<noteq> SQLITE_UTF8 \<and> desired \<noteq> SQLITE_UTF8")
  case True
  have "menc m \<in> encs" using cell_okD(5) [OF assms(1,2)] by (simp add: text_ok_def)
  then have e: "menc m \<in> {SQLITE_UTF16LE, SQLITE_UTF16BE}" "desired \<in> {SQLITE_UTF16LE, SQLITE_UTF16BE}" using True assms(3) by auto
  let ?w = "sqlite3VdbeMemMakeWriteable ok m"
  show ?thesis
  proof (cases "snd ?w = SQLITE_OK")
    case ok: True
    have "cell_ok ((swap_mem (fst ?w))\<lparr>menc := desired\<rparr>)"
      using writeable_read [OF assms(1,2) ok] e assms(4) by (intro swap_ok writeable_ok assms(1)) simp_all
    then show ?thesis using True ok by (simp add: sqlite3VdbeMemTranslate_def case_prod_beta)
  next
    case False
    then show ?thesis using True writeable_ok [OF assms(1), of ok] by (simp add: sqlite3VdbeMemTranslate_def case_prod_beta)
  qed
next
  case False
  have p: "place_ok m" using cell_okD(3) [OF assms(1)] assms(2) by simp
  obtain cs where cs: "list_all utf16_point cs" "content m = encode (menc m) cs" "menc m \<in> encs"
    using cell_okD(5) [OF assms(1,2)] by (auto simp: text_ok_def)
  have n: "nat (mn m) = length (encode (menc m) cs)" using copied_read(1) [OF p] cs(2) by simp
  have e: "menc m = SQLITE_UTF8 \<or> desired = SQLITE_UTF8" using False by blast
  have z: "zmem m = encode (menc m) cs @ drop (nat (mn m)) (zmem m)" using cs(2) unfolding content_def by (metis append_take_drop_id)
  have out: "translate_body (menc m) desired (zmem m) (nat (mn m)) = encode desired cs"
    unfolding n by (subst z) (rule translate_body_encode [OF cs(1,3) assms(3,4) e])
  let ?out = "encode desired cs"
  define zs :: bytes where "zs = (if menc m = SQLITE_UTF8 then [0, 0] else [0])"
  define len where "len = translate_len desired (nat (mn m))"
  have room: "length (?out @ zs) \<le> len" "zs = 0 # tl zs"
    using translate_room [OF cs(3) assms(3,4) e, of cs] unfolding len_def n by (auto simp: zs_def)
  define m1 where "m1 = clear_flags (MEM_Static OR MEM_Dyn OR MEM_Ephem OR MEM_Short) (sqlite3VdbeMemRelease (m\<lparr>mn := int (length ?out)\<rparr>))"
  have e': "sqlite3VdbeMemTranslate ok desired m =
      (if len > NBFS then
         (if \<not> ok then (m, SQLITE_NOMEM)
          else ((set_flags (MEM_Term OR MEM_Dyn) m1)\<lparr>menc := desired, mz := ZBuf (?out @ zs)\<rparr>, SQLITE_OK))
       else (put_short (take len (?out @ zs)) ((set_flags (MEM_Term OR MEM_Short) m1)\<lparr>menc := desired\<rparr>), SQLITE_OK))"
    unfolding sqlite3VdbeMemTranslate_def if_not_P [OF False] Let_def out len_def [symmetric] zs_def [symmetric] m1_def [symmetric] by (rule refl)
  have x: "mxDel m \<longrightarrow> bit (mflags m) 6" using place_okD(1) [OF p] by blast
  have r: "mflags m1 = mflags m AND NOT (MEM_Static OR MEM_Dyn OR MEM_Ephem OR MEM_Short)" "mn m1 = int (length ?out)"
      "\<not> mxDel m1" "mi m1 = mi m" "mr m1 = mr m" "length (mzShort m1) = NBFS"
    using x cell_okD(1) [OF assms(1)] by (simp_all add: m1_def release_read flags_read clear_flags_def)
  have tl: "take len (?out @ zs) = ?out @ zs" using room(1) by simp
  have w: "?out @ zs @ y = ?out @ 0 # (tl zs @ y)" for y using room(2) by (metis append_Cons)
  show ?thesis
  proof (cases "len > NBFS")
    case True
    have "cell_ok ((set_flags (MEM_Term OR MEM_Dyn) m1)\<lparr>menc := desired, mz := ZBuf (?out @ zs)\<rparr>)"
      by (rule new_text_ok [OF assms(1,2) cs(1) assms(3), of _ MEM_Dyn "tl zs"])
        (use r w [of "[]"] in \<open>simp_all add: flags_read zmem_def\<close>, simp_all add: set_flags_def r(1) mem_flags)
    then show ?thesis unfolding e' using True assms(1) by simp
  next
    case short: False
    then have l: "length (?out @ zs) \<le> NBFS" using room(1) by linarith
    have "cell_ok (put_short (?out @ zs) ((set_flags (MEM_Term OR MEM_Short) m1)\<lparr>menc := desired\<rparr>))"
      by (rule new_text_ok [OF assms(1,2) cs(1) assms(3), of _ MEM_Short "tl zs @ drop (length (?out @ zs)) (mzShort m1)"])
        (use r w l in \<open>simp_all add: flags_read short_read zmem_def\<close>, simp_all add: set_flags_def r(1) mem_flags)
    then show ?thesis unfolding e' tl using short by simp
  qed
qed

lemma encoding_ok:
  assumes "cell_ok m" "desired \<in> encs"
  shows "cell_ok (fst (sqlite3VdbeChangeEncoding ok desired m))"
  using translate_ok [OF assms(1) _ assms(2)] assms(1) by (auto simp: sqlite3VdbeChangeEncoding_def cell_simps)

subsection \<open>Conversions and setters\<close>

text \<open>A cell whose flags are set anew to a value that is no text or blob.\<close>

lemma plain_ok:
  assumes "cell_ok m" "f \<in> {MEM_Null, MEM_Int, MEM_Real}" "mflags m' = f" "mzShort m' = mzShort m" "\<not> mxDel m'"
  shows "cell_ok m'"
proof -
  have "length (mzShort m') = NBFS" using cell_okD(1) [OF assms(1)] assms(4) by simp
  then show ?thesis
    using assms(2,3,5) by (elim insertE emptyE) (simp_all add: cell_ok_def kinds_ok_def Let_def bit_flag)
qed

lemma upd_read:
  "zmem (m\<lparr>mi := i\<rparr>) = zmem m" "zmem (m\<lparr>mr := r\<rparr>) = zmem m" "content (m\<lparr>mi := i\<rparr>) = content m" "content (m\<lparr>mr := r\<rparr>) = content m"
  "zmem (set_flags x m) = zmem m" "content (set_flags x m) = content m"
  "zmem (clear_flags x m) = zmem m" "content (clear_flags x m) = content m"
  by (cases "mz m"; simp add: zmem_def content_def flags_read)+

lemma release_mxDel: "cell_ok m \<Longrightarrow> \<not> mxDel (sqlite3VdbeMemRelease m)"
  using cell_okD(3,4) [of m] place_okD(1) [of m] by (auto simp: release_read)

lemma set_ok:
  assumes "cell_ok m"
  shows "cell_ok (sqlite3VdbeMemSetNull m)" "cell_ok (sqlite3VdbeMemSetInt64 i m)" "cell_ok (sqlite3VdbeMemSetDouble r m)"
  unfolding sqlite3VdbeMemSetNull_def sqlite3VdbeMemSetInt64_def sqlite3VdbeMemSetDouble_def
  subgoal by (rule plain_ok [OF assms, of MEM_Null]) (simp_all add: release_read(1-6) release_mxDel [OF assms])
  subgoal by (rule plain_ok [OF assms, of MEM_Int]) (simp_all add: release_read(1-6) release_mxDel [OF assms])
  subgoal by (rule plain_ok [OF assms, of MEM_Real]) (simp_all add: release_read(1-6) release_mxDel [OF assms])
  done

lemma utf8_terminated_ok: "cell_ok m \<Longrightarrow> cell_ok (fst (utf8_terminated env m))"
  using encoding_ok [of m SQLITE_UTF8 "env 0"] terminate_ok [of "fst (sqlite3VdbeChangeEncoding (env 0) SQLITE_UTF8 m)" "env 1"]
  by (simp add: utf8_terminated_def case_prod_beta)

lemma value_ok:
  assumes "cell_ok m"
  shows "cell_ok (fst (sqlite3VdbeIntValue env m))" "cell_ok (fst (sqlite3VdbeRealValue atof env m))"
  using utf8_terminated_ok [OF assms] assms by (simp_all add: sqlite3VdbeIntValue_def sqlite3VdbeRealValue_def case_prod_beta)

lemma release_update: "sqlite3VdbeMemRelease (m\<lparr>mi := i\<rparr>) = (sqlite3VdbeMemRelease m)\<lparr>mi := i\<rparr>"
  "sqlite3VdbeMemRelease (m\<lparr>mr := r\<rparr>) = (sqlite3VdbeMemRelease m)\<lparr>mr := r\<rparr>"
  by (simp_all add: sqlite3VdbeMemRelease_def has_def)

lemma numeric_ok:
  assumes "cell_ok m"
  shows "cell_ok (sqlite3VdbeMemIntegerify env m)" "cell_ok (sqlite3VdbeMemRealify atof env m)"
  unfolding sqlite3VdbeMemIntegerify_def sqlite3VdbeMemRealify_def case_prod_beta release_update
  subgoal by (rule plain_ok [OF value_ok(1) [OF assms, of env], of MEM_Int]) (simp_all add: release_read(1-6) release_mxDel value_ok [OF assms])
  subgoal by (rule plain_ok [OF value_ok(2) [OF assms, of atof env], of MEM_Real]) (simp_all add: release_read(1-6) release_mxDel value_ok [OF assms])
  done

lemma realify_flags: "mflags (sqlite3VdbeMemRealify atof env m) = MEM_Real"
  by (simp add: sqlite3VdbeMemRealify_def case_prod_beta)

lemma place_upd: "place_ok (m\<lparr>mi := i\<rparr>) \<longleftrightarrow> place_ok m" "place_ok (set_flags MEM_Int m) \<longleftrightarrow> place_ok m"
  by (simp_all add: place_ok_def Let_def upd_read cell_simps)

lemma integer_affinity_ok:
  assumes "cell_ok m" "bit (mflags m) 3"
  shows "cell_ok (sqlite3VdbeIntegerAffinity m)"
proof -
  let ?m = "m\<lparr>mi := i64_of_d (mr m)\<rparr>"
  have c: "bit (mflags m) 2 \<Longrightarrow> ?m = m" using cell_okD(6) [OF assms(1)] assms(2) by simp
  have 1: "cell_ok ?m" if "\<not> bit (mflags m) 2"
    using assms(1) that by (simp add: cell_ok_def Let_def place_upd upd_read)
  have 2: "cell_ok (set_flags MEM_Int ?m)" if "d_eq (d_of_i64 (mi ?m)) (mr m)"
  proof (cases "bit (mflags m) 2")
    case True
    have "bit (mflags (set_flags MEM_Int ?m)) k \<longleftrightarrow> bit (mflags m) k" for k using True by (auto simp: cell_simps)
    then have "mflags (set_flags MEM_Int ?m) = mflags m" by (intro bit_word_eqI) simp
    then have "set_flags MEM_Int ?m = m" using c [OF True] by (simp add: set_flags_def)
    then show ?thesis using assms(1) by simp
  next
    case False
    have "d_eq (mr m) (d_of_i64 (mi ?m))" using that by (simp add: d_eq_def)
    then show ?thesis
      using 1 [OF False] assms(2) by (simp add: cell_ok_def kinds_ok_def Let_def place_upd upd_read cell_simps split: if_splits)
  qed
  show ?thesis
    using 1 2 c assms(1) by (cases "bit (mflags m) 2") (auto simp: sqlite3VdbeIntegerAffinity_def Let_def)
qed

lemma numerify_ok: "cell_ok m \<Longrightarrow> cell_ok (sqlite3VdbeMemNumerify atof env m)"
  unfolding sqlite3VdbeMemNumerify_def
  by (intro integer_affinity_ok numeric_ok(2)) (simp_all add: realify_flags bit_flag)

subsection \<open>Texts of numbers\<close>

definition ascii :: "bytes \<Rightarrow> bool" where
  "ascii z \<longleftrightarrow> list_all (\<lambda>c. 0 < c \<and> c < 128) z"

lemma ascii_text: "ascii z \<Longrightarrow> text_ok SQLITE_UTF8 z"
proof -
  assume a: "ascii z"
  have "WRITE_UTF8 (uint c) = [c]" if "0 < c" "c < 128" for c :: u8
    using that by (simp add: WRITE_UTF8_def word_less_def and_masks)
  then have "encode SQLITE_UTF8 (map uint z) = z"
    using a unfolding ascii_def by (induction z) (simp_all add: encode_def)
  moreover have "list_all utf16_point (map uint z)"
    using a by (auto simp: ascii_def list_all_iff utf16_point_def code_point_def word_less_def)
  ultimately show ?thesis unfolding text_ok_def by (intro conjI exI [of _ "map uint z"]) simp_all
qed

lemma digits_ascii: "ascii (digits10 n)"
proof (induction n rule: digits10.induct)
  case (1 n)
  have "(of_nat (48 + n mod 10) :: u8) < 128 \<and> 0 < (of_nat (48 + n mod 10) :: u8)"
  proof -
    have "48 + n mod 10 < 58" by simp
    then have "unat (of_nat (48 + n mod 10) :: u8) = 48 + n mod 10" by (simp only: unat_of_nat) (simp add: take_bit_nat_eq_self)
    then show ?thesis using \<open>48 + n mod 10 < 58\<close> unfolding word_less_nat_alt by simp
  qed
  then show ?case using 1 by (subst digits10.simps) (simp add: ascii_def)
qed

lemma digits_length: "n < 10 ^ k \<Longrightarrow> 0 < k \<Longrightarrow> length (digits10 n) \<le> k"
proof (induction n arbitrary: k rule: digits10.induct)
  case (1 n)
  show ?case
  proof (cases "n < 10")
    case True
    then show ?thesis using 1(3) by (subst digits10.simps) simp
  next
    case False
    then obtain j where j: "k = Suc j" "0 < j" using 1(2,3) by (cases k; cases "k = 1") auto
    have "n div 10 < 10 ^ j" using 1(2) j by (simp add: less_mult_imp_div_less mult.commute)
    then have "length (digits10 (n div 10)) \<le> j" using 1(1) [OF False] j by simp
    then show ?thesis using j False by (subst digits10.simps) simp
  qed
qed

lemma itext_ok: "ascii (itext i)" "length (itext i) < NBFS"
proof -
  have "- (2 ^ 63) \<le> sint i" "sint i < 2 ^ 63" using sint_greater_eq [of i] sint_less [of i] by simp_all
  then have "nat \<bar>sint i\<bar> < 10 ^ 20" by simp
  then have "length (digits10 (nat \<bar>sint i\<bar>)) \<le> 20" by (rule digits_length) simp
  then show "length (itext i) < NBFS" by (auto simp: itext_def simp del: zabs_def abs_if)
  show "ascii (itext i)" using digits_ascii [of "nat \<bar>sint i\<bar>"] by (simp add: itext_def ascii_def)
qed

lemma stringify_ok:
  assumes "cell_ok m" "\<not> bit (mflags m) 1" "\<not> bit (mflags m) 4" "bit (mflags m) 2 \<or> bit (mflags m) 3" "enc \<in> encs"
    "\<And>r. ascii (dtext r)"
  shows "cell_ok (fst (sqlite3VdbeMemStringify dtext ok enc m))"
proof -
  define z where "z = (if has m MEM_Int then itext (mi m) else take (NBFS - 1) (dtext (mr m)))"
  have z: "ascii z" "length z < NBFS"
    using itext_ok [of "mi m"] assms(6) [of "mr m"] by (auto simp: z_def ascii_def list_all_iff dest: in_set_takeD)
  define m2 where "m2 = set_flags (MEM_Str OR MEM_Short OR MEM_Term) ((put_short (z @ [0]) m)\<lparr>mn := int (length z), menc := SQLITE_UTF8\<rparr>)"
  have c: "content m2 = z" by (simp add: content_def m2_def flags_read zmem_def put_short_def)
  have zm: "zmem m2 = z @ 0 # drop (length z + 1) (mzShort m)" by (simp add: m2_def flags_read zmem_def put_short_def)
  have "cell_ok m2"
    unfolding cell_ok_def Let_def c
    using cell_okD [OF assms(1)] assms(2-4) z ascii_text [OF z(1)]
    by (simp add: m2_def cell_simps kinds_ok_def place_ok_def Let_def zm [unfolded m2_def] cat_append) blast
  then show ?thesis
    using encoding_ok [OF _ assms(5)] unfolding sqlite3VdbeMemStringify_def Let_def z_def [symmetric] m2_def [symmetric] by simp
qed

subsection \<open>Affinity\<close>

lemma numeric_affinity_ok:
  assumes "cell_ok m"
  shows "cell_ok (applyNumericAffinity atof env m)"
proof -
  define m1 where "m1 = fst (sqlite3VdbeMemNulTerminate (env 0) m)"
  define m2 where "m2 = fst (sqlite3VdbeChangeEncoding (env 1) SQLITE_UTF8 m1)"
  have 1: "cell_ok m1" and 2: "cell_ok m2"
    using terminate_ok [OF assms] encoding_ok [of m1 SQLITE_UTF8] by (simp_all add: m1_def m2_def)
  have "cell_ok ((sqlite3VdbeMemRelease m2)\<lparr>mi := v, mflags := MEM_Int\<rparr>)" for v
    using release_mxDel [OF 2] by (intro plain_ok [OF 2, where f = MEM_Int]) (simp_all add: release_read(1-6))
  then show ?thesis
    using assms 1 numeric_ok(2) [OF 2, of atof "\<lambda>i. env (i + 2)"]
    unfolding applyNumericAffinity_def m1_def [symmetric] m2_def [symmetric] Let_def by (simp add: case_prod_beta m2_def)
qed

lemma numeric_affinity_real:
  assumes "has (applyNumericAffinity atof env m) MEM_Real"
  shows "bit (mflags (applyNumericAffinity atof env m)) 3"
  using assms by (simp add: cell_simps)

text \<open>The conversions that \<open>applyAffinity\<close> makes for a column of type text.\<close>

lemma text_kept:
  assumes "cell_ok m" "\<not> bit (mflags m) 1 \<Longrightarrow> \<not> bit (mflags m) 2 \<and> \<not> bit (mflags m) 3"
  shows "cell_ok (clear_flags (MEM_Real OR MEM_Int) m)"
proof -
  have p: "place_ok (clear_flags (MEM_Real OR MEM_Int) m) \<longleftrightarrow> place_ok m"
    by (simp add: place_ok_def Let_def upd_read cell_simps)
  show ?thesis
    using assms unfolding cell_ok_def Let_def p upd_read flags_read bit_set
    by (simp add: cell_simps kinds_ok_def split: if_splits) blast+
qed

lemma stringify_flags:
  assumes "\<not> bit (mflags m) 1"
  shows "bit (mflags (fst (sqlite3VdbeMemStringify dtext ok enc m))) 1"
proof -
  have "bit (mflags (fst (sqlite3VdbeChangeEncoding ok enc m'))) 1" if "bit (mflags m') 1" "menc m' = SQLITE_UTF8" for m'
    using that by (auto simp: sqlite3VdbeChangeEncoding_def sqlite3VdbeMemTranslate_def Let_def cell_simps release_read)
  then show ?thesis unfolding sqlite3VdbeMemStringify_def Let_def by (simp add: cell_simps)
qed

lemma affinity_ok:
  assumes "cell_ok m" "enc \<in> encs" "\<And>r. ascii (dtext r)"
  shows "cell_ok (applyAffinity dtext atof env affinity enc m)"
proof -
  have t: "cell_ok (clear_flags (MEM_Real OR MEM_Int)
      (if \<not> has m MEM_Str \<and> has m (MEM_Real OR MEM_Int) then fst (sqlite3VdbeMemStringify dtext (env 0) enc m) else m))"
  proof (cases "\<not> has m MEM_Str \<and> has m (MEM_Real OR MEM_Int)")
    case True
    then have f: "\<not> bit (mflags m) 1" "bit (mflags m) 2 \<or> bit (mflags m) 3" by (auto simp: cell_simps)
    then have "\<not> bit (mflags m) 4" using cell_okD(2) [OF assms(1)] by (auto simp: kinds_ok_def)
    then have "cell_ok (fst (sqlite3VdbeMemStringify dtext (env 0) enc m))"
      by (intro stringify_ok [OF assms(1) f(1) _ f(2) assms(2,3)])
    then show ?thesis unfolding if_P [OF True] by (rule text_kept) (use stringify_flags [OF f(1)] in blast)
  next
    case False
    then show ?thesis unfolding if_not_P [OF False] by (intro text_kept [OF assms(1)]) (auto simp: cell_simps)
  qed
  have n: "cell_ok (let m1 = applyNumericAffinity atof env m in if has m1 MEM_Real then sqlite3VdbeIntegerAffinity m1 else m1)"
    using integer_affinity_ok [OF numeric_affinity_ok [OF assms(1)] numeric_affinity_real] numeric_affinity_ok [OF assms(1)]
    by (simp add: Let_def)
  show ?thesis using t n assms(1) unfolding applyAffinity_def by simp
qed

subsection \<open>Copies\<close>

lemma copy_ephem_ok: "cell_ok m \<Longrightarrow> cell_ok (fst (copy_ephem ok m))"
  using writeable_ok by (simp add: copy_ephem_def)

lemma shallow_ok:
  assumes "cell_ok pTo" "cell_ok pFrom"
  shows "cell_ok (sqlite3VdbeMemShallowCopy MEM_Ephem pTo pFrom)"
proof -
  define m where "m = pFrom\<lparr>mzShort := mzShort pTo, mxDel := False, mz := (if mz pFrom = ZShort then ZBuf (mzShort pFrom) else mz pFrom)\<rparr>"
  have z: "zmem m = zmem pFrom" "content m = content pFrom" "mz m \<noteq> ZShort"
    by (cases "mz pFrom"; simp add: m_def zmem_def content_def)+
  have r: "mflags m = mflags pFrom" "mn m = mn pFrom" "mi m = mi pFrom" "mr m = mr pFrom" "menc m = menc pFrom" "\<not> mxDel m"
    "length (mzShort m) = NBFS" "mz m = ZNull \<longleftrightarrow> mz pFrom = ZNull" using cell_okD(1) [OF assms(1)] by (simp_all add: m_def)
  note k = cell_okD [OF assms(2)]
  let ?m = "set_flags MEM_Ephem (clear_flags (MEM_Dyn OR MEM_Static OR MEM_Short OR MEM_Ephem) m)"
  show ?thesis
  proof (cases "bit (mflags pFrom) 1 \<or> bit (mflags pFrom) 4")
    case True
    have p: "place_ok pFrom" by (rule k(3) [OF True])
    have "place_ok ?m"
      using place_okD [OF p] z(1,3) r unfolding place_ok_def Let_def by (simp add: cell_simps upd_read)
    then have "cell_ok ?m"
      by (rule moved_ok [OF assms(2)]) (use k(2) z r True in \<open>simp_all add: cell_simps upd_read kinds_ok_def\<close>)
    then show ?thesis using True r(1)
      unfolding sqlite3VdbeMemShallowCopy_def Let_def m_def [symmetric] by (simp add: cell_simps)
  next
    case False
    have "cell_ok m" using k(1,2,4,6) r False unfolding cell_ok_def Let_def by simp
    then show ?thesis using False r(1)
      unfolding sqlite3VdbeMemShallowCopy_def Let_def m_def [symmetric] by (simp add: cell_simps)
  qed
qed

lemma shallow_release: "sqlite3VdbeMemShallowCopy t (sqlite3VdbeMemRelease a) b = sqlite3VdbeMemShallowCopy t a b"
  by (simp add: sqlite3VdbeMemShallowCopy_def release_read)

lemma copy_ok:
  assumes "cell_ok pTo" "cell_ok pFrom"
  shows "cell_ok (fst (sqlite3VdbeMemCopy ok pTo pFrom))"
  using shallow_ok [OF assms] writeable_ok [OF shallow_ok [OF assms]]
  by (simp add: sqlite3VdbeMemCopy_def Let_def shallow_release)

lemma move_ok:
  assumes "cell_ok pTo" "cell_ok pFrom" "sqlite3VdbeMemMove ok pTo pFrom = (a, b, r)"
  shows "cell_ok a" "cell_ok b"
proof -
  have s: "has pFrom MEM_Short \<Longrightarrow> pFrom\<lparr>mz := ZShort\<rparr> = pFrom"
    using located(1) [OF assms(2)] place_okD(5) [of pFrom] by (simp add: cell_simps)
  show "cell_ok a"
    using assms(3) writeable_ok [OF assms(2), of ok] assms(2) s
    by (auto simp: sqlite3VdbeMemMove_def Let_def case_prod_beta split: if_splits)
  have b: "b = pFrom\<lparr>mflags := MEM_Null, mxDel := False\<rparr>"
    using assms(3) by (auto simp: sqlite3VdbeMemMove_def Let_def case_prod_beta)
  show "cell_ok b" unfolding b by (rule plain_ok [OF assms(2), of MEM_Null]) simp_all
qed

subsection \<open>Strings from outside\<close>

text \<open>
  What a caller of \<^verbatim>\<open>sqlite3VdbeMemSetStr\<close> promises: the bytes are there, a text is well-formed in
  its encoding, and a UTF-16 text has no byte-order mark left.
\<close>

definition text_length :: "bytes \<Rightarrow> int \<Rightarrow> u8 \<Rightarrow> int" where
  "text_length z n enc = (if n \<ge> 0 then n else if enc = SQLITE_UTF8 then int (length (str_of z)) else utf16_length z)"

definition value_ok_in :: "bytes \<Rightarrow> int \<Rightarrow> u8 \<Rightarrow> bool" where
  "value_ok_in z n enc \<longleftrightarrow>
     (let k = text_length z n enc in 0 \<le> k \<and> k \<le> int (length z) \<and>
      (if enc = 0 then 0 \<le> n else text_ok enc (take (nat k) z)) \<and>
      (n < 0 \<longrightarrow> cat z (nat k) = 0) \<and> (enc \<in> {SQLITE_UTF16LE, SQLITE_UTF16BE} \<longrightarrow> bom_of z k = 0))"

lemma dest_ok:
  assumes "length (mzShort m) = NBFS" "\<not> mxDel m" "mz m = ZBuf z" "0 \<le> k" "k \<le> int (length z)"
    "mflags m' = mflags (set_dest x m) OR f" "mz m' = mz m" "mxDel m' = mxDel (set_dest x m)" "mzShort m' = mzShort m" "mn m' = k"
    "f = MEM_Blob \<or> f = MEM_Str \<and> text_ok (menc m') (take (nat k) z) \<or>
     f = MEM_Str OR MEM_Term \<and> text_ok (menc m') (take (nat k) z) \<and> cat z (nat k) = 0"
  shows "cell_ok m'"
proof -
  have z: "zmem m' = z" "content m' = take (nat k) z" using assms(3,7,10) by (simp_all add: zmem_def content_def)
  have x: "mflags (set_dest x m) = (case x of XStatic \<Rightarrow> MEM_Static | XTransient \<Rightarrow> MEM_Ephem | XDel \<Rightarrow> MEM_Dyn)"
    "mxDel m' \<longleftrightarrow> x = XDel" using assms(2,8) by (cases x; simp add: set_dest_def)+
  show ?thesis
    using assms(1,3-5,7,9-11) x(2) unfolding cell_ok_def kinds_ok_def place_ok_def Let_def assms(6) x(1) z
    by (cases x; elim disjE conjE) (simp_all add: bit_or_iff bit_flag)
qed

lemma SetStr_16_plain:
  "bom_of z n = 0 \<Longrightarrow> SetStr_16 ok z n t enc x m =
     copy_ephem ok (set_flags (MEM_Str OR t) ((set_dest x (m\<lparr>mz := ZBuf z\<rparr>))\<lparr>menc := enc, mtype := SQLITE_TEXT, mn := n\<rparr>))"
  by (subst SetStr_16.simps) (simp add: Let_def)

lemma setstr_ok:
  assumes "cell_ok m" "\<And>z. s = Some z \<Longrightarrow> value_ok_in z n enc"
  shows "cell_ok (fst (sqlite3VdbeMemSetStr ok s n enc x m))"
proof (cases s)
  case None
  then show ?thesis
    using plain_ok [OF assms(1), of MEM_Null "(sqlite3VdbeMemRelease m)\<lparr>mflags := MEM_Null, mtype := SQLITE_NULL\<rparr>"]
    by (simp add: sqlite3VdbeMemSetStr_def release_read(1-6) release_mxDel [OF assms(1)])
next
  case (Some z)
  define k where "k = text_length z n enc"
  have v: "0 \<le> k" "k \<le> int (length z)" "if enc = 0 then 0 \<le> n else text_ok enc (take (nat k) z)"
    "n < 0 \<Longrightarrow> cat z (nat k) = 0" "enc \<in> {SQLITE_UTF16LE, SQLITE_UTF16BE} \<Longrightarrow> bom_of z k = 0"
    using assms(2) [OF Some] unfolding value_ok_in_def Let_def k_def by (simp_all split: if_splits)
  define r where "r = (sqlite3VdbeMemRelease m)\<lparr>mz := ZBuf z\<rparr>"
  have r: "length (mzShort r) = NBFS" "\<not> mxDel r" "mz r = ZBuf z"
    using cell_okD(1) [OF assms(1)] release_mxDel [OF assms(1)] by (simp_all add: r_def release_read(1-6))
  note d = dest_ok [OF r v(1,2)]
  have sd: "mz (set_dest x r) = mz r" "mzShort (set_dest x r) = mzShort r" by (cases x; simp add: set_dest_def)+
  have ft: "mflags (set_flags f m) = mflags m OR f" for f m by (simp add: set_flags_def)
  show ?thesis
  proof (cases "enc = 0")
    case True
    then have "k = n" using v(3) by (simp add: k_def text_length_def)
    then have "cell_ok (set_flags MEM_Blob ((set_dest x r)\<lparr>menc := SQLITE_UTF8, mtype := SQLITE_BLOB, mn := n\<rparr>))"
      by (intro d [of _ x MEM_Blob]) (simp_all add: ft flags_read sd)
    then show ?thesis using True Some copy_ephem_ok unfolding sqlite3VdbeMemSetStr_def Let_def by (simp add: r_def)
  next
    case False
    then have t: "text_ok enc (take (nat k) z)" using v(3) by simp
    define m1 where "m1 = (\<lambda>t. set_flags (MEM_Str OR t) ((set_dest x r)\<lparr>menc := enc, mtype := SQLITE_TEXT, mn := k\<rparr>))"
    have 0: "cell_ok (m1 0)" unfolding m1_def by (rule d [of _ x MEM_Str]) (simp_all add: ft flags_read sd t)
    have 1: "cell_ok (m1 MEM_Term)" if "n < 0"
      unfolding m1_def by (rule d [of _ x "MEM_Str OR MEM_Term"]) (simp_all add: ft flags_read sd t v(4) that)
    show ?thesis
    proof (cases "enc = SQLITE_UTF8")
      case True
      have "set_flags MEM_Term ((set_flags MEM_Str ((set_dest x r)\<lparr>menc := enc, mtype := SQLITE_TEXT, mn := n\<rparr>))\<lparr>mn := k\<rparr>) = m1 MEM_Term"
        by (simp add: m1_def set_flags_def or.assoc)
      moreover have "set_flags MEM_Str ((set_dest x r)\<lparr>menc := enc, mtype := SQLITE_TEXT, mn := n\<rparr>) = m1 0" if "\<not> n < 0"
        using that by (simp add: m1_def k_def text_length_def)
      moreover have "k = int (length (str_of z))" if "n < 0" using that True by (simp add: k_def text_length_def)
      ultimately show ?thesis using True Some copy_ephem_ok [OF 0, of ok] copy_ephem_ok [OF 1, of ok]
        unfolding sqlite3VdbeMemSetStr_def Let_def r_def [symmetric] by (cases "n < 0") (simp_all add: r_def)
    next
      case u16: False
      have e: "enc \<in> {SQLITE_UTF16LE, SQLITE_UTF16BE}" using t False u16 by (auto simp: text_ok_def)
      have "SetStr_16 ok z k t' enc x (sqlite3VdbeMemRelease m) = copy_ephem ok (m1 t')" for t'
        unfolding SetStr_16_plain [OF v(5) [OF e]] m1_def r_def by (rule refl)
      moreover have "utf16_length z = k" if "n < 0" using that u16 by (simp add: k_def text_length_def)
      moreover have "n = k" if "\<not> n < 0" using that by (simp add: k_def text_length_def)
      ultimately show ?thesis using False u16 Some copy_ephem_ok [OF 0, of ok] copy_ephem_ok [OF 1, of ok]
        unfolding sqlite3VdbeMemSetStr_def Let_def by auto
    qed
  qed
qed

subsection \<open>Reachable cells\<close>

inductive mem_reach :: "(u64 \<Rightarrow> bytes) \<Rightarrow> (bytes \<Rightarrow> u64) \<Rightarrow> Mem \<Rightarrow> bool" for dtext atof where
  new: "sqlite3ValueNew True = Some m \<Longrightarrow> mem_reach dtext atof m"
| set_null: "mem_reach dtext atof m \<Longrightarrow> mem_reach dtext atof (sqlite3VdbeMemSetNull m)"
| set_int: "mem_reach dtext atof m \<Longrightarrow> mem_reach dtext atof (sqlite3VdbeMemSetInt64 i m)"
| set_double: "mem_reach dtext atof m \<Longrightarrow> mem_reach dtext atof (sqlite3VdbeMemSetDouble r m)"
| set_str: "mem_reach dtext atof m \<Longrightarrow> (\<And>z. s = Some z \<Longrightarrow> value_ok_in z n enc) \<Longrightarrow>
    mem_reach dtext atof (fst (sqlite3VdbeMemSetStr ok s n enc x m))"
| writeable: "mem_reach dtext atof m \<Longrightarrow> mem_reach dtext atof (fst (sqlite3VdbeMemMakeWriteable ok m))"
| dynamicify: "mem_reach dtext atof m \<Longrightarrow> mem_reach dtext atof (fst (sqlite3VdbeMemDynamicify ok m))"
| terminated: "mem_reach dtext atof m \<Longrightarrow> mem_reach dtext atof (fst (sqlite3VdbeMemNulTerminate ok m))"
| encoding: "mem_reach dtext atof m \<Longrightarrow> enc \<in> encs \<Longrightarrow> mem_reach dtext atof (fst (sqlite3VdbeChangeEncoding ok enc m))"
| stringify: "mem_reach dtext atof m \<Longrightarrow> enc \<in> encs \<Longrightarrow> \<not> has m (MEM_Str OR MEM_Blob) \<Longrightarrow> has m (MEM_Int OR MEM_Real) \<Longrightarrow>
    mem_reach dtext atof (fst (sqlite3VdbeMemStringify dtext ok enc m))"
| int_value: "mem_reach dtext atof m \<Longrightarrow> mem_reach dtext atof (fst (sqlite3VdbeIntValue env m))"
| real_value: "mem_reach dtext atof m \<Longrightarrow> mem_reach dtext atof (fst (sqlite3VdbeRealValue atof env m))"
| integerify: "mem_reach dtext atof m \<Longrightarrow> mem_reach dtext atof (sqlite3VdbeMemIntegerify env m)"
| realify: "mem_reach dtext atof m \<Longrightarrow> mem_reach dtext atof (sqlite3VdbeMemRealify atof env m)"
| numerify: "mem_reach dtext atof m \<Longrightarrow> mem_reach dtext atof (sqlite3VdbeMemNumerify atof env m)"
| affinity: "mem_reach dtext atof m \<Longrightarrow> enc \<in> encs \<Longrightarrow> mem_reach dtext atof (applyAffinity dtext atof env aff enc m)"
| copy: "mem_reach dtext atof m \<Longrightarrow> mem_reach dtext atof m' \<Longrightarrow> mem_reach dtext atof (fst (sqlite3VdbeMemCopy ok m m'))"
| move: "mem_reach dtext atof m \<Longrightarrow> mem_reach dtext atof m' \<Longrightarrow> sqlite3VdbeMemMove ok m m' = (a, b, r) \<Longrightarrow>
    c = a \<or> c = b \<Longrightarrow> mem_reach dtext atof c"

lemma reach_ok:
  assumes "mem_reach dtext atof m" "\<And>r. ascii (dtext r)"
  shows "cell_ok m"
  using assms(1)
proof (induction rule: mem_reach.induct)
  case (new m)
  then show ?case by (auto simp: sqlite3ValueNew_def cell_ok_def kinds_ok_def Let_def bit_flag)
next
  case (stringify m enc ok)
  then show ?case by (intro stringify_ok assms(2)) (auto simp: cell_simps)
next
  case (move m m' ok a b r c)
  then show ?case using move_ok [of m m' ok a b r] by blast
qed (auto intro: set_ok setstr_ok writeable_ok dynamicify_ok terminate_ok encoding_ok value_ok numeric_ok numerify_ok
      affinity_ok [OF _ _ assms(2)] copy_ok simp del: insert_iff)



end
