(* ===== verification/RecordFormat.thy ===== *)
theory RecordFormat
  imports Mem Varint
begin

text \<open>
  The record format, \<^verbatim>\<open>vdbeaux.c\<close> and the opcode \<^verbatim>\<open>OP_MakeRecord\<close> of \<^verbatim>\<open>vdbe.c\<close>: a header
  of variable-length integers, its length and the serial types of the fields, and then the
  values. A record in memory is the list of its bytes; a byte behind the end of the list is
  read as zero.
\<close>

subsection \<open>Serial types\<close>

definition sqlite3VdbeSerialType :: "Mem \<Rightarrow> int \<Rightarrow> u32" where
  "sqlite3VdbeSerialType m file_format =
     (if has m MEM_Null then 0
      else if has m MEM_Int then
        (let i = mi m; u = (if sint i < 0 then - i else i)
         in if file_format \<ge> 4 \<and> i AND 1 = i then 8 + ucast i
            else if u \<le> 127 then 1
            else if u \<le> 32767 then 2
            else if u \<le> 8388607 then 3
            else if u \<le> 2147483647 then 4
            else if u \<le> 0x100000000000 - 1 then 5
            else 6)
      else if has m MEM_Real then 7
      else if has m MEM_Str then of_int (mn m * 2 + 13)
      else if has m MEM_Blob then of_int (mn m * 2 + 12)
      else 0)"

definition aSize :: "nat list" where
  "aSize = [0, 1, 2, 3, 4, 6, 8, 8, 0, 0, 0, 0]"

definition sqlite3VdbeSerialTypeLen :: "u32 \<Rightarrow> nat" where
  "sqlite3VdbeSerialTypeLen serial_type =
     (if serial_type \<ge> 12 then unat ((serial_type - 12) div 2) else aSize ! unat serial_type)"

text \<open>The low bytes of a value, written from the last to the first.\<close>

fun put_be :: "nat \<Rightarrow> u64 \<Rightarrow> bytes" where
  "put_be 0 v = []"
| "put_be (Suc i) v = put_be i (shr v 8) @ [ucast (v AND 0xFF)]"

text \<open>The bytes written.\<close>

definition sqlite3VdbeSerialPut :: "Mem \<Rightarrow> int \<Rightarrow> bytes" where
  "sqlite3VdbeSerialPut m file_format =
     (let serial_type = sqlite3VdbeSerialType m file_format; len = sqlite3VdbeSerialTypeLen serial_type
      in if serial_type \<le> 7 \<and> serial_type > 0 then put_be len (if serial_type = 7 then mr m else mi m)
         else if serial_type \<ge> 12 then take len (zmem m)
         else [])"

text \<open>The C expressions on bytes: an unsigned byte, a signed byte, and the 32-bit combination of
  four bytes, which is signed when it is widened.\<close>

definition be32 :: "u8 \<Rightarrow> u8 \<Rightarrow> u8 \<Rightarrow> u8 \<Rightarrow> u32" where
  "be32 a b c d = shl (ucast a) 24 OR shl (ucast b) 16 OR shl (ucast c) 8 OR ucast d"

definition sqlite3VdbeSerialGet :: "bytes \<Rightarrow> u32 \<Rightarrow> Mem \<Rightarrow> Mem \<times> nat" where
  "sqlite3VdbeSerialGet buf t m =
     (let b = cat buf; int_cell = (\<lambda>i m. m\<lparr>mi := i, mflags := MEM_Int\<rparr>) in
      if t = 10 \<or> t = 11 \<or> t = 0 then (m\<lparr>mflags := MEM_Null\<rparr>, 0)
      else if t = 1 then (int_cell (scast (b 0)) m, 1)
      else if t = 2 then (int_cell (scast (shl (scast (b 0)) 8 OR ucast (b 1) :: u32)) m, 2)
      else if t = 3 then (int_cell (scast (shl (scast (b 0)) 16 OR shl (ucast (b 1)) 8 OR ucast (b 2) :: u32)) m, 3)
      else if t = 4 then (int_cell (scast (be32 (b 0) (b 1) (b 2) (b 3))) m, 4)
      else if t = 5 then
        (let x = scast (shl (scast (b 0)) 8 OR ucast (b 1) :: u32); y = be32 (b 2) (b 3) (b 4) (b 5)
         in (int_cell (shl x 32 OR ucast y) m, 6))
      else if t = 6 \<or> t = 7 then
        (let x = scast (be32 (b 0) (b 1) (b 2) (b 3)); y = be32 (b 4) (b 5) (b 6) (b 7); v = shl x 32 OR ucast y
         in if t = 6 then (int_cell v m, 8) else (m\<lparr>mr := v, mflags := MEM_Real\<rparr>, 8))
      else if t = 8 \<or> t = 9 then (int_cell (ucast (t - 8)) m, 0)
      else
        (let len = unat ((t - 12) div 2)
         in (m\<lparr>mz := ZBuf buf, mn := int len, mxDel := False,
               mflags := (if t AND 0x01 \<noteq> 0 then MEM_Str else MEM_Blob) OR MEM_Ephem\<rparr>, len)))"

subsection \<open>Making a record\<close>

text \<open>The bytes \<^verbatim>\<open>sqlite3PutVarint\<close> writes, as a list.\<close>

definition varint_bytes :: "u64 \<Rightarrow> bytes" where
  "varint_bytes v = map (snd (sqlite3PutVarint (\<lambda>_. 0) v)) [0..<fst (sqlite3PutVarint (\<lambda>_. 0) v)]"

text \<open>
  The cells of the stack from the lowest on, and the affinity of each. The result has the cells
  with their affinities applied, whether one of them is NULL, and the record.
\<close>

definition affinities :: "(u64 \<Rightarrow> bytes) \<Rightarrow> (bytes \<Rightarrow> u64) \<Rightarrow> (nat \<Rightarrow> nat \<Rightarrow> bool) \<Rightarrow> u8 \<Rightarrow> bytes option \<Rightarrow> Mem list \<Rightarrow> Mem list" where
  "affinities dtext atof env enc zAffinity data =
     (case zAffinity of None \<Rightarrow> data
      | Some a \<Rightarrow> map (\<lambda>(i, m). applyAffinity dtext atof (env i) (cat a i) enc m) (zip [0..<length data] data))"

definition record_sizes :: "int \<Rightarrow> Mem list \<Rightarrow> nat \<times> nat" where
  "record_sizes file_format data =
     (sum_list (map (\<lambda>m. sqlite3VdbeSerialTypeLen (sqlite3VdbeSerialType m file_format)) data),
      sum_list (map (\<lambda>m. sqlite3VarintLen (ucast (sqlite3VdbeSerialType m file_format))) data))"

text \<open>The length of the header with the length field itself.\<close>

definition header_size :: "nat \<Rightarrow> nat" where
  "header_size n =
     (let nVarint = sqlite3VarintLen (of_nat n); nHdr = n + nVarint
      in if nVarint < sqlite3VarintLen (of_nat nHdr) then nHdr + 1 else nHdr)"

text \<open>The bytes written, the rowid of an index record last and always in the old format.\<close>

definition record_bytes :: "int \<Rightarrow> Mem list \<Rightarrow> Mem option \<Rightarrow> bytes" where
  "record_bytes file_format data pRowid =
     (let n = snd (record_sizes file_format data) +
            (case pRowid of Some r \<Rightarrow> sqlite3VarintLen (ucast (sqlite3VdbeSerialType r 0)) | None \<Rightarrow> 0)
      in varint_bytes (of_nat (header_size n)) @
         concat (map (\<lambda>m. varint_bytes (ucast (sqlite3VdbeSerialType m file_format))) data) @
         (case pRowid of Some r \<Rightarrow> varint_bytes (ucast (sqlite3VdbeSerialType r 0)) | None \<Rightarrow> []) @
         concat (map (\<lambda>m. sqlite3VdbeSerialPut m file_format) data) @
         (case pRowid of Some r \<Rightarrow> sqlite3VdbeSerialPut r 0 | None \<Rightarrow> []))"

text \<open>The cell pushed for the record: a small record goes to the buffer of the cell.\<close>

definition record_cell :: "bytes \<Rightarrow> Mem \<Rightarrow> Mem" where
  "record_cell z m =
     (if length z \<le> NBFS then (put_short z (m\<lparr>mn := int (length z)\<rparr>))\<lparr>mflags := MEM_Blob OR MEM_Short\<rparr>
      else m\<lparr>mn := int (length z), mz := ZBuf z, mflags := MEM_Blob OR MEM_Dyn, mxDel := False\<rparr>)"

text \<open>
  The opcodes \<^verbatim>\<open>OP_MakeRecord\<close> and \<^verbatim>\<open>OP_MakeIdxRec\<close>. The stack is a list with its top first; \<open>slot\<close>
  is the cell the record is pushed into when the operands stay on the stack. The allocations of
  the affinity of operand \<open>i\<close> are \<open>env i\<close>, those of the rowid and of the record \<open>env nField\<close>.
  The result is the stack and whether the jump is taken, or none when there is no memory.
\<close>

definition OP_MakeRecord :: "(u64 \<Rightarrow> bytes) \<Rightarrow> (bytes \<Rightarrow> u64) \<Rightarrow> (nat \<Rightarrow> nat \<Rightarrow> bool) \<Rightarrow> bool \<Rightarrow> u8 \<Rightarrow> int \<Rightarrow> Mem \<Rightarrow>
    int \<Rightarrow> int \<Rightarrow> bytes option \<Rightarrow> Mem list \<Rightarrow> (Mem list \<times> bool) option" where
  "OP_MakeRecord dtext atof env addRowid enc file_format slot p1 jumpIfNull zAffinity stack =
     (let leaveOnStack = p1 < 0; nField = nat \<bar>p1\<bar>; env' = env nField;
          data = affinities dtext atof env enc zAffinity (rev (take nField stack));
          pRowid = (if addRowid then Some (sqlite3VdbeMemIntegerify env' (stack ! nField)) else None);
          n = nField + (if addRowid then 1 else 0);
          operands = rev data @ (case pRowid of Some r \<Rightarrow> [r] | None \<Rightarrow> []);
          z = record_bytes file_format data pRowid;
          rest = drop n stack;
          containsNull = list_ex (\<lambda>m. has m MEM_Null) data;
          result = (if leaveOnStack then record_cell z slot # operands @ rest
                    else record_cell z (if operands = [] then slot else sqlite3VdbeMemRelease (last operands)) # rest)
      in if length z > NBFS \<and> \<not> env' 2 then None else Some (result, jumpIfNull \<noteq> 0 \<and> containsNull))"

subsection \<open>Comparing records\<close>

text \<open>\<open>GetVarint\<close> at an offset: the length and the value.\<close>

definition GetVarint :: "bytes \<Rightarrow> nat \<Rightarrow> nat \<times> u32" where
  "GetVarint key i =
     (if cat key i \<le> 0x7f then (1, ucast (cat key i)) else sqlite3GetVarint32 (\<lambda>j. cat key (i + j)))"

record KeyInfo =
  kenc :: u8
  incrKey :: bool
  nField :: nat
  aSortOrder :: "bool list option"
  aColl :: "CollSeq option list"

text \<open>
  The loop over the fields: the offsets into the two headers and data areas, the number of the
  field. The result is the outcome of the last comparison, the field and the offsets of the
  data. Each round reads at least one byte of the first header.
\<close>

definition empty_cell :: "u8 \<Rightarrow> Mem" where
  "empty_cell enc = \<lparr>mi = 0, mr = 0, mz = ZNull, mn = 0, mflags = 0, mtype = 0, menc = enc, mxDel = False, mzShort = replicate NBFS 0\<rparr>"

definition field_coll :: "KeyInfo \<Rightarrow> nat \<Rightarrow> CollSeq option" where
  "field_coll k i = (if i < nField k then aColl k ! i else None)"

function compare_fields :: "KeyInfo \<Rightarrow> bytes \<Rightarrow> bytes \<Rightarrow> nat \<Rightarrow> nat \<Rightarrow> nat \<Rightarrow> nat \<Rightarrow> nat \<Rightarrow> nat \<Rightarrow> nat \<Rightarrow> int \<times> nat \<times> nat \<times> nat" where
  "compare_fields k key1 key2 szHdr1 szHdr2 i idx1 idx2 d1 d2 =
     (if idx1 < szHdr1 \<and> idx2 < szHdr2 then
        (let (l1, t1) = GetVarint key1 idx1; idx1' = idx1 + max 1 l1
         in if d1 \<ge> length key1 \<and> sqlite3VdbeSerialTypeLen t1 > 0 then (0, i, d1, d2)
            else
              (let (l2, t2) = GetVarint key2 idx2; idx2' = idx2 + l2
               in if d2 \<ge> length key2 \<and> sqlite3VdbeSerialTypeLen t2 > 0 then (0, i, d1, d2)
                  else
                    (let (m1, n1) = sqlite3VdbeSerialGet (drop d1 key1) t1 (empty_cell (kenc k));
                         (m2, n2) = sqlite3VdbeSerialGet (drop d2 key2) t2 (empty_cell (kenc k));
                         r = sqlite3MemCompare (\<lambda>_. True) m1 m2 (field_coll k i)
                     in if r \<noteq> 0 then (r, i, d1 + n1, d2 + n2)
                        else compare_fields k key1 key2 szHdr1 szHdr2 (i + 1) idx1' idx2' (d1 + n1) (d2 + n2))))
      else (0, i, d1, d2))"
  by pat_completeness auto
termination by (relation "measure (\<lambda>(k, k1, k2, s1, s2, i, x1, x2, d1, d2). s1 - x1)") auto
declare compare_fields.simps [simp del]

definition sqlite3VdbeRecordCompare :: "KeyInfo \<Rightarrow> bytes \<Rightarrow> bytes \<Rightarrow> int" where
  "sqlite3VdbeRecordCompare k key1 key2 =
     (let (idx1, szHdr1) = GetVarint key1 0; (idx2, szHdr2) = GetVarint key2 0;
          (r, i, d1, d2) = compare_fields k key1 key2 (unat szHdr1) (unat szHdr2) 0 idx1 idx2 (unat szHdr1) (unat szHdr2)
      in if r = 0 then
           (if incrKey k then - 1 else if d1 < length key1 then 1 else if d2 < length key2 then - 1 else 0)
         else case aSortOrder k of
                Some desc \<Rightarrow> if i < nField k \<and> desc ! i then - r else r
              | None \<Rightarrow> r)"

definition sqlite3VdbeIdxRowidLen :: "bytes \<Rightarrow> nat" where
  "sqlite3VdbeIdxRowidLen key =
     (let szHdr = unat (snd (sqlite3GetVarint32 (cat key)))
      in sqlite3VdbeSerialTypeLen (snd (sqlite3GetVarint32 (\<lambda>j. cat key (szHdr - 1 + j)))))"

text \<open>
  The key or the data under a b-tree cursor as a cell: \<open>payload\<close> is what the b-tree holds there,
  \<open>available\<close> the number of its bytes on the cursor's own page, \<open>rd\<close> the result of reading the rest
  from overflow pages.
\<close>

definition sqlite3VdbeMemFromBtree :: "bool \<Rightarrow> rc \<Rightarrow> bytes \<Rightarrow> nat \<Rightarrow> nat \<Rightarrow> nat \<Rightarrow> Mem \<Rightarrow> Mem \<times> rc" where
  "sqlite3VdbeMemFromBtree ok rd payload available offset amt m =
     (let m = m\<lparr>mn := int amt\<rparr>; zData = take amt (drop offset payload) @ [0, 0]
      in if offset + amt \<le> available then
           (m\<lparr>mz := ZBuf (drop offset payload), mflags := MEM_Blob OR MEM_Ephem\<rparr>, SQLITE_OK)
         else if amt > NBFS - 2 then
           (if \<not> ok then (m, SQLITE_NOMEM)
            else (m\<lparr>mflags := MEM_Blob OR MEM_Dyn OR MEM_Term, mxDel := False, mz := ZBuf zData, menc := 0,
                    mtype := SQLITE_BLOB\<rparr>, rd))
         else ((put_short zData m)\<lparr>mflags := MEM_Blob OR MEM_Short OR MEM_Term, menc := 0, mtype := SQLITE_BLOB\<rparr>, rd))"

text \<open>The rowid of an index entry, and the comparison of an entry with a key.\<close>

definition sqlite3VdbeIdxRowid :: "bool \<Rightarrow> rc \<Rightarrow> nat \<Rightarrow> bytes \<Rightarrow> i64 + rc" where
  "sqlite3VdbeIdxRowid ok rd available cell =
     (if cell = [] then Inr SQLITE_CORRUPT
      else case sqlite3VdbeMemFromBtree ok rd cell available 0 (length cell) (empty_cell 0) of
        (m, r) \<Rightarrow>
          if r \<noteq> SQLITE_OK then Inr r
          else
            (let szHdr = unat (snd (sqlite3GetVarint32 (cat (zmem m))));
                 typeRowid = snd (sqlite3GetVarint32 (\<lambda>j. cat (zmem m) (szHdr - 1 + j)));
                 lenRowid = sqlite3VdbeSerialTypeLen typeRowid
             in Inl (mi (fst (sqlite3VdbeSerialGet (drop (nat (mn m) - lenRowid) (zmem m)) typeRowid (empty_cell 0))))))"

definition sqlite3VdbeIdxKeyCompare :: "bool \<Rightarrow> rc \<Rightarrow> nat \<Rightarrow> KeyInfo \<Rightarrow> bytes \<Rightarrow> bytes \<Rightarrow> int + rc" where
  "sqlite3VdbeIdxKeyCompare ok rd available k cell pKey =
     (if cell = [] then Inl 0
      else case sqlite3VdbeMemFromBtree ok rd cell available 0 (length cell) (empty_cell 0) of
        (m, r) \<Rightarrow>
          if r \<noteq> SQLITE_OK then Inr r
          else Inl (sqlite3VdbeRecordCompare k (take (nat (mn m) - sqlite3VdbeIdxRowidLen (zmem m)) (zmem m)) pKey))"

subsection \<open>The values of cells\<close>

datatype sqlval = VNull | VInt int | VReal u64 | VText bytes | VBlob bytes

definition val :: "Mem \<Rightarrow> sqlval" where
  "val m =
     (if has m MEM_Null then VNull else if has m MEM_Int then VInt (sint (mi m))
      else if has m MEM_Real then VReal (mr m) else if has m MEM_Str then VText (content m) else VBlob (content m))"

text \<open>A cell that can be stored: it has a value, and a text or blob lies in its memory and is
  smaller than a gigabyte.\<close>

definition storable :: "Mem \<Rightarrow> bool" where
  "storable m \<longleftrightarrow> has m (MEM_Null OR MEM_Int OR MEM_Real OR MEM_Str OR MEM_Blob) \<and>
     (\<not> has m (MEM_Null OR MEM_Int OR MEM_Real) \<longrightarrow> 0 \<le> mn m \<and> mn m < 2 ^ 30 \<and> mn m \<le> int (length (zmem m)))"

subsection \<open>Round trip of a value\<close>

lemma put_be_length [simp]: "length (put_be n v) = n"
  by (induction n arbitrary: v) simp_all

text \<open>The bytes of \<open>put_be\<close>, the most significant first.\<close>

lemma put_be_nth: "i < n \<Longrightarrow> put_be n v ! i = ucast (shr v (8 * (n - 1 - i)))"
proof (induction n arbitrary: v)
  case (Suc n)
  have m: "ucast (v AND 0xFF) = (ucast v :: u8)" for v :: u64
    by (rule bit_word_eqI) (auto simp: bit_simps mask_8)
  show ?case
  proof (cases "i < n")
    case True
    then have "8 + 8 * (n - 1 - i) = 8 * (n - i)" by simp
    then show ?thesis using Suc.IH [OF True, of "shr v 8"] True by (simp add: nth_append add.commute)
  next
    case False
    then have "i = n" using Suc.prems by simp
    then show ?thesis by (simp add: nth_append m)
  qed
qed simp

text \<open>A number of so many bytes, from its sign bit.\<close>

definition fits_signed :: "nat \<Rightarrow> u64 \<Rightarrow> bool" where
  "fits_signed n v \<longleftrightarrow> (\<forall>k. n \<le> k \<and> k < 64 \<longrightarrow> bit v k = bit v (n - 1))"

lemma cat_put_be: "i < n \<Longrightarrow> cat (put_be n v @ rest) i = ucast (shr v (8 * (n - 1 - i)))"
  by (simp add: cat_def nth_append put_be_nth)

lemma bit_scast: "bit (scast (x :: 'a::len word) :: 'b::len word) k \<longleftrightarrow>
    k < LENGTH('b) \<and> bit x (min k (LENGTH('a) - 1))"
proof (cases "k < LENGTH('a)")
  case True
  then have "min k (LENGTH('a) - 1) = k" by simp
  then show ?thesis using True by (auto simp: bit_simps)
next
  case False
  then have "min k (LENGTH('a) - 1) = LENGTH('a) - 1" by simp
  then show ?thesis using False by (auto simp: bit_simps)
qed

lemma bit_32_8: "bit (scast (x :: u8) :: u32) k \<longleftrightarrow> k < 32 \<and> bit x (min k 7)"
  "bit (scast (y :: u32) :: u64) k \<longleftrightarrow> k < 64 \<and> bit y (min k 31)"
  "bit (scast (x :: u8) :: u64) k \<longleftrightarrow> k < 64 \<and> bit x (min k 7)"
  by (simp_all add: bit_scast)

lemma bytes_2: "shl (scast (ucast (shr v 8) :: u8)) 8 OR ucast (ucast v :: u8) = (scast (ucast v :: u16) :: u32)" for v :: u64
proof (rule bit_word_eqI)
  fix k :: nat assume "k < LENGTH(32)"
  then have "k < 8 \<or> 8 \<le> k \<and> k < 16 \<or> 16 \<le> k \<and> k < 32" by auto
  then show "bit (shl (scast (ucast (shr v 8) :: u8)) 8 OR ucast (ucast v :: u8) :: u32) k = bit (scast (ucast v :: u16) :: u32) k"
    by (elim disjE conjE) (simp_all add: bit_32_8 bit_scast bit_simps min_def less_diff_conv2 le_diff_conv, (auto)?)
qed

lemma bytes_3: "shl (scast (ucast (shr v 16) :: u8)) 16 OR shl (ucast (ucast (shr v 8) :: u8)) 8 OR ucast (ucast v :: u8) =
    (scast (ucast v :: 24 word) :: u32)" for v :: u64
proof (rule bit_word_eqI)
  fix k :: nat assume "k < LENGTH(32)"
  then have "k < 8 \<or> 8 \<le> k \<and> k < 16 \<or> 16 \<le> k \<and> k < 24 \<or> 24 \<le> k \<and> k < 32" by auto
  then show "bit (shl (scast (ucast (shr v 16) :: u8)) 16 OR shl (ucast (ucast (shr v 8) :: u8)) 8 OR ucast (ucast v :: u8) :: u32) k =
      bit (scast (ucast v :: 24 word) :: u32) k"
    by (elim disjE conjE) (simp_all add: bit_32_8 bit_scast bit_simps min_def less_diff_conv2 le_diff_conv, (auto)?)
qed

lemma be32_eq: "be32 (ucast (shr v 24)) (ucast (shr v 16)) (ucast (shr v 8)) (ucast v) = ucast v" for v :: u64
proof (rule bit_word_eqI)
  fix k :: nat assume "k < LENGTH(32)"
  then have "k < 8 \<or> 8 \<le> k \<and> k < 16 \<or> 16 \<le> k \<and> k < 24 \<or> 24 \<le> k \<and> k < 32" by auto
  then show "bit (be32 (ucast (shr v 24)) (ucast (shr v 16)) (ucast (shr v 8)) (ucast v)) k = bit (ucast v :: u32) k"
    unfolding be32_def by (elim disjE conjE) (simp_all add: bit_simps less_diff_conv2 le_diff_conv, (auto)?)
qed

lemma sext: "fits_signed LENGTH('a) v \<Longrightarrow> (scast (ucast v :: 'a::len word) :: u64) = v"
proof (rule bit_word_eqI)
  fix k assume f: "fits_signed LENGTH('a) v" and k: "k < LENGTH(64)"
  then show "bit (scast (ucast v :: 'a word) :: u64) k = bit v k"
    by (cases "k < LENGTH('a)") (auto simp: bit_scast bit_simps fits_signed_def min_def not_less le_Suc_eq)
qed

lemma sext_via: "LENGTH('a) \<le> 32 \<Longrightarrow> (scast (scast (x :: 'a::len word) :: u32) :: u64) = scast x"
proof (rule bit_word_eqI)
  fix k assume l: "LENGTH('a) \<le> 32"
  have "min (min k 31) (LENGTH('a) - 1) = min k (LENGTH('a) - 1)" using l by linarith
  moreover have "min k 31 < 32" by linarith
  ultimately show "bit (scast (scast x :: u32) :: u64) k = bit (scast x :: u64) k"
    by (simp add: bit_scast)
qed

lemma get_2: "fits_signed 16 v \<Longrightarrow>
  (scast (shl (scast (ucast (shr v 8) :: u8)) 8 OR ucast (ucast v :: u8) :: u32) :: u64) = v"
  using sext [where 'a = 16, of v] sext_via [of "ucast v :: u16"] by (simp add: bytes_2)

lemma get_3: "fits_signed 24 v \<Longrightarrow>
  (scast (shl (scast (ucast (shr v 16) :: u8)) 16 OR shl (ucast (ucast (shr v 8) :: u8)) 8 OR ucast (ucast v :: u8) :: u32) :: u64) = v"
  using sext [where 'a = 24, of v] sext_via [of "ucast v :: 24 word"] by (simp add: bytes_3)

lemma halves: "shl x 32 OR ucast (ucast v :: u32) = v" if "\<And>k. k < 32 \<Longrightarrow> bit x k = bit v (k + 32)" for v :: u64
proof (rule bit_word_eqI)
  fix k :: nat assume k: "k < LENGTH(64)"
  then have "k < 32 \<or> 32 \<le> k \<and> k < 64" by auto
  then show "bit (shl x 32 OR ucast (ucast v :: u32)) k = bit v k"
    using that [of "k - 32"] by (elim disjE conjE) (simp_all add: bit_simps less_diff_conv2 le_diff_conv, (auto)?)
qed

lemma get_6: "fits_signed 48 v \<Longrightarrow>
  shl (scast (shl (scast (ucast (shr v 40) :: u8)) 8 OR ucast (ucast (shr v 32) :: u8) :: u32)) 32 OR ucast (ucast v :: u32) = v" for v :: u64
proof (rule halves)
  fix k :: nat assume f: "fits_signed 48 v" and k: "k < 32"
  have e: "shl (scast (ucast (shr v 40) :: u8)) 8 OR ucast (ucast (shr v 32) :: u8) = (scast (ucast (shr v 32) :: u16) :: u32)"
    using bytes_2 [of "shr v 32"] by simp
  show "bit (scast (shl (scast (ucast (shr v 40) :: u8)) 8 OR ucast (ucast (shr v 32) :: u8) :: u32) :: u64) k = bit v (k + 32)"
    unfolding e using f k by (cases "k < 16") (auto simp: bit_scast bit_simps fits_signed_def min_def add.commute)
qed

lemma get_8: "shl (scast (ucast (shr v 32) :: u32)) 32 OR ucast (ucast v :: u32) = v" for v :: u64
  by (rule halves) (auto simp: bit_scast bit_simps min_def add.commute)


text \<open>An integer with its serial type fits into the bytes of the type.\<close>

lemma fits_signedI:
  assumes "- (2 ^ (n - 1)) \<le> sint v" "sint v < 2 ^ (n - 1)" "0 < n" "n \<le> 64"
  shows "fits_signed n (v :: u64)"
  unfolding fits_signed_def
proof (intro allI impI)
  have t: "signed_take_bit (n - 1) (sint v) = sint v"
    using assms(1,2) by (simp add: signed_take_bit_int_eq_self_iff)
  fix k assume k: "n \<le> k \<and> k < 64"
  have b: "bit (sint v) j = bit v (min j 63)" for j by (simp add: bit_simps min_def)
  have m: "min (n - Suc 0) k = n - Suc 0" "n - Suc 0 \<le> 63" using k by linarith+
  have "bit (sint v) k = bit (sint v) (n - 1)"
    using arg_cong [OF t, of "\<lambda>x. bit x k"] m by (simp add: bit_signed_take_bit_iff)
  then show "bit v k = bit v (n - 1)" using b [of k] b [of "n - 1"] k m assms(3,4) by (simp add: min_def)
qed

lemma uint_abs: "uint (if sint v < 0 then - v else v) = \<bar>sint v\<bar>" for v :: u64
proof (cases "sint v < 0")
  case True
  have "- v = of_int (- sint v)" by simp
  then have "uint (- v) = take_bit 64 (- sint v)" by (simp add: unsigned_of_int del: of_int_minus of_int_sint)
  then show ?thesis using True sint_greater_eq [of v] by (simp add: take_bit_int_eq_self)
next
  case False
  then show ?thesis using sint_less [of v] by (simp add: uint_sint take_bit_int_eq_self)
qed

lemma word_le_uint: "(x :: u64) \<le> y \<longleftrightarrow> uint x \<le> uint y"
  by (simp add: word_le_def)

text \<open>The serial type of an integer and the bytes it stands for.\<close>

lemma int_type_cases:
  assumes "\<not> has m MEM_Null" "has m MEM_Int"
  obtains (const) "4 \<le> ff" "mi m \<in> {0, 1}" "sqlite3VdbeSerialType m ff = 8 + ucast (mi m)"
  | (bytes) n t where "sqlite3VdbeSerialType m ff = t" "(t, n) \<in> {(1, 1), (2, 2), (3, 3), (4, 4), (5, 6), (6, 8)}"
      "fits_signed (8 * n) (mi m)"
proof -
  let ?u = "if sint (mi m) < 0 then - mi m else mi m"
  note f = fits_signedI [where v = "mi m"]
  have u: "uint ?u = \<bar>sint (mi m)\<bar>" by (rule uint_abs)
  have one: "mi m AND 1 = mi m \<longleftrightarrow> mi m \<in> {0, 1}" 
    by (auto simp: and_one_eq mod_2_eq_odd split: if_splits)
  have b: "fits_signed (8 * 8) (mi m)" by (auto simp: fits_signed_def)
  consider "4 \<le> ff" "mi m \<in> {0, 1}" | "\<not> (4 \<le> ff \<and> mi m \<in> {0, 1})" by blast
  then show thesis
  proof cases
    case 1
    then show thesis using assms one by (intro const) (simp_all add: sqlite3VdbeSerialType_def Let_def)
  next
    case 2
    have ty: "sqlite3VdbeSerialType m ff =
        (if \<bar>sint (mi m)\<bar> \<le> 127 then 1 else if \<bar>sint (mi m)\<bar> \<le> 32767 then 2 else if \<bar>sint (mi m)\<bar> \<le> 8388607 then 3
         else if \<bar>sint (mi m)\<bar> \<le> 2147483647 then 4 else if \<bar>sint (mi m)\<bar> \<le> 17592186044415 then 5 else 6)"
      using assms 2 one unfolding sqlite3VdbeSerialType_def Let_def word_le_uint u by auto
    show thesis
      using ty bytes [of _ 1] bytes [of _ 2] bytes [of _ 3] bytes [of _ 4] bytes [of _ 6] bytes [of _ 8] b
        f [of 8] f [of 16] f [of 24] f [of 32] f [of 48]
      by (auto split: if_splits)
  qed
qed


lemma serial_len:
  "sqlite3VdbeSerialTypeLen 0 = 0" "sqlite3VdbeSerialTypeLen 1 = 1" "sqlite3VdbeSerialTypeLen 2 = 2"
  "sqlite3VdbeSerialTypeLen 3 = 3" "sqlite3VdbeSerialTypeLen 4 = 4" "sqlite3VdbeSerialTypeLen 5 = 6"
  "sqlite3VdbeSerialTypeLen 6 = 8" "sqlite3VdbeSerialTypeLen 7 = 8" "sqlite3VdbeSerialTypeLen 8 = 0"
  "sqlite3VdbeSerialTypeLen 9 = 0"
  by (simp_all add: sqlite3VdbeSerialTypeLen_def aSize_def word_le_nat_alt)

lemma shr_8s: "shr v (8 * (n - 1 - i)) = shr v (8 * (n - Suc i))"
  by simp

text \<open>Reading back the bytes of a number.\<close>

lemma get_int:
  assumes "(t, n) \<in> {(1, 1), (2, 2), (3, 3), (4, 4), (5, 6), (6, 8)}" "fits_signed (8 * n) v"
  shows "sqlite3VdbeSerialGet (put_be n v @ rest) t m = (m\<lparr>mi := v, mflags := MEM_Int\<rparr>, n)"
proof -
  have c: "i < n \<Longrightarrow> cat (put_be n v @ rest) i = ucast (shr v (8 * (n - 1 - i)))" for i by (rule cat_put_be)
  have c0: "0 < n" using assms(1) by auto
  note cs = c [of 0] c [of 1] c [of 2] c [of 3] c [of 4] c [of 5] c [of 6] c [of 7]
  show ?thesis using assms(1)
  proof (elim insertE emptyE)
    assume e: "(t, n) = (1, 1)"
    show ?thesis using cs e assms(2) sext [where 'a = 8, of v] by (simp add: sqlite3VdbeSerialGet_def)
  next
    assume e: "(t, n) = (2, 2)"
    show ?thesis using cs e assms(2) get_2 [of v] by (simp add: sqlite3VdbeSerialGet_def)
  next
    assume e: "(t, n) = (3, 3)"
    show ?thesis using cs e assms(2) get_3 [of v] by (simp add: sqlite3VdbeSerialGet_def)
  next
    assume e: "(t, n) = (4, 4)"
    show ?thesis using cs e assms(2) sext [where 'a = 32, of v] be32_eq [of v] by (simp add: sqlite3VdbeSerialGet_def)
  next
    assume e: "(t, n) = (5, 6)"
    show ?thesis using cs e assms(2) get_6 [of v] be32_eq [of v] by (simp add: sqlite3VdbeSerialGet_def Let_def)
  next
    assume e: "(t, n) = (6, 8)"
    show ?thesis using cs e get_8 [of v] be32_eq [of v] be32_eq [of "shr v 32"] by (simp add: sqlite3VdbeSerialGet_def Let_def)
  qed
qed

lemma get_real: "sqlite3VdbeSerialGet (put_be 8 v @ rest) 7 m = (m\<lparr>mr := v, mflags := MEM_Real\<rparr>, 8)"
proof -
  have c: "i < 8 \<Longrightarrow> cat (put_be 8 v @ rest) i = ucast (shr v (8 * (8 - 1 - i)))" for i by (rule cat_put_be)
  note cs = c [of 0] c [of 1] c [of 2] c [of 3] c [of 4] c [of 5] c [of 6] c [of 7]
  show ?thesis using cs get_8 [of v] be32_eq [of v] be32_eq [of "shr v 32"]
    by (simp add: sqlite3VdbeSerialGet_def Let_def)
qed

lemma odd_uint: "odd (x :: 'a::len word) \<longleftrightarrow> odd (uint x)"
  by (simp only: bit_0 [symmetric] bit_uint_iff) simp

text \<open>Texts and blobs.\<close>

lemma text_type:
  assumes "n < 2 ^ 30" "k \<in> {12, 13}"
  shows "12 \<le> (of_int (int n * 2 + k) :: u32)" "sqlite3VdbeSerialTypeLen (of_int (int n * 2 + k)) = n"
    "unat ((of_int (int n * 2 + k) - 12 :: u32) div 2) = n" "(of_int (int n * 2 + k) :: u32) AND 1 \<noteq> 0 \<longleftrightarrow> k = 13"
proof -
  let ?t = "of_int (int n * 2 + k) :: u32"
  have u: "uint ?t = int n * 2 + k" using assms by (auto simp: unsigned_of_int take_bit_int_eq_self_iff simp del: of_int_add of_int_mult)
  show ge: "12 \<le> ?t" unfolding word_le_def u using assms(2) by auto
  have "uint (?t - 12) = uint ?t - uint (12 :: u32)" using ge by (simp add: uint_sub_if' word_le_def del: of_int_add of_int_mult)
  then have "uint (?t - 12) = int n * 2 + k - 12" unfolding u by simp
  then have "uint ((?t - 12) div 2) = int n" using assms(2) by (auto simp: uint_div)
  then show d: "unat ((?t - 12) div 2) = n" by (simp add: unat_eq_nat_uint)
  then show "sqlite3VdbeSerialTypeLen ?t = n" using ge by (simp add: sqlite3VdbeSerialTypeLen_def)
  have "odd ?t \<longleftrightarrow> odd (uint ?t)" by (rule odd_uint)
  then show "?t AND 1 \<noteq> 0 \<longleftrightarrow> k = 13" unfolding u and_one_eq mod_2_eq_odd using assms(2) by auto
qed

text \<open>The cases of a storable cell: its serial type, its bytes and what is read back.\<close>

lemma has_flags_read [simp]:
  "has (m\<lparr>mi := i\<rparr>) x = has m x" "has (m\<lparr>mr := r\<rparr>) x = has m x" "has (m\<lparr>mz := z\<rparr>) x = has m x"
  "has (m\<lparr>mn := n\<rparr>) x = has m x" "has (m\<lparr>mtype := t\<rparr>) x = has m x" "has (m\<lparr>menc := e\<rparr>) x = has m x"
  "has (m\<lparr>mxDel := d\<rparr>) x = has m x" "has (m\<lparr>mzShort := s\<rparr>) x = has m x"
  "has (m\<lparr>mflags := f\<rparr>) x = (f AND x \<noteq> 0)"
  by (simp_all add: has_def)

lemma size_cases:
  assumes "storable m" "\<not> has m (MEM_Null OR MEM_Int OR MEM_Real)"
  obtains n where "mn m = int n" "n < 2 ^ 30" "n \<le> length (zmem m)"
proof
  show "mn m = int (nat (mn m))" "nat (mn m) < 2 ^ 30" "nat (mn m) \<le> length (zmem m)"
    using assms by (auto simp: storable_def)
qed

lemma read_text:
  assumes n: "mn m = int n" "n < 2 ^ 30" "n \<le> length (zmem m)"
    and k: "k \<in> {12, 13}" "sqlite3VdbeSerialType m ff = of_int (int n * 2 + k)"
  shows "sqlite3VdbeSerialGet (take n (zmem m) @ rest) (sqlite3VdbeSerialType m ff) m0 =
      (m0\<lparr>mz := ZBuf (take n (zmem m) @ rest), mn := int n, mxDel := False,
          mflags := (if k = 13 then MEM_Str else MEM_Blob) OR MEM_Ephem\<rparr>, n) \<and>
    sqlite3VdbeSerialPut m ff = take n (zmem m) \<and> sqlite3VdbeSerialTypeLen (sqlite3VdbeSerialType m ff) = n"
proof -
  note t = text_type [OF n(2) k(1)]
  have ge: "\<not> sqlite3VdbeSerialType m ff \<le> 7" "sqlite3VdbeSerialType m ff \<noteq> 0" "sqlite3VdbeSerialType m ff \<noteq> 1"
    "sqlite3VdbeSerialType m ff \<noteq> 2" "sqlite3VdbeSerialType m ff \<noteq> 3" "sqlite3VdbeSerialType m ff \<noteq> 4"
    "sqlite3VdbeSerialType m ff \<noteq> 5" "sqlite3VdbeSerialType m ff \<noteq> 6" "sqlite3VdbeSerialType m ff \<noteq> 7"
    "sqlite3VdbeSerialType m ff \<noteq> 8" "sqlite3VdbeSerialType m ff \<noteq> 9" "sqlite3VdbeSerialType m ff \<noteq> 10"
    "sqlite3VdbeSerialType m ff \<noteq> 11"
    using t(1) unfolding k(2) by (auto simp: word_le_nat_alt simp del: of_int_add of_int_mult)
  have p: "sqlite3VdbeSerialPut m ff = take n (zmem m)"
    using ge(1) t(1,2) by (simp add: sqlite3VdbeSerialPut_def Let_def k(2) del: of_int_add of_int_mult)
  have one: "sqlite3VdbeSerialType m ff AND 1 \<noteq> 0 \<longleftrightarrow> k = 13" "unat ((sqlite3VdbeSerialType m ff - 12) div 2) = n"
    using t(3,4) unfolding k(2) by (simp_all del: of_int_add of_int_mult)
  show ?thesis using one t(2) p ge
    by (simp add: sqlite3VdbeSerialGet_def Let_def k(2) [symmetric] del: of_int_add of_int_mult)
qed

lemma read_cell:
  assumes "n < 2 ^ 30" "n \<le> length z"
  shows "val (m0\<lparr>mz := ZBuf (take n z @ rest), mn := int n, mxDel := False, mflags := (if k = 13 then MEM_Str else MEM_Blob) OR MEM_Ephem\<rparr>) =
      (if k = 13 then VText (take n z) else VBlob (take n z)) \<and>
    storable (m0\<lparr>mz := ZBuf (take n z @ rest), mn := int n, mxDel := False, mflags := (if k = 13 then MEM_Str else MEM_Blob) OR MEM_Ephem\<rparr>)"
  using assms by (simp add: val_def storable_def has_or content_def zmem_def) (simp add: mem_flags)

lemma read_back:
  assumes "storable m"
  shows "\<exists>m'. sqlite3VdbeSerialGet (sqlite3VdbeSerialPut m ff @ rest) (sqlite3VdbeSerialType m ff) m0 =
      (m', sqlite3VdbeSerialTypeLen (sqlite3VdbeSerialType m ff)) \<and> val m' = val m \<and> menc m' = menc m0 \<and>
      length (sqlite3VdbeSerialPut m ff) = sqlite3VdbeSerialTypeLen (sqlite3VdbeSerialType m ff) \<and> storable m' \<and>
      mflags m' \<in> {MEM_Null, MEM_Int, MEM_Real, MEM_Str OR MEM_Ephem, MEM_Blob OR MEM_Ephem}"
proof -
  let ?t = "sqlite3VdbeSerialType m ff"
  consider (null) "has m MEM_Null" | (int) "\<not> has m MEM_Null" "has m MEM_Int"
    | (real) "\<not> has m MEM_Null" "\<not> has m MEM_Int" "has m MEM_Real"
    | (str) "\<not> has m MEM_Null" "\<not> has m MEM_Int" "\<not> has m MEM_Real" "has m MEM_Str"
    | (blob) "\<not> has m MEM_Null" "\<not> has m MEM_Int" "\<not> has m MEM_Real" "\<not> has m MEM_Str" "has m MEM_Blob"
    using assms by (auto simp: storable_def has_or)
  then show ?thesis
  proof cases
    case null
    then have t: "?t = 0" by (simp add: sqlite3VdbeSerialType_def)
    then show ?thesis using null
      by (simp add: sqlite3VdbeSerialPut_def sqlite3VdbeSerialGet_def serial_len val_def storable_def has_or mem_flags Let_def)
  next
    case int
    then show ?thesis
    proof (cases rule: int_type_cases [of m ff])
      case const
      then consider "mi m = 0" "?t = 8" | "mi m = 1" "?t = 9" by auto
      then show ?thesis
      proof cases
        case 1
        then show ?thesis using int
          by (simp add: sqlite3VdbeSerialPut_def sqlite3VdbeSerialGet_def serial_len val_def storable_def has_or mem_flags
              Let_def word_le_nat_alt)
      next
        case 2
        then show ?thesis using int
          by (simp add: sqlite3VdbeSerialPut_def sqlite3VdbeSerialGet_def serial_len val_def storable_def has_or mem_flags
              Let_def word_le_nat_alt)
      qed
    next
      case (bytes n t)
      have l: "sqlite3VdbeSerialTypeLen t = n" "t \<le> 7 \<and> t > 0 \<and> t \<noteq> 7" using bytes(2) by (auto simp: serial_len)
      have p: "sqlite3VdbeSerialPut m ff = put_be n (mi m)" unfolding sqlite3VdbeSerialPut_def bytes(1) using l by (simp add: Let_def)
      show ?thesis unfolding p bytes(1) get_int [OF bytes(2,3)] l(1) using int
        by (auto simp: val_def storable_def has_or mem_flags)
    qed
  next
    case real
    then have t: "?t = 7" by (simp add: sqlite3VdbeSerialType_def)
    then have p: "sqlite3VdbeSerialPut m ff = put_be 8 (mr m)" by (simp add: sqlite3VdbeSerialPut_def serial_len Let_def)
    show ?thesis unfolding p t get_real serial_len using real
      by (auto simp: val_def storable_def has_or mem_flags)
  next
    case str
    obtain n where n: "mn m = int n" "n < 2 ^ 30" "n \<le> length (zmem m)"
      using size_cases [OF assms] str by (auto simp: has_or)
    have t: "?t = of_int (int n * 2 + 13)" using str n by (simp add: sqlite3VdbeSerialType_def)
    have k: "(13 :: int) \<in> {12, 13}" by simp
    have v: "val m = (if (13 :: int) = 13 then VText (take n (zmem m)) else VBlob (take n (zmem m)))"
      using str n(1) by (simp add: val_def content_def)
    show ?thesis using read_text [OF n k t, of rest m0] read_cell [where k = "13 :: int" and rest = rest and ?m0.0 = m0, OF n(2,3)]
      unfolding v by (intro exI [of _ "m0\<lparr>mz := ZBuf (take n (zmem m) @ rest), mn := int n, mxDel := False,
        mflags := (if (13 :: int) = 13 then MEM_Str else MEM_Blob) OR MEM_Ephem\<rparr>"]) (simp add: n(3) min_absorb2 del: if_split_asm)
  next
    case blob
    obtain n where n: "mn m = int n" "n < 2 ^ 30" "n \<le> length (zmem m)"
      using size_cases [OF assms] blob by (auto simp: has_or)
    have t: "?t = of_int (int n * 2 + 12)" using blob n by (simp add: sqlite3VdbeSerialType_def)
    have k: "(12 :: int) \<in> {12, 13}" by simp
    have v: "val m = (if (12 :: int) = 13 then VText (take n (zmem m)) else VBlob (take n (zmem m)))"
      using blob n(1) by (simp add: val_def content_def)
    show ?thesis using read_text [OF n k t, of rest m0] read_cell [where k = "12 :: int" and rest = rest and ?m0.0 = m0, OF n(2,3)]
      unfolding v by (intro exI [of _ "m0\<lparr>mz := ZBuf (take n (zmem m) @ rest), mn := int n, mxDel := False,
        mflags := (if (12 :: int) = 13 then MEM_Str else MEM_Blob) OR MEM_Ephem\<rparr>"]) (simp add: n(3) min_absorb2 del: if_split_asm)
  qed
qed

subsection \<open>The header\<close>

lemma varint_len_eq: "sqlite3VarintLen v = min 9 (length (put_varint_buf v))"
  using varint_len_loop_min [of 0 v] by (simp add: sqlite3VarintLen_def)

lemma varint_bytes_length: "length (varint_bytes v) = sqlite3VarintLen v"
  by (simp add: varint_bytes_def put_length_min varint_len_eq)

lemma varint_len_le: "0 < k \<Longrightarrow> k < 9 \<Longrightarrow> sqlite3VarintLen v \<le> k \<longleftrightarrow> unat v < 128 ^ k"
proof -
  assume k: "0 < k" "k < 9"
  have "length (put_varint_buf v) \<le> k \<longleftrightarrow> shr v (7 * k) = 0"
  proof
    assume "length (put_varint_buf v) \<le> k"
    then have "shr v (7 * k) = shr (shr v (7 * length (put_varint_buf v))) (7 * k - 7 * length (put_varint_buf v))"
      by simp
    then show "shr v (7 * k) = 0" by (simp add: put_varint_buf_length)
  next
    assume "shr v (7 * k) = 0"
    then show "length (put_varint_buf v) \<le> k" using put_varint_buf_least [of k v] k(1) by (meson not_le)
  qed
  also have "\<dots> \<longleftrightarrow> unat v div 2 ^ (7 * k) = 0" by (simp add: unat_eq_0 [symmetric] unat_shr)
  also have "\<dots> \<longleftrightarrow> unat v < 128 ^ k" by (simp add: power_mult div_eq_0_iff)
  finally show "sqlite3VarintLen v \<le> k \<longleftrightarrow> unat v < 128 ^ k" using k by (simp add: varint_len_eq min_le_iff_disj)
qed

lemma varint_len_pos: "0 < sqlite3VarintLen v"
  using put_varint_buf_ne [of v] by (simp add: varint_len_eq)

lemma varint_len_32: "sqlite3VarintLen (ucast (t :: u32)) \<le> 5"
proof -
  have "unat t < 2 ^ 32" using unsigned_less [of t] by simp
  moreover from this have "unat t < 2 ^ 64" by simp
  then have "unat (ucast t :: u64) = unat t" by (simp add: unsigned_ucast_eq take_bit_nat_eq_self)
  ultimately show ?thesis by (simp add: varint_len_le)
qed

lemma GetVarint_32: "GetVarint key i = sqlite3GetVarint32 (\<lambda>j. cat key (i + j))"
proof (cases "cat key i \<le> 0x7f")
  case True
  then have "uint (cat key i) < 2 ^ 7" by (simp add: word_le_def)
  then have "take_bit 7 (uint (cat key i)) = uint (cat key i)" by (simp add: take_bit_int_eq_self)
  then have "\<not> bit (uint (cat key i)) 7" by (metis bit_take_bit_iff less_irrefl)
  then have "0 \<le> sint (cat key i)" by (simp add: sint_nonneg_iff and_128_iff bit_uint_iff)
  then show ?thesis using True by (simp add: GetVarint_def sqlite3GetVarint32_def)
next
  case False
  then show ?thesis by (simp add: GetVarint_def)
qed

text \<open>Reading a varint back from the middle of a list of bytes.\<close>

lemma read_varint:
  "GetVarint (pre @ varint_bytes (ucast (t :: u32)) @ rest) (length pre) = (sqlite3VarintLen (ucast t), t)"
proof -
  define v :: u64 where "v = ucast t"
  define p where "p = snd (sqlite3PutVarint (\<lambda>_. 0) v)"
  define q where "q = (\<lambda>j. cat (pre @ varint_bytes v @ rest) (length pre + j))"
  have len: "fst (sqlite3PutVarint (\<lambda>_. 0) v) = sqlite3VarintLen v" by (simp add: put_length_min varint_len_eq)
  have rp: "varint_ref p = (sqlite3VarintLen v, v)"
    unfolding p_def len [symmetric] by (cases "shr v 56 = 0") (simp_all add: put_small_read put_big_read put_length)
  have q: "q j = p j" if "j < sqlite3VarintLen v" for j
    using that by (simp add: q_def p_def cat_def nth_append varint_bytes_def len)
  have "varint_ref q = varint_ref p"
    unfolding varint_ref_def by (rule loop_local) (use q rp in \<open>auto simp: varint_ref_def\<close>)
  then have rq: "varint_ref q = (sqlite3VarintLen v, v)" using rp by simp
  have "sqlite3GetVarint32 q = (sqlite3VarintLen v, ucast v)"
    using get32_agrees [of q] varint_len_32 [of t] unfolding rq by (simp add: v_def prod_eq_iff)
  moreover have "(ucast v :: u32) = t" unfolding v_def by (rule bit_word_eqI) (simp add: bit_simps)
  ultimately show ?thesis unfolding GetVarint_32 q_def v_def by simp
qed

text \<open>The length of the header counts its own length field.\<close>

lemma header_size_fix:
  assumes "n < 2 ^ 31"
  shows "header_size n = n + sqlite3VarintLen (of_nat (header_size n))" "header_size n < 2 ^ 31 + 10"
proof -
  define L where "L x = sqlite3VarintLen (of_nat x)" for x
  have L: "L x \<le> k \<longleftrightarrow> x < 128 ^ k" if "0 < k" "k < 9" "x < 2 ^ 40" for x k
    using varint_len_le [OF that(1,2), of "of_nat x"] that(3) by (simp add: L_def unat_of_nat take_bit_nat_eq_self)
  define k where "k = L n"
  have k: "0 < k" "k \<le> 5" "n < 128 ^ k"
    using varint_len_pos L [of 5 n] L [of k n] assms by (auto simp: k_def L_def)
  have gt: "\<not> n < 128 ^ (k - 1)" if "1 < k"
  proof
    assume "n < 128 ^ (k - 1)"
    then have "L n \<le> k - 1" using L [of "k - 1" n] that k assms by simp
    then show False using that by (simp add: k_def [symmetric])
  qed
  have up: "L x \<le> k + 1" if "x \<le> n + k + 1" for x
  proof -
    have "n + k + 1 < 128 ^ (k + 1)" using k by simp
    then show ?thesis using L [of "k + 1" x] that k assms by simp
  qed
  have lo: "k \<le> L x" if "n \<le> x" "x \<le> n + k + 1" for x
  proof (rule ccontr)
    assume "\<not> k \<le> L x"
    then have "L x \<le> k - 1" "1 < k" using varint_len_pos [of "of_nat x"] by (auto simp: L_def)
    then have "x < 128 ^ (k - 1)" using L [of "k - 1" x] that k assms by simp
    then show False using gt \<open>1 < k\<close> that by simp
  qed
  have mono: "L (n + k) \<le> L (n + k + 1)"
  proof (rule ccontr)
    assume m: "\<not> ?thesis"
    then have "L (n + k + 1) \<le> k" using up [of "n + k"] by simp
    then have "n + k + 1 < 128 ^ k" using L [of k "n + k + 1"] k assms by simp
    then have "L (n + k) \<le> k" using L [of k "n + k"] k assms by simp
    then show False using m lo [of "n + k + 1"] by simp
  qed
  have h: "header_size n = (if k < L (n + k) then n + k + 1 else n + k)"
    by (simp add: header_size_def Let_def L_def k_def)
  then show "header_size n = n + sqlite3VarintLen (of_nat (header_size n))"
    using up [of "n + k"] up [of "n + k + 1"] lo [of "n + k"] lo [of "n + k + 1"] mono by (auto simp: L_def [symmetric])
  show "header_size n < 2 ^ 31 + 10" using h k assms by (auto split: if_splits)
qed

subsection \<open>Comparing values\<close>

text \<open>The bytes of two values: \<^verbatim>\<open>memcmp\<close>, then the lengths.\<close>

definition bytes_cmp :: "bytes \<Rightarrow> bytes \<Rightarrow> int" where
  "bytes_cmp a b =
     (let r = memcmp a b (min (length a) (length b)) in if r = 0 then int (length a) - int (length b) else r)"

definition d_cmp :: "u64 \<Rightarrow> u64 \<Rightarrow> int" where
  "d_cmp a b = (if d_less a b then - 1 else if d_less b a then 1 else 0)"

text \<open>The order of SQL values: NULL, numbers, texts, blobs. Numbers are compared as integers when
  both are, as doubles otherwise.\<close>

fun value_cmp :: "CollSeq option \<Rightarrow> sqlval \<Rightarrow> sqlval \<Rightarrow> int" where
  "value_cmp c VNull VNull = 0"
| "value_cmp c VNull y = - 1"
| "value_cmp c x VNull = 1"
| "value_cmp c (VInt i) (VInt j) = (if i < j then - 1 else if j < i then 1 else 0)"
| "value_cmp c (VInt i) (VReal y) = d_cmp (d_of_i64 (of_int i)) y"
| "value_cmp c (VReal x) (VInt j) = d_cmp x (d_of_i64 (of_int j))"
| "value_cmp c (VReal x) (VReal y) = d_cmp x y"
| "value_cmp c (VInt i) y = - 1"
| "value_cmp c (VReal x) y = - 1"
| "value_cmp c x (VInt j) = 1"
| "value_cmp c x (VReal y) = 1"
| "value_cmp c (VText a) (VText b) = (case c of Some c \<Rightarrow> cxCmp c a b | None \<Rightarrow> bytes_cmp a b)"
| "value_cmp c (VText a) (VBlob b) = - 1"
| "value_cmp c (VBlob a) (VText b) = 1"
| "value_cmp c (VBlob a) (VBlob b) = bytes_cmp a b"

lemma memcmp_take: "k \<le> n \<Longrightarrow> k \<le> m \<Longrightarrow> memcmp (take n a) (take m b) k = memcmp a b k"
proof (induction k arbitrary: n m a b)
  case (Suc k)
  then have "n = Suc (n - 1)" "m = Suc (m - 1)" "k \<le> n - 1" "k \<le> m - 1" by linarith+
  then show ?case using Suc.IH [of "n - 1" "m - 1" "tl a" "tl b"] by (cases a; cases b; simp add: take_Cons')
qed simp

lemma blob_compare_content:
  assumes "0 \<le> mn a" "mn a \<le> int (length (zmem a))" "0 \<le> mn b" "mn b \<le> int (length (zmem b))"
  shows "blob_compare a b = bytes_cmp (content a) (content b)"
proof -
  have l: "length (content a) = nat (mn a)" "length (content b) = nat (mn b)" using assms by (auto simp: content_def)
  have n: "nat (if mn a > mn b then mn b else mn a) = min (nat (mn a)) (nat (mn b))" by auto
  show ?thesis unfolding blob_compare_def bytes_cmp_def Let_def l n
    using memcmp_take [of "min (nat (mn a)) (nat (mn b))" "nat (mn a)" "nat (mn b)" "zmem a" "zmem b"] assms
    by (simp add: content_def)
qed

text \<open>The cells that a record is read into have one flag for the type.\<close>

abbreviation read_flags :: "u16 set" where
  "read_flags \<equiv> {MEM_Null, MEM_Int, MEM_Real, MEM_Str OR MEM_Ephem, MEM_Blob OR MEM_Ephem}"

lemma read_has:
  assumes "mflags m \<in> read_flags"
  obtains "val m = VNull" "has m MEM_Null" "\<not> has m MEM_Int" "\<not> has m MEM_Real" "\<not> has m MEM_Str"
  | "val m = VInt (sint (mi m))" "\<not> has m MEM_Null" "has m MEM_Int" "\<not> has m MEM_Real" "\<not> has m MEM_Str"
  | "val m = VReal (mr m)" "\<not> has m MEM_Null" "\<not> has m MEM_Int" "has m MEM_Real" "\<not> has m MEM_Str"
  | "val m = VText (content m)" "\<not> has m MEM_Null" "\<not> has m MEM_Int" "\<not> has m MEM_Real" "has m MEM_Str"
  | "val m = VBlob (content m)" "\<not> has m MEM_Null" "\<not> has m MEM_Int" "\<not> has m MEM_Real" "\<not> has m MEM_Str"
proof -
  from assms consider "mflags m = MEM_Null" | "mflags m = MEM_Int" | "mflags m = MEM_Real"
    | "mflags m = MEM_Str OR MEM_Ephem" | "mflags m = MEM_Blob OR MEM_Ephem" by auto
  then show thesis
  proof cases
    case 1
    then have "has m MEM_Null" "\<not> has m MEM_Int" "\<not> has m MEM_Real" "\<not> has m MEM_Str" by (simp_all add: has_def mem_flags)
    then show thesis by (intro that(1)) (simp_all add: val_def)
  next
    case 2
    then have "\<not> has m MEM_Null" "has m MEM_Int" "\<not> has m MEM_Real" "\<not> has m MEM_Str" by (simp_all add: has_def mem_flags)
    then show thesis by (intro that(2)) (simp_all add: val_def)
  next
    case 3
    then have "\<not> has m MEM_Null" "\<not> has m MEM_Int" "has m MEM_Real" "\<not> has m MEM_Str" by (simp_all add: has_def mem_flags)
    then show thesis by (intro that(3)) (simp_all add: val_def)
  next
    case 4
    then have "\<not> has m MEM_Null" "\<not> has m MEM_Int" "\<not> has m MEM_Real" "has m MEM_Str" by (simp_all add: has_def mem_flags)
    then show thesis by (intro that(4)) (simp_all add: val_def)
  next
    case 5
    then have "\<not> has m MEM_Null" "\<not> has m MEM_Int" "\<not> has m MEM_Real" "\<not> has m MEM_Str" by (simp_all add: has_def mem_flags)
    then show thesis by (intro that(5)) (simp_all add: val_def)
  qed
qed

lemma compare_read:
  assumes "mflags a \<in> read_flags" "mflags b \<in> read_flags" "storable a" "storable b"
    "menc a = e" "menc b = e" "\<And>x. c = Some x \<Longrightarrow> cenc x = e"
  shows "sqlite3MemCompare env a b c = value_cmp c (val a) (val b)"
proof -
  have sz: "0 \<le> mn m \<and> mn m \<le> int (length (zmem m))" if "storable m" "\<not> has m MEM_Null" "\<not> has m MEM_Int" "\<not> has m MEM_Real" for m
    using that by (simp add: storable_def has_or)
  have num: "num_less x y = d_less (if has x MEM_Real then mr x else d_of_i64 (mi x)) (if has y MEM_Real then mr y else d_of_i64 (mi y))" for x y
    by (simp add: num_less_def)
  have bc: "blob_compare a b = bytes_cmp (content a) (content b)"
    if "\<not> has a MEM_Null" "\<not> has a MEM_Int" "\<not> has a MEM_Real" "\<not> has b MEM_Null" "\<not> has b MEM_Int" "\<not> has b MEM_Real"
    by (rule blob_compare_content) (use sz assms(3,4) that in auto)
  show ?thesis
    by (rule read_has [OF assms(1)]; rule read_has [OF assms(2)])
      (use bc assms(5-7) in \<open>simp_all add: sqlite3MemCompare_def has_or num d_cmp_def split: option.splits\<close>)
qed

subsection \<open>Comparing records\<close>

abbreviation hdr :: "int \<Rightarrow> Mem list \<Rightarrow> bytes" where
  "hdr ff ms \<equiv> concat (map (\<lambda>m. varint_bytes (ucast (sqlite3VdbeSerialType m ff))) ms)"

abbreviation dat :: "int \<Rightarrow> Mem list \<Rightarrow> bytes" where
  "dat ff ms \<equiv> concat (map (\<lambda>m. sqlite3VdbeSerialPut m ff) ms)"

lemma hdr_length: "length (hdr ff ms) = snd (record_sizes ff ms)"
  by (induction ms) (simp_all add: record_sizes_def varint_bytes_length)

text \<open>The first pair of fields that differ: the outcome, its number, and the fields left.\<close>

fun fields_cmp :: "KeyInfo \<Rightarrow> nat \<Rightarrow> Mem list \<Rightarrow> Mem list \<Rightarrow> int \<times> nat \<times> Mem list \<times> Mem list" where
  "fields_cmp k i (a # as) (b # bs) =
     (let r = value_cmp (field_coll k i) (val a) (val b)
      in if r \<noteq> 0 then (r, i, as, bs) else fields_cmp k (i + 1) as bs)"
| "fields_cmp k i as bs = (0, i, as, bs)"

definition coll_ok :: "KeyInfo \<Rightarrow> bool" where
  "coll_ok k \<longleftrightarrow> (\<forall>i < nField k. \<forall>c. aColl k ! i = Some c \<longrightarrow> cenc c = kenc k)"

lemma compare_fields_eq:
  assumes "coll_ok k" "list_all storable as" "list_all storable bs"
    "key1 = pre1 @ hdr ff as @ mid1 @ dat ff as" "key2 = pre2 @ hdr ff bs @ mid2 @ dat ff bs"
    "sz1 = length (pre1 @ hdr ff as)" "sz2 = length (pre2 @ hdr ff bs)"
  shows "compare_fields k key1 key2 sz1 sz2 i (length pre1) (length pre2) (sz1 + length mid1) (sz2 + length mid2) =
    (case fields_cmp k i as bs of (r, j, as', bs') \<Rightarrow>
       (r, j, length key1 - length (dat ff as'), length key2 - length (dat ff bs')))"
  using assms
proof (induction as arbitrary: bs pre1 pre2 mid1 mid2 i)
  case Nil
  then show ?case by (subst compare_fields.simps) simp
next
  case (Cons a as)
  show ?case
  proof (cases bs)
    case Nil
    then show ?thesis using Cons.prems by (subst compare_fields.simps) simp
  next
    case bs: (Cons b bs')
    have st: "storable a" "storable b" using Cons.prems bs by auto
    let ?ta = "sqlite3VdbeSerialType a ff" and ?tb = "sqlite3VdbeSerialType b ff"
    define va vb where "va = varint_bytes (ucast ?ta)" and "vb = varint_bytes (ucast ?tb)"
    define pa pb where "pa = sqlite3VdbeSerialPut a ff" and "pb = sqlite3VdbeSerialPut b ff"
    have len: "length va = sqlite3VarintLen (ucast ?ta)" "length vb = sqlite3VarintLen (ucast ?tb)" "0 < length va" "0 < length vb"
      using varint_len_pos by (simp_all add: va_def vb_def varint_bytes_length)
    have k1: "key1 = pre1 @ va @ hdr ff as @ mid1 @ pa @ dat ff as"
      and k2: "key2 = pre2 @ vb @ hdr ff bs' @ mid2 @ pb @ dat ff bs'"
      using Cons.prems bs by (simp_all add: va_def vb_def pa_def pb_def)
    have sz: "sz1 = length pre1 + length va + length (hdr ff as)" "sz2 = length pre2 + length vb + length (hdr ff bs')"
      using Cons.prems bs by (simp_all add: va_def vb_def)
    have g1: "GetVarint key1 (length pre1) = (length va, ?ta)" and g2: "GetVarint key2 (length pre2) = (length vb, ?tb)"
      unfolding k1 k2 va_def vb_def read_varint by (simp_all add: varint_bytes_length)
    have d: "drop (sz1 + length mid1) key1 = pa @ dat ff as" "drop (sz2 + length mid2) key2 = pb @ dat ff bs'"
      unfolding k1 k2 sz by (simp_all del: length_concat)
    obtain m1 where m1: "sqlite3VdbeSerialGet (pa @ dat ff as) ?ta (empty_cell (kenc k)) = (m1, sqlite3VdbeSerialTypeLen ?ta)"
      "val m1 = val a" "menc m1 = kenc k" "length pa = sqlite3VdbeSerialTypeLen ?ta" "storable m1" "mflags m1 \<in> read_flags"
      using read_back [OF st(1), of ff "dat ff as" "empty_cell (kenc k)"] by (auto simp: pa_def empty_cell_def)
    obtain m2 where m2: "sqlite3VdbeSerialGet (pb @ dat ff bs') ?tb (empty_cell (kenc k)) = (m2, sqlite3VdbeSerialTypeLen ?tb)"
      "val m2 = val b" "menc m2 = kenc k" "length pb = sqlite3VdbeSerialTypeLen ?tb" "storable m2" "mflags m2 \<in> read_flags"
      using read_back [OF st(2), of ff "dat ff bs'" "empty_cell (kenc k)"] by (auto simp: pb_def empty_cell_def)
    have cmp: "sqlite3MemCompare (\<lambda>_. True) m1 m2 (field_coll k i) = value_cmp (field_coll k i) (val a) (val b)"
      using compare_read [OF m1(6) m2(6) m1(5) m2(5) m1(3) m2(3), of "field_coll k i"] Cons.prems(1) m1(2) m2(2)
      by (auto simp: coll_ok_def field_coll_def split: if_splits)
    have nb: "\<not> (sz1 + length mid1 \<ge> length key1 \<and> sqlite3VdbeSerialTypeLen ?ta > 0)"
      "\<not> (sz2 + length mid2 \<ge> length key2 \<and> sqlite3VdbeSerialTypeLen ?tb > 0)"
      using m1(4) m2(4) unfolding k1 k2 sz by (auto simp del: length_concat)
    have lt: "length pre1 < sz1 \<and> length pre2 < sz2" using len sz by simp
    have mx: "max 1 (length va) = length va" using len(3) by linarith
    have step: "compare_fields k key1 key2 sz1 sz2 i (length pre1) (length pre2) (sz1 + length mid1) (sz2 + length mid2) =
      (if value_cmp (field_coll k i) (val a) (val b) \<noteq> 0
       then (value_cmp (field_coll k i) (val a) (val b), i, sz1 + length (mid1 @ pa), sz2 + length (mid2 @ pb))
       else compare_fields k key1 key2 sz1 sz2 (i + 1) (length (pre1 @ va)) (length (pre2 @ vb)) (sz1 + length (mid1 @ pa)) (sz2 + length (mid2 @ pb)))"
      using m1(4) m2(4)
      by (subst compare_fields.simps)
        (simp only: if_P [OF lt] Let_def g1 g2 prod.case if_not_P [OF nb(1)] if_not_P [OF nb(2)] d m1(1) m2(1) cmp mx,
         simp add: add.assoc)
    have rest: "compare_fields k key1 key2 sz1 sz2 (i + 1) (length (pre1 @ va)) (length (pre2 @ vb)) (sz1 + length (mid1 @ pa)) (sz2 + length (mid2 @ pb)) =
      (case fields_cmp k (i + 1) as bs' of (r, j, as', bs') \<Rightarrow>
         (r, j, length key1 - length (dat ff as'), length key2 - length (dat ff bs')))"
      by (rule Cons.IH) (use Cons.prems bs k1 k2 sz in \<open>simp_all del: length_concat\<close>)
    have e: "sz1 + length (mid1 @ pa) = length key1 - length (dat ff as)" "sz2 + length (mid2 @ pb) = length key2 - length (dat ff bs')"
      unfolding k1 k2 sz by (simp_all del: length_concat)
    show ?thesis unfolding step rest bs using e by (simp add: Let_def)
  qed
qed

lemma fields_cmp_suffix:
  "fields_cmp k i as bs = (r, j, as', bs') \<Longrightarrow> (\<exists>xs. as = xs @ as') \<and> (\<exists>ys. bs = ys @ bs')"
proof (induction k i as bs rule: fields_cmp.induct)
  case (1 k i a as b bs)
  then show ?case by (auto simp: Let_def split: if_splits)
qed auto

text \<open>The specification of a comparison of records.\<close>

definition record_cmp :: "KeyInfo \<Rightarrow> int \<Rightarrow> Mem list \<Rightarrow> Mem list \<Rightarrow> int" where
  "record_cmp k ff as bs =
     (case fields_cmp k 0 as bs of (r, i, as', bs') \<Rightarrow>
        if r \<noteq> 0 then (if (\<exists>d. aSortOrder k = Some d \<and> i < nField k \<and> d ! i) then - r else r)
        else if incrKey k then - 1 else if dat ff as' \<noteq> [] then 1 else if dat ff bs' \<noteq> [] then - 1 else 0)"

definition record_small :: "int \<Rightarrow> Mem list \<Rightarrow> bool" where
  "record_small ff ms \<longleftrightarrow> snd (record_sizes ff ms) < 2 ^ 30"

lemma header_read:
  assumes "n < 2 ^ 31"
  shows "GetVarint (varint_bytes (of_nat (header_size n)) @ rest) 0 = (sqlite3VarintLen (of_nat (header_size n)), of_nat (header_size n))"
    "unat (of_nat (header_size n) :: u32) = header_size n"
proof -
  have lt: "header_size n < 2 ^ 32" using header_size_fix(2) [OF assms] by simp
  then show u: "unat (of_nat (header_size n) :: u32) = header_size n" by (simp add: unat_of_nat take_bit_nat_eq_self)
  have "(of_nat (header_size n) :: u64) = ucast (of_nat (header_size n) :: u32)"
    using lt u by (simp add: word_unat_eq_iff unat_of_nat take_bit_nat_eq_self unsigned_ucast_eq)
  then show "GetVarint (varint_bytes (of_nat (header_size n)) @ rest) 0 = (sqlite3VarintLen (of_nat (header_size n)), of_nat (header_size n))"
    using read_varint [of "[]" "of_nat (header_size n) :: u32" rest] by simp
qed

lemma record_form:
  assumes "record_small ff ms"
  obtains h where "record_bytes ff ms None = h @ hdr ff ms @ dat ff ms"
    "\<And>rest. GetVarint (h @ rest) 0 = (length h, of_nat (length (h @ hdr ff ms)))"
    "unat (of_nat (length (h @ hdr ff ms)) :: u32) = length (h @ hdr ff ms)"
proof -
  define n where "n = snd (record_sizes ff ms)"
  have n: "n < 2 ^ 31" using assms by (simp add: record_small_def n_def)
  let ?h = "varint_bytes (of_nat (header_size n))"
  have l: "length (?h @ hdr ff ms) = header_size n"
    using header_size_fix(1) [OF n] by (simp add: varint_bytes_length hdr_length n_def del: length_concat)
  show thesis
  proof
    show "record_bytes ff ms None = ?h @ hdr ff ms @ dat ff ms" by (simp add: record_bytes_def n_def)
    show "GetVarint (?h @ rest) 0 = (length ?h, of_nat (length (?h @ hdr ff ms)))" for rest
      unfolding l header_read(1) [OF n] by (simp add: varint_bytes_length)
    show "unat (of_nat (length (?h @ hdr ff ms)) :: u32) = length (?h @ hdr ff ms)"
      unfolding l by (rule header_read(2) [OF n])
  qed
qed

lemma record_compare_eq:
  assumes "coll_ok k" "list_all storable as" "list_all storable bs" "record_small ff as" "record_small ff bs"
  shows "sqlite3VdbeRecordCompare k (record_bytes ff as None) (record_bytes ff bs None) = record_cmp k ff as bs"
proof -
  obtain h1 where h1: "record_bytes ff as None = h1 @ hdr ff as @ dat ff as"
    "\<And>rest. GetVarint (h1 @ rest) 0 = (length h1, of_nat (length (h1 @ hdr ff as)))"
    "unat (of_nat (length (h1 @ hdr ff as)) :: u32) = length (h1 @ hdr ff as)"
    using record_form [OF assms(4)] by metis
  obtain h2 where h2: "record_bytes ff bs None = h2 @ hdr ff bs @ dat ff bs"
    "\<And>rest. GetVarint (h2 @ rest) 0 = (length h2, of_nat (length (h2 @ hdr ff bs)))"
    "unat (of_nat (length (h2 @ hdr ff bs)) :: u32) = length (h2 @ hdr ff bs)"
    using record_form [OF assms(5)] by metis
  obtain r i as' bs' where f: "fields_cmp k 0 as bs = (r, i, as', bs')" by (metis prod_cases4)
  have le: "length (dat ff as') \<le> length (dat ff as)" "length (dat ff bs') \<le> length (dat ff bs)"
    using fields_cmp_suffix [OF f] by auto
  have c: "compare_fields k (record_bytes ff as None) (record_bytes ff bs None) (length (h1 @ hdr ff as)) (length (h2 @ hdr ff bs)) 0
      (length h1) (length h2) (length (h1 @ hdr ff as)) (length (h2 @ hdr ff bs)) =
    (r, i, length (record_bytes ff as None) - length (dat ff as'), length (record_bytes ff bs None) - length (dat ff bs'))"
    using compare_fields_eq [OF assms(1-3), of _ h1 ff "[]" _ h2 "[]" _ _ 0] h1(1) h2(1) f by simp
  have g: "GetVarint (record_bytes ff as None) 0 = (length h1, of_nat (length (h1 @ hdr ff as)))"
    "GetVarint (record_bytes ff bs None) 0 = (length h2, of_nat (length (h2 @ hdr ff bs)))"
    unfolding h1(1) h2(1) h1(2) h2(2) by (rule refl)+
  have lt: "length (record_bytes ff as None) - length (dat ff as') < length (record_bytes ff as None) \<longleftrightarrow> dat ff as' \<noteq> []"
    "length (record_bytes ff bs None) - length (dat ff bs') < length (record_bytes ff bs None) \<longleftrightarrow> dat ff bs' \<noteq> []"
    unfolding h1(1) h2(1) using le by (auto simp del: length_concat concat_eq_Nil_conv simp flip: length_greater_0_conv)
  show ?thesis
    unfolding sqlite3VdbeRecordCompare_def g Let_def prod.case h1(3) h2(3) c record_cmp_def f lt
    by (auto split: option.split)
qed

subsection \<open>Properties\<close>

text \<open>
  \<bold>\<open>C31\<close> A value that is written in the record format and read back is the same value: NULL,
  every 64-bit integer in the smallest of its formats, every double, text and blob. The
  writer makes, and the reader consumes, exactly the bytes the serial type announces.
\<close>

theorem serial_roundtrip:
  assumes "storable m"
  shows "\<exists>m'. sqlite3VdbeSerialGet (sqlite3VdbeSerialPut m ff @ rest) (sqlite3VdbeSerialType m ff) m0 =
      (m', length (sqlite3VdbeSerialPut m ff)) \<and> val m' = val m \<and>
      length (sqlite3VdbeSerialPut m ff) = sqlite3VdbeSerialTypeLen (sqlite3VdbeSerialType m ff)"
  using read_back [OF assms, of ff rest m0] by auto

definition int_cell :: "i64 \<Rightarrow> Mem" where
  "int_cell i = (empty_cell SQLITE_UTF8)\<lparr>mi := i, mflags := MEM_Int\<rparr>"

definition text_cell :: "bytes \<Rightarrow> Mem" where
  "text_cell z = (empty_cell SQLITE_UTF8)\<lparr>mz := ZBuf z, mn := int (length z), mflags := MEM_Str OR MEM_Static\<rparr>"

definition real_cell :: "u64 \<Rightarrow> Mem" where
  "real_cell r = (empty_cell SQLITE_UTF8)\<lparr>mr := r, mflags := MEM_Real\<rparr>"

definition null_cell :: Mem where
  "null_cell = (empty_cell SQLITE_UTF8)\<lparr>mflags := MEM_Null\<rparr>"

lemma cells_storable [simp]: "storable (int_cell i)" "storable null_cell" "storable (real_cell r)"
  "length z < 2 ^ 30 \<Longrightarrow> storable (text_cell z)"
  by (simp_all add: storable_def has_or int_cell_def null_cell_def real_cell_def text_cell_def zmem_def)
    (simp_all add: mem_flags)

lemma cells_val [simp]: "val (int_cell i) = VInt (sint i)" "val null_cell = VNull" "val (real_cell r) = VReal r"
  "val (text_cell z) = VText z"
  by (simp_all add: val_def int_cell_def null_cell_def real_cell_def text_cell_def content_def zmem_def) (simp_all add: mem_flags)

theorem serial_roundtrip_witness:
  "\<exists>m'. sqlite3VdbeSerialGet (sqlite3VdbeSerialPut (int_cell (- 300)) 4 @ [7]) (sqlite3VdbeSerialType (int_cell (- 300)) 4) (empty_cell 1) =
      (m', length (sqlite3VdbeSerialPut (int_cell (- 300)) 4)) \<and> val m' = VInt (- 300)"
  using serial_roundtrip [of "int_cell (- 300)" 4 "[7]" "empty_cell 1"] by auto


definition no_keys :: KeyInfo where
  "no_keys = \<lparr>kenc = SQLITE_UTF8, incrKey = False, nField = 0, aSortOrder = None, aColl = []\<rparr>"

lemma small_cells: "record_small ff ms" if "length ms < 1000"
proof -
  have "snd (record_sizes ff ms) \<le> 5 * length ms"
    by (induction ms) (use varint_len_32 in \<open>auto simp: record_sizes_def add_mono\<close>)
  then show ?thesis using that by (simp add: record_small_def)
qed


lemma rowid_type:
  assumes "\<not> has r MEM_Null" "has r MEM_Int"
  obtains n t where "sqlite3VdbeSerialType r 0 = t" "(t, n) \<in> {(1, 1), (2, 2), (3, 3), (4, 4), (5, 6), (6, 8)}"
    "fits_signed (8 * n) (mi r)" "sqlite3VdbeSerialPut r 0 = put_be n (mi r)" "sqlite3VdbeSerialTypeLen t = n"
    "sqlite3VarintLen (ucast t) = 1"
proof (cases rule: int_type_cases [OF assms, of 0])
  case (2 n t)
  have l: "sqlite3VdbeSerialTypeLen t = n" "t \<le> 7 \<and> t > 0 \<and> t \<noteq> 7" using 2(2) by (auto simp: serial_len)
  have "unat (ucast t :: u64) < 128 ^ 1" using 2(2) by auto
  then have "sqlite3VarintLen (ucast t) = 1" using varint_len_le [of 1 "ucast t"] varint_len_pos [of "ucast t"] by linarith
  moreover have "sqlite3VdbeSerialPut r 0 = put_be n (mi r)"
    unfolding sqlite3VdbeSerialPut_def 2(1) using l by (simp add: Let_def)
  ultimately show thesis using that 2 l(1) by blast
qed simp

lemma from_btree:
  obtains z where "sqlite3VdbeMemFromBtree True SQLITE_OK p available 0 (length p) m =
    (fst (sqlite3VdbeMemFromBtree True SQLITE_OK p available 0 (length p) m), SQLITE_OK)"
    "zmem (fst (sqlite3VdbeMemFromBtree True SQLITE_OK p available 0 (length p) m)) = p @ z"
    "mn (fst (sqlite3VdbeMemFromBtree True SQLITE_OK p available 0 (length p) m)) = int (length p)"
  by (rule that [of "drop (length p) (zmem (fst (sqlite3VdbeMemFromBtree True SQLITE_OK p available 0 (length p) m)))"])
    (auto simp: sqlite3VdbeMemFromBtree_def Let_def zmem_def put_short_def)

text \<open>
  \<bold>\<open>C33\<close> The rowid at the end of an index entry is read back: \<^verbatim>\<open>sqlite3VdbeIdxRowid\<close> returns the
  integer that \<^verbatim>\<open>OP_MakeIdxRec\<close> appended, and \<^verbatim>\<open>sqlite3VdbeIdxRowidLen\<close> its length, whatever the
  other fields are and however much of the entry is on the cursor's own page; an error in
  reading the entry is passed on.
\<close>

theorem index_rowid_roundtrip:
  assumes "record_small ff ms" "\<not> has r MEM_Null" "has r MEM_Int"
  shows "sqlite3VdbeIdxRowid True SQLITE_OK available (record_bytes ff ms (Some r)) = Inl (mi r) \<and>
    sqlite3VdbeIdxRowidLen (record_bytes ff ms (Some r)) = length (sqlite3VdbeSerialPut r 0) \<and>
    (rd \<noteq> SQLITE_OK \<and> available < length (record_bytes ff ms (Some r)) \<longrightarrow>
       sqlite3VdbeIdxRowid True rd available (record_bytes ff ms (Some r)) = Inr rd)"
proof -
  obtain n t where t: "sqlite3VdbeSerialType r 0 = t" "(t, n) \<in> {(1, 1), (2, 2), (3, 3), (4, 4), (5, 6), (6, 8)}"
    "fits_signed (8 * n) (mi r)" "sqlite3VdbeSerialPut r 0 = put_be n (mi r)" "sqlite3VdbeSerialTypeLen t = n"
    "sqlite3VarintLen (ucast t) = 1" by (rule rowid_type [OF assms(2,3)])
  define k where "k = snd (record_sizes ff ms) + 1"
  define h where "h = varint_bytes (of_nat (header_size k))"
  have k: "k < 2 ^ 31" using assms(1) by (simp add: record_small_def k_def)
  let ?b = "record_bytes ff ms (Some r)"
  have e: "?b = h @ hdr ff ms @ varint_bytes (ucast t) @ dat ff ms @ put_be n (mi r)"
    by (simp add: record_bytes_def t(1,4,6) k_def h_def)
  have l: "length (h @ hdr ff ms) = header_size k - 1" "0 < header_size k"
    using header_size_fix(1) [OF k] by (simp_all add: h_def varint_bytes_length hdr_length k_def del: length_concat)
  have sz: "unat (snd (sqlite3GetVarint32 (cat (?b @ z)))) = header_size k" for z
    using header_read [OF k] GetVarint_32 [of "?b @ z" 0, symmetric] unfolding e h_def by simp
  have "GetVarint (?b @ z) (header_size k - 1) = (sqlite3VarintLen (ucast t), t)" for z
    unfolding e using read_varint [of "h @ hdr ff ms" t "dat ff ms @ put_be n (mi r) @ z", unfolded l(1)] by (simp only: append_assoc)
  then have ty: "snd (sqlite3GetVarint32 (\<lambda>j. cat (?b @ z) (header_size k - 1 + j))) = t" for z
    by (simp only: GetVarint_32 snd_conv)
  have ne: "?b \<noteq> []"
  proof -
    have "0 < length h" by (simp add: h_def varint_bytes_length varint_len_pos)
    then show ?thesis unfolding e by simp
  qed
  have dr: "drop (length ?b - n) (?b @ z) = put_be n (mi r) @ z" for z
    unfolding e by (simp del: length_concat)
  have len: "sqlite3VdbeIdxRowidLen ?b = n"
    using sz [of "[]"] ty [of "[]"] t(5) unfolding sqlite3VdbeIdxRowidLen_def append_Nil2 Let_def by simp
  obtain z where z: "sqlite3VdbeMemFromBtree True SQLITE_OK ?b available 0 (length ?b) (empty_cell 0) =
      (fst (sqlite3VdbeMemFromBtree True SQLITE_OK ?b available 0 (length ?b) (empty_cell 0)), SQLITE_OK)"
    "zmem (fst (sqlite3VdbeMemFromBtree True SQLITE_OK ?b available 0 (length ?b) (empty_cell 0))) = ?b @ z"
    "mn (fst (sqlite3VdbeMemFromBtree True SQLITE_OK ?b available 0 (length ?b) (empty_cell 0))) = int (length ?b)"
    by (rule from_btree)
  have "sqlite3VdbeIdxRowid True SQLITE_OK available ?b = Inl (mi r)"
    unfolding sqlite3VdbeIdxRowid_def using ne get_int [OF t(2,3), of z "empty_cell 0"]
    by (subst z(1), simp only: ne if_False prod.case simp_thms Let_def z(2,3) sz ty t(5) nat_int dr) simp
  moreover have "sqlite3VdbeIdxRowid True rd available ?b = Inr rd" if "rd \<noteq> SQLITE_OK" "available < length ?b"
    using ne that by (simp add: sqlite3VdbeIdxRowid_def sqlite3VdbeMemFromBtree_def Let_def)
  ultimately show ?thesis using len t(4) by simp
qed

theorem index_rowid_roundtrip_witness:
  "sqlite3VdbeIdxRowid True SQLITE_OK 0 (record_bytes 4 [text_cell [97]] (Some (int_cell (- 2)))) = Inl (- 2)"
  using index_rowid_roundtrip [of 4 "[text_cell [97]]" "int_cell (- 2)" 0]
  by (simp add: small_cells int_cell_def has_def mem_flags)

text \<open>
  \<bold>\<open>C34\<close> The order of numbers is not transitive: an integer is compared with a double by rounding
  it to a double, but two integers are compared exactly. Of the records with \<open>2 ^ 53\<close>, the
  double \<open>2 ^ 53\<close> and \<open>2 ^ 53 + 1\<close> each is equal to the next, and the first is less than the last.
\<close>

theorem compare_not_transitive:
  "sqlite3MemCompare (\<lambda>_. True) (int_cell 0x20000000000000) (real_cell 0x4340000000000000) None = 0 \<and>
   sqlite3MemCompare (\<lambda>_. True) (real_cell 0x4340000000000000) (int_cell 0x20000000000001) None = 0 \<and>
   sqlite3MemCompare (\<lambda>_. True) (int_cell 0x20000000000000) (int_cell 0x20000000000001) None = - 1"
proof -
  have c: "mflags (int_cell i) \<in> read_flags" "mflags (real_cell r) \<in> read_flags" "menc (int_cell i) = SQLITE_UTF8" "menc (real_cell r) = SQLITE_UTF8" for i r
    by (simp_all add: int_cell_def real_cell_def empty_cell_def)
  have b: "bitlen n = (if n = 0 then 0 else Suc (bitlen (n div 2)))" for n by (rule bitlen.simps)
  have "bitlen 0x20000000000000 = 54" "bitlen 0x20000000000001 = 54"
    by (simp_all add: bitlen.simps)
  then have d: "d_of_i64 (of_int 9007199254740992) = 0x4340000000000000" "d_of_i64 (of_int 9007199254740993) = 0x4340000000000000"
    by (simp_all add: d_of_i64_def d_of_nat_def Let_def)
  have cmp: "sqlite3MemCompare (\<lambda>_. True) a b None = value_cmp None (val a) (val b)"
    if "a \<in> range int_cell \<union> range real_cell" "b \<in> range int_cell \<union> range real_cell" for a b
    by (rule compare_read [of _ _ SQLITE_UTF8]) (use that c in auto)
  show ?thesis
    using d by (simp add: cmp d_cmp_def d_less_def)
qed

end
