(* ===== verification/BtPage.thy ===== *)
theory BtPage
  imports Varint UnixLock
begin

text \<open>
  The pages of the b-tree, \<^verbatim>\<open>btree.c\<close>: parsing of cells, allocation of space on a page, insertion
  and removal of cells, and initialisation of pages. A page is a record \<open>MemPage\<close>; its content
  is a memory. Offsets are natural numbers. A function whose loop may not end on a corrupt
  page, or that would write in front of the page, has the result \<open>None\<close> there. The argument
  \<open>ok\<close> of an operation says whether the memory it asks for is there.
\<close>

unbundle bit_operations_syntax

subsection \<open>Integers in a page\<close>

definition get2byte :: "mem \<Rightarrow> nat \<Rightarrow> nat" where
  "get2byte d p = unat (shl (ucast (d p)) 8 OR ucast (d (p + 1)) :: u32)"

definition get4byte :: "mem \<Rightarrow> nat \<Rightarrow> u32" where
  "get4byte d p = shl (ucast (d p)) 24 OR shl (ucast (d (p + 1))) 16 OR shl (ucast (d (p + 2))) 8 OR ucast (d (p + 3))"

definition put2byte :: "mem \<Rightarrow> nat \<Rightarrow> nat \<Rightarrow> mem" where
  "put2byte d p v = d(p := of_nat (v div 256), p + 1 := of_nat v)"

definition put4byte :: "mem \<Rightarrow> nat \<Rightarrow> u32 \<Rightarrow> mem" where
  "put4byte d p v = d(p := ucast (shr v 24), p + 1 := ucast (shr v 16), p + 2 := ucast (shr v 8), p + 3 := ucast v)"

definition getVarint32 :: "mem \<Rightarrow> nat \<times> u32" where
  "getVarint32 a = (if a 0 \<le> 0x7f then (1, ucast (a 0)) else sqlite3GetVarint32 a)"

text \<open>\<^verbatim>\<open>memcpy\<close> and \<^verbatim>\<open>memset\<close>, and the memory from an offset on.\<close>

definition blit :: "mem \<Rightarrow> nat \<Rightarrow> mem \<Rightarrow> nat \<Rightarrow> nat \<Rightarrow> mem" where
  "blit d p s q n = (\<lambda>i. if p \<le> i \<and> i < p + n then s (q + (i - p)) else d i)"

definition fill :: "mem \<Rightarrow> nat \<Rightarrow> nat \<Rightarrow> u8 \<Rightarrow> mem" where
  "fill d p n c = (\<lambda>i. if p \<le> i \<and> i < p + n then c else d i)"

abbreviation at :: "mem \<Rightarrow> nat \<Rightarrow> mem" where "at d p \<equiv> (\<lambda>i. d (p + i))"

subsection \<open>Pages and cells\<close>

abbreviation PTF_INTKEY :: u8 where "PTF_INTKEY \<equiv> 0x01"
abbreviation PTF_ZERODATA :: u8 where "PTF_ZERODATA \<equiv> 0x02"
abbreviation PTF_LEAFDATA :: u8 where "PTF_LEAFDATA \<equiv> 0x04"
abbreviation PTF_LEAF :: u8 where "PTF_LEAF \<equiv> 0x08"

record BtShared =
  autoVacuum :: bool
  pageSize :: nat
  usableSize :: nat
  bt_maxLocal :: nat
  bt_minLocal :: nat
  maxLeaf :: nat
  minLeaf :: nat

record MemPage =
  isInit :: bool
  idxShift :: bool
  intKey :: bool
  leaf :: bool
  zeroData :: bool
  leafData :: bool
  hasData :: bool
  hdrOffset :: nat
  childPtrSize :: nat
  maxLocal :: nat
  minLocal :: nat
  cellOffset :: nat
  nFree :: nat
  nCell :: nat
  aOvfl :: "(mem \<times> nat) list"
  aData :: mem
  pgno :: u32
  pParent :: "u32 option"

record CellInfo =
  nKey :: u64
  nData :: u32
  nHeader :: nat
  nLocal :: nat
  iOverflow :: nat
  nSize :: nat

definition findCell :: "MemPage \<Rightarrow> nat \<Rightarrow> nat" where
  "findCell p i = get2byte (aData p) (cellOffset p + 2 * i)"

text \<open>The list of overflow cells is searched from its end.\<close>

fun find_ovfl :: "(mem \<times> nat) list \<Rightarrow> nat \<Rightarrow> mem + nat" where
  "find_ovfl [] i = Inr i"
| "find_ovfl ((c, k) # os) i = (if k \<le> i then if k = i then Inl c else find_ovfl os (i - 1) else find_ovfl os i)"

definition findOverflowCell :: "MemPage \<Rightarrow> nat \<Rightarrow> mem" where
  "findOverflowCell p i =
     (case find_ovfl (rev (aOvfl p)) i of Inl c \<Rightarrow> c | Inr j \<Rightarrow> at (aData p) (findCell p j))"

definition parseCellPtr :: "BtShared \<Rightarrow> MemPage \<Rightarrow> mem \<Rightarrow> CellInfo" where
  "parseCellPtr bt p c =
     (let n0 = childPtrSize p;
          (l1, nPayload0) = (if hasData p then getVarint32 (at c n0) else (0, 0));
          n1 = n0 + l1;
          (l2, key, nPayload) =
            (if intKey p then (case sqlite3GetVarint (at c n1) of (l, k) \<Rightarrow> (l, k, nPayload0))
             else (case getVarint32 (at c n1) of (l, x) \<Rightarrow> (l, ucast x, nPayload0 + x)));
          n = n1 + l2
      in if unat nPayload \<le> maxLocal p then
           (let size = unat nPayload + n
            in \<lparr>nKey = key, nData = nPayload0, nHeader = n, nLocal = unat nPayload, iOverflow = 0,
                 nSize = (if size < 4 then 4 else size) mod 65536\<rparr>)
         else
           (let surplus = minLocal p + unat (nPayload - of_nat (minLocal p)) mod (usableSize bt - 4);
                local = (if surplus \<le> maxLocal p then surplus else minLocal p)
            in \<lparr>nKey = key, nData = nPayload0, nHeader = n, nLocal = local, iOverflow = local + n,
                 nSize = (local + n + 4) mod 65536\<rparr>))"

definition parseCell :: "BtShared \<Rightarrow> MemPage \<Rightarrow> nat \<Rightarrow> CellInfo" where
  "parseCell bt p i = parseCellPtr bt p (at (aData p) (findCell p i))"

definition cellSizePtr :: "BtShared \<Rightarrow> MemPage \<Rightarrow> mem \<Rightarrow> nat" where
  "cellSizePtr bt p c = nSize (parseCellPtr bt p c)"

definition cellSize :: "BtShared \<Rightarrow> MemPage \<Rightarrow> nat \<Rightarrow> nat" where
  "cellSize bt p i = nSize (parseCell bt p i)"

subsection \<open>Space on a page\<close>

text \<open>The cells from \<open>i\<close> on are moved to the end; \<open>size_of\<close> is the size of the cell in the copy.\<close>

fun defrag_loop :: "(mem \<Rightarrow> nat) \<Rightarrow> mem \<Rightarrow> nat \<Rightarrow> nat list \<Rightarrow> mem \<Rightarrow> nat \<Rightarrow> (mem \<times> nat) option" where
  "defrag_loop size_of temp co [] d brk = Some (d, brk)"
| "defrag_loop size_of temp co (i # is) d brk =
     (let pc = get2byte d (co + 2 * i); size = size_of (at temp pc)
      in if brk < size then None
         else defrag_loop size_of temp co is (put2byte (blit d (brk - size) temp pc size) (co + 2 * i) (brk - size)) (brk - size))"

definition defragmentPage :: "BtShared \<Rightarrow> bool \<Rightarrow> MemPage \<Rightarrow> (MemPage \<times> rc) option" where
  "defragmentPage bt ok p =
     (if \<not> ok then Some (p, SQLITE_NOMEM)
      else
        (let d = aData p; hdr = hdrOffset p; co = cellOffset p; n = nCell p; brk = get2byte d (hdr + 5);
             temp = blit (\<lambda>_. 0) brk d brk (usableSize bt - brk)
         in case defrag_loop (cellSizePtr bt p) temp co [0..<n] d (usableSize bt) of
              None \<Rightarrow> None
            | Some (d, brk) \<Rightarrow>
                (let d = (put2byte d (hdr + 5) brk)(hdr + 1 := 0, hdr + 2 := 0, hdr + 7 := 0); a = co + 2 * n
                 in Some (p\<lparr>aData := fill d a (brk - a) 0\<rparr>, SQLITE_OK))))"

text \<open>The search for a free block: the memory afterwards and the place, if there is one.\<close>

partial_function (option) free_search :: "mem \<Rightarrow> nat \<Rightarrow> nat \<Rightarrow> nat \<Rightarrow> nat \<Rightarrow> (mem \<times> nat option) option" where
  "free_search d hdr nFrag nByte addr =
     (let pc = get2byte d addr
      in if pc > 0 then
           (let size = get2byte d (pc + 2)
            in if size \<ge> nByte then
                 (if size < nByte + 4
                  then Some ((blit d addr d pc 2)(hdr + 7 := of_nat (nFrag + size - nByte)), Some pc)
                  else Some (put2byte d (pc + 2) (size - nByte), Some (pc + size - nByte)))
               else free_search d hdr nFrag nByte pc)
         else Some (d, None))"

definition allocateSpace :: "BtShared \<Rightarrow> bool \<Rightarrow> MemPage \<Rightarrow> nat \<Rightarrow> (MemPage \<times> nat) option" where
  "allocateSpace bt ok p nByte0 =
     (let nByte = (if nByte0 < 4 then 4 else nByte0)
      in if nFree p < nByte \<or> aOvfl p \<noteq> [] then Some (p, 0)
         else
           (let p = p\<lparr>nFree := nFree p - nByte\<rparr>; hdr = hdrOffset p; nFrag = unat (aData p (hdr + 7))
            in case (if nFrag < 60 then free_search (aData p) hdr nFrag nByte (hdr + 1) else Some (aData p, None)) of
                 None \<Rightarrow> None
               | Some (d, Some a) \<Rightarrow> Some (p\<lparr>aData := d\<rparr>, a)
               | Some (d, None) \<Rightarrow>
                   (let p = p\<lparr>aData := d\<rparr>; top = get2byte d (hdr + 5); n = get2byte d (hdr + 3)
                    in case (if nFrag \<ge> 60 \<or> cellOffset p + 2 * n + nByte > top then defragmentPage bt ok p else Some (p, SQLITE_OK)) of
                         None \<Rightarrow> None
                       | Some (p, r) \<Rightarrow>
                           (if r \<noteq> SQLITE_OK then Some (p, 0)
                            else (let top = get2byte (aData p) (hdr + 5) - nByte
                                  in Some (p\<lparr>aData := put2byte (aData p) (hdr + 5) top\<rparr>, top))))))"

partial_function (option) free_place :: "mem \<Rightarrow> nat \<Rightarrow> nat \<Rightarrow> (nat \<times> nat) option" where
  "free_place d start addr =
     (let pbegin = get2byte d addr
      in if pbegin < start \<and> pbegin > 0 then free_place d start pbegin else Some (addr, pbegin))"

partial_function (option) coalesce :: "mem \<Rightarrow> nat \<Rightarrow> nat \<Rightarrow> mem option" where
  "coalesce d hdr addr =
     (let pbegin = get2byte d addr
      in if pbegin > 0 then
           (let pnext = get2byte d pbegin; psize = get2byte d (pbegin + 2)
            in if pbegin + psize + 3 \<ge> pnext \<and> pnext > 0 then
                 (let d1 = d(hdr + 7 := d (hdr + 7) - of_int (int pnext - int (pbegin + psize)));
                      d2 = put2byte d1 pbegin (get2byte d1 pnext);
                      d3 = put2byte d2 (pbegin + 2) (nat ((int pnext + int (get2byte d2 (pnext + 2)) - int pbegin) mod 65536))
                  in coalesce d3 hdr addr)
               else coalesce d hdr pbegin)
         else Some d)"

definition freeSpace :: "MemPage \<Rightarrow> nat \<Rightarrow> nat \<Rightarrow> MemPage option" where
  "freeSpace p start size0 =
     (let size = (if size0 < 4 then 4 else size0); hdr = hdrOffset p
      in case free_place (aData p) start (hdr + 1) of
           None \<Rightarrow> None
         | Some (addr, pbegin) \<Rightarrow>
             (let d = put2byte (put2byte (put2byte (aData p) addr start) start pbegin) (start + 2) size
              in case coalesce d hdr (hdr + 1) of
                   None \<Rightarrow> None
                 | Some d \<Rightarrow>
                     (let d = (if d (hdr + 1) = d (hdr + 5) \<and> d (hdr + 2) = d (hdr + 6) then
                                 (let pbegin = get2byte d (hdr + 1); d1 = blit d (hdr + 1) d pbegin 2; top = get2byte d1 (hdr + 5)
                                  in put2byte d1 (hdr + 5) (top + get2byte d1 (pbegin + 2)))
                               else d)
                      in Some (p\<lparr>aData := d, nFree := (nFree p + size) mod 65536\<rparr>))))"

subsection \<open>Initialising a page\<close>

definition flag :: "u8 \<Rightarrow> u8 \<Rightarrow> bool" where
  "flag b f \<longleftrightarrow> b AND f \<noteq> 0"

definition decodeFlags :: "BtShared \<Rightarrow> MemPage \<Rightarrow> u8 \<Rightarrow> MemPage" where
  "decodeFlags bt p flagByte =
     (let p = p\<lparr>intKey := flag flagByte (PTF_INTKEY OR PTF_LEAFDATA), zeroData := flag flagByte PTF_ZERODATA,
                leaf := flag flagByte PTF_LEAF\<rparr>;
          p = p\<lparr>childPtrSize := (if leaf p then 0 else 4)\<rparr>;
          p = (if flag flagByte PTF_LEAFDATA then p\<lparr>leafData := True, maxLocal := maxLeaf bt, minLocal := minLeaf bt\<rparr>
               else p\<lparr>leafData := False, maxLocal := bt_maxLocal bt, minLocal := bt_minLocal bt\<rparr>)
      in p\<lparr>hasData := \<not> (zeroData p \<or> (\<not> leaf p \<and> leafData p))\<rparr>)"

text \<open>The walk over the free blocks adds up their sizes; each is behind the one before.\<close>

function init_free :: "mem \<Rightarrow> nat \<Rightarrow> nat \<Rightarrow> int \<Rightarrow> int + rc" where
  "init_free d usable pc free =
     (if pc > 0 then
        (if int pc > int usable - 4 then Inr SQLITE_CORRUPT
         else
           (let next = get2byte d pc; size = get2byte d (pc + 2)
            in if next > 0 \<and> next \<le> pc + size + 3 then Inr SQLITE_CORRUPT
               else init_free d usable next (free + int size)))
      else Inl free)"
  by pat_completeness auto
termination
  by (relation "measure (\<lambda>(d, u, pc, f). if pc = 0 then 0 else Suc (u - pc))") (auto simp: Let_def)
declare init_free.simps [simp del]

text \<open>The parent is a page number, or \<open>None\<close> for a root. The result is the page and the code.\<close>

definition initPage :: "BtShared \<Rightarrow> u32 option \<Rightarrow> MemPage \<Rightarrow> MemPage \<times> rc" where
  "initPage bt parent p =
     (if pParent p \<noteq> parent \<and> (pParent p \<noteq> None \<or> isInit p) then (p, SQLITE_CORRUPT)
      else if isInit p then (p, SQLITE_OK)
      else
        (let hdr = hdrOffset p; d = aData p; p = p\<lparr>pParent := parent\<rparr>;
             p = (decodeFlags bt p (d hdr))\<lparr>aOvfl := [], idxShift := False\<rparr>;
             p = p\<lparr>cellOffset := hdr + 12 - (if leaf p then 4 else 0), nCell := get2byte d (hdr + 3)\<rparr>;
             top = get2byte d (hdr + 5)
         in if nCell p > (pageSize bt - 8) div 3 then (p, SQLITE_CORRUPT)
            else if nCell p = 0 \<and> parent \<noteq> None \<and> parent \<noteq> Some 1 then (p, SQLITE_CORRUPT)
            else
              (case init_free d (usableSize bt) (get2byte d (hdr + 1))
                      (int (unat (d (hdr + 7))) + int top - int (cellOffset p + 2 * nCell p)) of
                 Inr r \<Rightarrow> (p, r)
               | Inl free \<Rightarrow>
                   (let p = p\<lparr>nFree := nat (free mod 65536)\<rparr>
                    in if free \<ge> int (usableSize bt) then (p, SQLITE_CORRUPT) else (p\<lparr>isInit := True\<rparr>, SQLITE_OK)))))"

definition zeroPage :: "BtShared \<Rightarrow> MemPage \<Rightarrow> u8 \<Rightarrow> MemPage" where
  "zeroPage bt p flags =
     (let hdr = hdrOffset p;
          d = (fill (aData p) hdr (usableSize bt - hdr) 0)(hdr := flags);
          first = hdr + 8 + (if flag flags PTF_LEAF then 0 else 4);
          d = (fill d (hdr + 1) 4 0)(hdr + 7 := 0);
          d = put2byte d (hdr + 5) (usableSize bt);
          p = decodeFlags bt (p\<lparr>aData := d, nFree := usableSize bt - first\<rparr>) flags
      in p\<lparr>cellOffset := first, aOvfl := [], idxShift := False, nCell := 0, isInit := True\<rparr>)"

subsection \<open>Cells in and out\<close>

text \<open>The pointers from \<open>i\<close> up to \<open>n\<close> move down by one, or up by one.\<close>

fun shift_down :: "mem \<Rightarrow> nat \<Rightarrow> nat \<Rightarrow> mem" where
  "shift_down d ptr 0 = d"
| "shift_down d ptr (Suc k) = (let d1 = d(ptr := d (ptr + 2)) in shift_down (d1(ptr + 1 := d1 (ptr + 3))) (ptr + 2) k)"

fun shift_up :: "mem \<Rightarrow> nat \<Rightarrow> nat \<Rightarrow> mem" where
  "shift_up d ins 0 = d"
| "shift_up d ins (Suc k) =
     (let ptr = ins + 2 * Suc k; d1 = d(ptr := d (ptr - 2)) in shift_up (d1(ptr + 1 := d1 (ptr - 1))) ins k)"

definition dropCell :: "MemPage \<Rightarrow> nat \<Rightarrow> nat \<Rightarrow> MemPage option" where
  "dropCell p idx sz =
     (let ptr = cellOffset p + 2 * idx; pc = get2byte (aData p) ptr
      in case freeSpace p pc sz of
           None \<Rightarrow> None
         | Some p \<Rightarrow>
             (let d = shift_down (aData p) ptr (nCell p - (idx + 1)); n = nCell p - 1
              in Some (p\<lparr>aData := put2byte d (hdrOffset p + 3) n, nCell := n, nFree := (nFree p + 2) mod 65536, idxShift := True\<rparr>)))"

text \<open>
  The pointer map of an auto-vacuum database: \<open>pages\<close> is what the pager holds, \<open>get\<close> the result of
  \<^verbatim>\<open>sqlite3pager_get\<close> and \<open>write\<close> that of \<^verbatim>\<open>sqlite3pager_write\<close>.
\<close>

abbreviation PTRMAP_OVERFLOW1 :: u8 where "PTRMAP_OVERFLOW1 \<equiv> 3"

definition PENDING_BYTE_PAGE :: "BtShared \<Rightarrow> nat" where
  "PENDING_BYTE_PAGE bt = PENDING_BYTE div pageSize bt + 1"

definition ptrmapPageno :: "BtShared \<Rightarrow> u32 \<Rightarrow> u32" where
  "ptrmapPageno bt no =
     (let per = of_nat (usableSize bt div 5 + 1); ret = (no - 2) div per * per + 2
      in if ret = of_nat (PENDING_BYTE_PAGE bt) then ret + 1 else ret)"

definition PTRMAP_PTROFFSET :: "BtShared \<Rightarrow> u32 \<Rightarrow> nat" where
  "PTRMAP_PTROFFSET bt no = unat (5 * (no - ptrmapPageno bt no - 1))"

definition ptrmapPut :: "BtShared \<Rightarrow> rc \<Rightarrow> rc \<Rightarrow> (u32 \<Rightarrow> mem) \<Rightarrow> u32 \<Rightarrow> u8 \<Rightarrow> u32 \<Rightarrow> (u32 \<Rightarrow> mem) \<times> rc" where
  "ptrmapPut bt get write pages key eType parent =
     (if key = 0 then (pages, SQLITE_CORRUPT)
      else if get \<noteq> SQLITE_OK then (pages, get)
      else
        (let i = ptrmapPageno bt key; off = PTRMAP_PTROFFSET bt key; d = pages i
         in if eType \<noteq> d off \<or> get4byte d (off + 1) \<noteq> parent then
              (if write = SQLITE_OK then (pages(i := put4byte (d(off := eType)) (off + 1) parent), SQLITE_OK) else (pages, write))
            else (pages, SQLITE_OK)))"

text \<open>The result of reading is \<open>None\<close> in front of the code where nothing is read.\<close>

definition ptrmapGet :: "BtShared \<Rightarrow> rc \<Rightarrow> (u32 \<Rightarrow> mem) \<Rightarrow> u32 \<Rightarrow> (u8 \<times> u32) option \<times> rc" where
  "ptrmapGet bt get pages key =
     (if get \<noteq> SQLITE_OK then (None, get)
      else
        (let off = PTRMAP_PTROFFSET bt key; d = pages (ptrmapPageno bt key); t = d off
         in (Some (t, get4byte d (off + 1)), if t < 1 \<or> t > 5 then SQLITE_CORRUPT else SQLITE_OK)))"

definition payload_size :: "MemPage \<Rightarrow> CellInfo \<Rightarrow> u64" where
  "payload_size p info = ucast (nData info) + (if intKey p then 0 else nKey info)"

definition ptrmapPutOvflPtr :: "BtShared \<Rightarrow> rc \<Rightarrow> rc \<Rightarrow> (u32 \<Rightarrow> mem) \<Rightarrow> MemPage \<Rightarrow> mem option \<Rightarrow> (u32 \<Rightarrow> mem) \<times> rc" where
  "ptrmapPutOvflPtr bt get write pages p cell =
     (case cell of None \<Rightarrow> (pages, SQLITE_OK)
      | Some c \<Rightarrow>
          (let info = parseCellPtr bt p c
           in if sint (payload_size p info) > int (nLocal info)
              then ptrmapPut bt get write pages (get4byte c (iOverflow info)) PTRMAP_OVERFLOW1 (pgno p)
              else (pages, SQLITE_OK)))"

definition ptrmapPutOvfl :: "BtShared \<Rightarrow> rc \<Rightarrow> rc \<Rightarrow> (u32 \<Rightarrow> mem) \<Rightarrow> MemPage \<Rightarrow> nat \<Rightarrow> (u32 \<Rightarrow> mem) \<times> rc" where
  "ptrmapPutOvfl bt get write pages p i = ptrmapPutOvflPtr bt get write pages p (Some (findOverflowCell p i))"

text \<open>
  Inserting a cell: the first \<open>nSkip\<close> bytes are left for the caller to write. \<open>env 0\<close> is the
  memory of a first and \<open>env 1\<close> that of a second defragmentation.
\<close>

definition insertCell :: "BtShared \<Rightarrow> (nat \<Rightarrow> bool) \<Rightarrow> rc \<Rightarrow> rc \<Rightarrow> (u32 \<Rightarrow> mem) \<Rightarrow> MemPage \<Rightarrow> nat \<Rightarrow> mem \<Rightarrow> nat \<Rightarrow> mem option \<Rightarrow> nat \<Rightarrow>
    (MemPage \<times> (u32 \<Rightarrow> mem) \<times> rc) option" where
  "insertCell bt env get write pages p i cell sz temp nSkip =
     (if aOvfl p \<noteq> [] \<or> sz + 2 > nFree p then
        (let c = (case temp of Some t \<Rightarrow> blit t nSkip cell nSkip (sz - nSkip) | None \<Rightarrow> cell)
         in Some (p\<lparr>aOvfl := aOvfl p @ [(c, i)], nFree := 0\<rparr>, pages, SQLITE_OK))
      else
        (let hdr = hdrOffset p; top = get2byte (aData p) (hdr + 5); finish = cellOffset p + 2 * nCell p + 2; ins = cellOffset p + 2 * i
         in case (if finish + sz > top then defragmentPage bt (env 0) p else Some (p, SQLITE_OK)) of
              None \<Rightarrow> None
            | Some (p, r) \<Rightarrow>
                (if r \<noteq> SQLITE_OK then Some (p, pages, r)
                 else
                   (case allocateSpace bt (env 1) p sz of
                      None \<Rightarrow> None
                    | Some (p, idx) \<Rightarrow>
                        (let n = nCell p + 1;
                             d = blit (aData p) (idx + nSkip) cell nSkip (sz - nSkip);
                             d = shift_up d ins (nCell p - i);
                             d = put2byte (put2byte d ins idx) (hdr + 3) n;
                             p = p\<lparr>nCell := n, nFree := nFree p - 2, aData := d, idxShift := True\<rparr>
                         in if autoVacuum bt then
                              (case ptrmapPutOvflPtr bt get write pages p (Some cell) of (pages, r) \<Rightarrow> Some (p, pages, r))
                            else Some (p, pages, SQLITE_OK))))))"

fun assemble_cells :: "mem \<Rightarrow> nat \<Rightarrow> nat \<Rightarrow> (mem \<times> nat) list \<Rightarrow> mem" where
  "assemble_cells d cellptr body [] = d"
| "assemble_cells d cellptr body ((c, sz) # cs) = assemble_cells (blit (put2byte d cellptr body) body c 0 sz) (cellptr + 2) (body + sz) cs"

definition assemblePage :: "BtShared \<Rightarrow> bool \<Rightarrow> MemPage \<Rightarrow> (mem \<times> nat) list \<Rightarrow> MemPage option" where
  "assemblePage bt ok p cs =
     (let n = length cs; total = sum_list (map snd cs); p = p\<lparr>aData := put2byte (aData p) (hdrOffset p + 3) n\<rparr>
      in if n = 0 then Some (p\<lparr>nCell := n\<rparr>)
         else
           (case allocateSpace bt ok p total of
              None \<Rightarrow> None
            | Some (p, body) \<Rightarrow>
                Some (p\<lparr>nFree := nFree p - 2 * n, aData := assemble_cells (aData p) (cellOffset p) body cs, nCell := n\<rparr>)))"

end
