(* ===== verification/BtSpace.thy ===== *)
theory BtSpace
  imports BtPage
begin

text \<open>
  The space of a b-tree page. The free blocks are a linked list in the page (\<open>path\<close>, \<open>chain\<close>), sorted
  by address (\<open>asc\<close>); the invariant \<open>space\<close> says that the places in use, the free blocks and the fragments
  make up the cell content area. The lemmas give the effect of \<^verbatim>\<open>allocateSpace\<close>'s search and of
  \<^verbatim>\<open>freeSpace\<close> with its coalescing on that invariant.
\<close>

subsection \<open>Two-byte integers\<close>

lemma get2byte_eq: "get2byte d p = 256 * unat (d p) + unat (d (p + 1))"
proof -
  have dis: "(shl (ucast (d p)) 8 :: u32) AND ucast (d (p + 1)) = 0"
    by (rule bit_word_eqI) (auto simp: bit_simps dest: bit_imp_le_length)
  have l: "256 * unat (d p) < 2 ^ 32" using u8_less [of "d p"] by simp
  have u: "unat (ucast x :: u32) = unat x" for x :: u8
    using u8_less [of x] by (simp add: unsigned_ucast_eq take_bit_nat_eq_self)
  have "unat (shl (ucast (d p)) 8 OR ucast (d (p + 1)) :: u32) = unat (shl (ucast (d p)) 8 :: u32) + unat (ucast (d (p + 1)) :: u32)"
    by (rule unat_or_disj [OF dis])
  also have "unat (shl (ucast (d p)) 8 :: u32) = 256 * unat (d p)"
    unfolding shl_def unsigned_push_bit_eq u using l by (simp add: push_bit_eq_mult take_bit_nat_eq_self mult.commute)
  also have "unat (ucast (d (p + 1)) :: u32) = unat (d (p + 1))" by (rule u)
  finally show ?thesis by (simp add: get2byte_def)
qed

lemma get2byte_less: "get2byte d p < 65536"
  using u8_less [of "d p"] u8_less [of "d (p + 1)"] by (simp add: get2byte_eq)

lemma get2byte_cong: "d' p = d p \<Longrightarrow> d' (p + 1) = d (p + 1) \<Longrightarrow> get2byte d' p = get2byte d p"
  by (simp add: get2byte_eq)

lemma unat_u8: "unat (of_nat n :: u8) = n mod 256"
  by (simp only: unat_of_nat) (simp add: take_bit_eq_mod)

lemma get2byte_put [simp]: "v < 65536 \<Longrightarrow> get2byte (put2byte d p v) p = v"
  by (simp add: get2byte_eq put2byte_def unat_u8 mult_div_mod_eq [of 256])

lemma put2byte_out: "i \<noteq> p \<Longrightarrow> i \<noteq> p + 1 \<Longrightarrow> put2byte d p v i = d i"
  by (simp add: put2byte_def)

lemma get2byte_put_other: "q + 1 < p \<or> p + 1 < q \<Longrightarrow> get2byte (put2byte d p v) q = get2byte d q"
  by (rule get2byte_cong) (auto simp: put2byte_def)

lemma get2byte_zero: "get2byte d p = 0 \<longleftrightarrow> d p = 0 \<and> d (p + 1) = 0"
  by (auto simp: get2byte_eq unat_eq_zero)

lemma get2byte_inj: "get2byte d p = get2byte d q \<longleftrightarrow> d p = d q \<and> d (p + 1) = d (q + 1)"
proof
  assume "get2byte d p = get2byte d q"
  then have e: "256 * unat (d p) + unat (d (p + 1)) = 256 * unat (d q) + unat (d (q + 1))" by (simp add: get2byte_eq)
  have "unat (d p) = unat (d q)"
    using u8_less [of "d (p + 1)"] u8_less [of "d (q + 1)"] arg_cong [OF e, of "\<lambda>n. n div 256"] by simp
  moreover from this have "unat (d (p + 1)) = unat (d (q + 1))" using e by simp
  ultimately show "d p = d q \<and> d (p + 1) = d (q + 1)" by (simp add: word_unat_eq_iff)
qed (simp add: get2byte_eq)

subsection \<open>Extents\<close>

type_synonym extent = "nat \<times> nat"

definition apart :: "extent \<Rightarrow> extent \<Rightarrow> bool" where
  "apart a b \<longleftrightarrow> fst a + snd a \<le> fst b \<or> fst b + snd b \<le> fst a"

lemma apart_sym: "apart a b \<Longrightarrow> apart b a"
  by (auto simp: apart_def)

definition within :: "nat \<Rightarrow> nat \<Rightarrow> extent list \<Rightarrow> bool" where
  "within lo hi es \<longleftrightarrow> (\<forall>e\<in>set es. lo \<le> fst e \<and> fst e + snd e \<le> hi \<and> 4 \<le> snd e)"

abbreviation size_sum :: "extent list \<Rightarrow> nat" where
  "size_sum es \<equiv> sum_list (map snd es)"

lemma sorted_apart_append: "sorted_wrt apart (xs @ ys) \<longleftrightarrow> sorted_wrt apart xs \<and> sorted_wrt apart ys \<and> (\<forall>x\<in>set xs. \<forall>y\<in>set ys. apart x y)"
  by (rule sorted_wrt_append)

lemma apart_card:
  assumes "sorted_wrt apart es"
  shows "card (\<Union>e\<in>set es. {fst e..<fst e + snd e}) = size_sum es"
  using assms
proof (induction es)
  case (Cons e es)
  have "{fst e..<fst e + snd e} \<inter> (\<Union>x\<in>set es. {fst x..<fst x + snd x}) = {}"
    using Cons.prems by (auto simp: apart_def)
  then have "card ({fst e..<fst e + snd e} \<union> (\<Union>x\<in>set es. {fst x..<fst x + snd x})) = snd e + size_sum es"
    using Cons by (subst card_Un_disjoint) auto
  then show ?case by simp
qed simp

lemma apart_sum:
  assumes "sorted_wrt apart es" "\<And>e. e \<in> set es \<Longrightarrow> lo \<le> fst e \<and> fst e + snd e \<le> hi"
  shows "size_sum es \<le> hi - lo"
proof -
  have "(\<Union>e\<in>set es. {fst e..<fst e + snd e}) \<subseteq> {lo..<hi}" using assms(2) by fastforce
  then have "card (\<Union>e\<in>set es. {fst e..<fst e + snd e}) \<le> card {lo..<hi}" by (rule card_mono [rotated]) simp
  then show ?thesis using apart_card [OF assms(1)] by simp
qed

subsection \<open>The list of free blocks\<close>

text \<open>The blocks of a list linked from an address on, and the address of the last link.\<close>

fun path :: "mem \<Rightarrow> nat \<Rightarrow> extent list \<Rightarrow> bool" where
  "path d a [] \<longleftrightarrow> True"
| "path d a (e # fl) \<longleftrightarrow> get2byte d a = fst e \<and> 0 < fst e \<and> get2byte d (fst e + 2) = snd e \<and> path d (fst e) fl"

fun endp :: "nat \<Rightarrow> extent list \<Rightarrow> nat" where
  "endp a [] = a"
| "endp a (e # fl) = endp (fst e) fl"

definition chain :: "mem \<Rightarrow> nat \<Rightarrow> extent list \<Rightarrow> bool" where
  "chain d a fl \<longleftrightarrow> path d a fl \<and> get2byte d (endp a fl) = 0"

text \<open>Ascending blocks from \<open>lo\<close> on, with at least \<open>g\<close> bytes between them.\<close>

fun asc :: "nat \<Rightarrow> nat \<Rightarrow> extent list \<Rightarrow> bool" where
  "asc g lo [] \<longleftrightarrow> True"
| "asc g lo (e # fl) \<longleftrightarrow> lo \<le> fst e \<and> 4 \<le> snd e \<and> asc g (fst e + snd e + g) fl"

lemma path_append: "path d a (xs @ ys) \<longleftrightarrow> path d a xs \<and> path d (endp a xs) ys"
  by (induction xs arbitrary: a) auto

lemma endp_append: "endp a (xs @ ys) = endp (endp a xs) ys"
  by (induction xs arbitrary: a) auto

lemma chain_append: "chain d a (xs @ ys) \<longleftrightarrow> path d a xs \<and> chain d (endp a xs) ys"
  by (simp add: chain_def path_append endp_append)

lemma chain_Cons: "chain d a (e # fl) \<longleftrightarrow> get2byte d a = fst e \<and> 0 < fst e \<and> get2byte d (fst e + 2) = snd e \<and> chain d (fst e) fl"
  by (auto simp: chain_def)

lemma chain_Nil: "chain d a [] \<longleftrightarrow> get2byte d a = 0"
  by (simp add: chain_def)

lemma asc_weaken: "asc g lo fl \<Longrightarrow> g' \<le> g \<Longrightarrow> lo' \<le> lo \<Longrightarrow> asc g' lo' fl"
proof (induction fl arbitrary: lo lo')
  case (Cons e fl)
  have "asc g' (fst e + snd e + g') fl" by (rule Cons.IH [of "fst e + snd e + g"]) (use Cons.prems in auto)
  then show ?case using Cons.prems by auto
qed simp

lemma asc_lo: "asc g lo fl \<Longrightarrow> e \<in> set fl \<Longrightarrow> lo \<le> fst e \<and> 4 \<le> snd e"
  by (induction fl arbitrary: lo) fastforce+

lemma asc_append: "asc g lo (xs @ ys) \<longleftrightarrow> asc g lo xs \<and> asc g (if xs = [] then lo else fst (last xs) + snd (last xs) + g) ys"
  by (induction xs arbitrary: lo) auto

lemma asc_apart: "asc g lo fl \<Longrightarrow> sorted_wrt apart fl"
proof (induction fl arbitrary: lo)
  case (Cons e fl)
  then have "apart e x" if "x \<in> set fl" for x using asc_lo [of g "fst e + snd e + g" fl x] that by (auto simp: apart_def)
  then show ?case using Cons by auto
qed simp

lemma endp_in: "endp a fl \<in> insert a (fst ` set fl)"
  by (induction fl arbitrary: a) auto

lemma endp_last: "fl \<noteq> [] \<Longrightarrow> endp a fl = fst (last fl)"
  by (induction fl arbitrary: a) auto

lemma endp_range: "asc g lo fl \<Longrightarrow> fl \<noteq> [] \<Longrightarrow> lo \<le> endp a fl"
  using asc_lo [of g lo fl "last fl"] by (simp add: endp_last)

text \<open>A list depends on its link and on the first four bytes of each block.\<close>

lemma path_cong:
  assumes "\<And>i. i \<in> {a, a + 1} \<union> (\<Union>e\<in>set fl. {fst e..<fst e + 4}) \<Longrightarrow> d' i = d i"
  shows "path d' a fl \<longleftrightarrow> path d a fl"
  using assms
proof (induction fl arbitrary: a)
  case (Cons e fl)
  have "path d' (fst e) fl \<longleftrightarrow> path d (fst e) fl" by (rule Cons.IH) (use Cons.prems in auto)
  moreover have "get2byte d' a = get2byte d a" "get2byte d' (fst e + 2) = get2byte d (fst e + 2)"
    using Cons.prems by (auto intro!: get2byte_cong)
  ultimately show ?case by simp
qed simp

lemma chain_cong:
  assumes "\<And>i. i \<in> {a, a + 1} \<union> (\<Union>e\<in>set fl. {fst e..<fst e + 4}) \<Longrightarrow> d' i = d i"
  shows "chain d' a fl \<longleftrightarrow> chain d a fl"
proof -
  have "get2byte d' (endp a fl) = get2byte d (endp a fl)"
    using endp_in [of a fl] by (intro get2byte_cong assms) force+
  then show ?thesis using path_cong [OF assms] by (simp add: chain_def)
qed

text \<open>The last link may change without touching the blocks before it.\<close>

lemma path_link:
  assumes "path d a fl" "asc g lo fl" "a + 2 \<le> lo" "\<And>i. i \<notin> {endp a fl, endp a fl + 1} \<Longrightarrow> i \<in> {a, a + 1} \<union> (\<Union>e\<in>set fl. {fst e..<fst e + 4}) \<Longrightarrow> d' i = d i"
  shows "path d' a fl"
  using assms
proof (induction fl arbitrary: a lo)
  case (Cons e fl)
  have lo: "lo \<le> fst e" "4 \<le> snd e" "asc g (fst e + snd e + g) fl" using Cons.prems(2) by auto
  have en: "endp (fst e) fl = fst e \<or> fst e + 4 \<le> endp (fst e) fl"
    using endp_range [OF lo(3), of "fst e"] lo(2) by (cases "fl = []") auto
  have "path d' (fst e) fl"
  proof (rule Cons.IH [OF _ lo(3)])
    fix i
    assume "i \<notin> {endp (fst e) fl, endp (fst e) fl + 1}" "i \<in> {fst e, fst e + 1} \<union> (\<Union>e\<in>set fl. {fst e..<fst e + 4})"
    then show "d' i = d i" by (intro Cons.prems(4)) auto
  qed (use Cons.prems(1) lo in auto)
  moreover have "get2byte d' a = get2byte d a"
    by (rule get2byte_cong; rule Cons.prems(4)) (use en lo Cons.prems(3) in auto)
  moreover have "get2byte d' (fst e + 2) = get2byte d (fst e + 2)"
    by (rule get2byte_cong; rule Cons.prems(4)) (use en in auto)
  ultimately show ?case using Cons.prems(1) by simp
qed simp

lemma asc_split:
  assumes "asc g lo (pre @ e # post)"
  shows "\<And>x. x \<in> set pre \<Longrightarrow> lo \<le> fst x \<and> 4 \<le> snd x \<and> fst x + snd x + g \<le> fst e"
    "\<And>x. x \<in> set post \<Longrightarrow> fst e + snd e + g \<le> fst x \<and> 4 \<le> snd x" "lo \<le> fst e" "4 \<le> snd e"
proof -
  have "asc g lo (pre @ e # post) \<Longrightarrow> x \<in> set pre \<Longrightarrow> fst x + snd x + g \<le> fst e" for x
  proof (induction pre arbitrary: lo)
    case (Cons y pre)
    then show ?case using asc_lo [of g _ "pre @ e # post" e] by auto
  qed simp
  then show "\<And>x. x \<in> set pre \<Longrightarrow> lo \<le> fst x \<and> 4 \<le> snd x \<and> fst x + snd x + g \<le> fst e"
    using asc_lo [OF assms] assms by auto
  show "lo \<le> fst e" "4 \<le> snd e" using asc_lo [OF assms, of e] by simp_all
  show "\<And>x. x \<in> set post \<Longrightarrow> fst e + snd e + g \<le> fst x \<and> 4 \<le> snd x"
    using assms asc_lo [of g "fst e + snd e + g" post] by (simp add: asc_append split: if_splits)
qed

lemma asc_resize: "asc g lo (pre @ (p, s) # post) \<Longrightarrow> 4 \<le> s' \<Longrightarrow> s' \<le> s \<Longrightarrow> asc g lo (pre @ (p, s') # post)"
  by (auto simp: asc_append elim!: asc_weaken split: if_splits)

lemma asc_remove: "asc g lo (pre @ e # post) \<Longrightarrow> asc g lo (pre @ post)"
  by (auto simp: asc_append elim!: asc_weaken split: if_splits)

text \<open>
  The space of a page: \<open>es\<close> are the places in use and \<open>fl\<close> the free blocks, all in the cell
  content area and apart from each other; what is left over is counted as fragments.
\<close>

definition space_gap :: "nat \<Rightarrow> nat \<Rightarrow> nat \<Rightarrow> mem \<Rightarrow> extent list \<Rightarrow> extent list \<Rightarrow> bool" where
  "space_gap g U hdr d es fl \<longleftrightarrow>
     (let top = get2byte d (hdr + 5)
      in hdr + 8 \<le> top \<and> top \<le> U \<and> U \<le> 32768 \<and> chain d (hdr + 1) fl \<and> asc g top fl \<and> within top U (es @ fl) \<and>
         sorted_wrt apart (es @ fl) \<and> top + size_sum es + size_sum fl + unat (d (hdr + 7)) = U)"

abbreviation space :: "nat \<Rightarrow> nat \<Rightarrow> mem \<Rightarrow> extent list \<Rightarrow> extent list \<Rightarrow> bool" where
  "space \<equiv> space_gap 4"

lemma spaceD:
  assumes "space_gap g U hdr d es fl"
  shows "hdr + 8 \<le> get2byte d (hdr + 5)" "get2byte d (hdr + 5) \<le> U" "U \<le> 32768" "chain d (hdr + 1) fl"
    "asc g (get2byte d (hdr + 5)) fl" "within (get2byte d (hdr + 5)) U es" "within (get2byte d (hdr + 5)) U fl"
    "sorted_wrt apart es" "sorted_wrt apart fl" "\<And>x y. x \<in> set es \<Longrightarrow> y \<in> set fl \<Longrightarrow> apart x y"
    "get2byte d (hdr + 5) + size_sum es + size_sum fl + unat (d (hdr + 7)) = U"
  using assms unfolding space_gap_def Let_def within_def sorted_apart_append by auto

text \<open>What the operations leave alone: the bytes in front of the content area, but for the header
  fields, and the bytes of the places in use.\<close>

definition keep :: "nat \<Rightarrow> mem \<Rightarrow> mem \<Rightarrow> extent list \<Rightarrow> bool" where
  "keep hdr d d' es \<longleftrightarrow>
     (\<forall>i < get2byte d (hdr + 5). i \<notin> {hdr + 1, hdr + 2, hdr + 5, hdr + 6, hdr + 7} \<longrightarrow> d' i = d i) \<and>
     (\<forall>e\<in>set es. \<forall>i. fst e \<le> i \<and> i < fst e + snd e \<longrightarrow> d' i = d i)"

lemma search_none: "chain d a fl \<Longrightarrow> \<forall>e\<in>set fl. snd e < n \<Longrightarrow> free_search d hdr f n a = Some (d, None)"
proof (induction fl arbitrary: a)
  case Nil
  then show ?case by (subst free_search.simps) (simp add: chain_Nil)
next
  case (Cons e fl)
  then show ?case by (subst free_search.simps) (simp add: chain_Cons Let_def)
qed

lemma search_some:
  "chain d a (pre @ e # post) \<Longrightarrow> \<forall>x\<in>set pre. snd x < n \<Longrightarrow> n \<le> snd e \<Longrightarrow>
    free_search d hdr f n a = Some
      (if snd e < n + 4 then ((blit d (endp a pre) d (fst e) 2)(hdr + 7 := of_nat (f + snd e - n)), Some (fst e))
       else (put2byte d (fst e + 2) (snd e - n), Some (fst e + snd e - n)))"
proof (induction pre arbitrary: a)
  case Nil
  then show ?case by (subst free_search.simps) (simp add: chain_Cons Let_def)
next
  case (Cons x pre)
  then show ?case by (subst free_search.simps) (simp add: chain_Cons Let_def)
qed

lemma first_fit:
  obtains "\<forall>e\<in>set fl. snd e < n"
  | pre e post where "fl = pre @ e # post" "\<forall>x\<in>set pre. snd x < n" "n \<le> snd (e :: extent)"
proof (cases "\<exists>e\<in>set fl. n \<le> snd e")
  case True
  then show thesis using split_list_first_prop [of fl "\<lambda>e. n \<le> snd e"] that(2) by (metis linorder_not_le)
qed (use that(1) in \<open>simp add: not_le\<close>)

text \<open>The block is cut from its end.\<close>

lemma alloc_shrink:
  assumes "space U hdr d es (pre @ e # post)" "n + 4 \<le> snd e" "4 \<le> n"
  shows "space U hdr (put2byte d (fst e + 2) (snd e - n)) ((fst e + snd e - n, n) # es) (pre @ (fst e, snd e - n) # post)"
    "keep hdr d (put2byte d (fst e + 2) (snd e - n)) es"
    "get2byte (put2byte d (fst e + 2) (snd e - n)) (hdr + 5) = get2byte d (hdr + 5)"
proof -
  let ?d = "put2byte d (fst e + 2) (snd e - n)"
  note s = spaceD [OF assms(1)]
  define top where "top = get2byte d (hdr + 5)"
  note a = asc_split [OF s(5), folded top_def]
  have hi: "fst e + snd e \<le> U" using s(7) by (simp add: within_def)
  have out: "i \<noteq> fst e + 2 \<Longrightarrow> i \<noteq> fst e + 3 \<Longrightarrow> ?d i = d i" for i by (simp add: put2byte_out)
  have low: "i < top \<Longrightarrow> ?d i = d i" for i using a(3) by (intro out) auto
  have h: "hdr + 8 \<le> top" using s(1) by (simp add: top_def)
  have hd: "?d (hdr + 7) = d (hdr + 7)" "get2byte ?d (hdr + 5) = top" 
    using low h get2byte_cong [of ?d "hdr + 5" d] by (simp_all add: top_def)
  show "get2byte ?d (hdr + 5) = get2byte d (hdr + 5)" using hd(2) by (simp add: top_def)
  have ch: "path d (hdr + 1) pre" "get2byte d (endp (hdr + 1) pre) = fst e" "0 < fst e" "chain d (fst e) post"
    using s(4) by (simp_all add: chain_append chain_Cons)
  have 1: "path ?d (hdr + 1) pre \<longleftrightarrow> path d (hdr + 1) pre"
  proof (rule path_cong)
    fix i assume "i \<in> {hdr + 1, hdr + 1 + 1} \<union> (\<Union>e\<in>set pre. {fst e..<fst e + 4})"
    then show "?d i = d i" using h a(1,3) by (intro out) fastforce+
  qed
  have 2: "chain ?d (fst e) post \<longleftrightarrow> chain d (fst e) post"
  proof (rule chain_cong)
    fix i assume "i \<in> {fst e, fst e + 1} \<union> (\<Union>e\<in>set post. {fst e..<fst e + 4})"
    then show "?d i = d i" using a(2,4) by (intro out) fastforce+
  qed
  have 3: "get2byte ?d (endp (hdr + 1) pre) = get2byte d (endp (hdr + 1) pre)"
    using endp_in [of "hdr + 1" pre] h a(1,3) by (intro get2byte_cong out) fastforce+
  have 4: "get2byte ?d (fst e + 2) = snd e - n" using hi s(3) by simp
  have chn: "chain ?d (hdr + 1) (pre @ (fst e, snd e - n) # post)"
    using ch 1 2 3 4 by (simp add: chain_append chain_Cons)
  have as: "asc 4 top (pre @ (fst e, snd e - n) # post)"
    using asc_resize [of 4 top pre "fst e" "snd e" post "snd e - n"] s(5) assms(2) by (simp add: top_def)
  have ap: "x \<in> set es \<Longrightarrow> apart x e" for x using s(10) by simp
  have ap': "x \<in> set es \<Longrightarrow> y \<in> set pre \<union> set post \<Longrightarrow> apart x y" for x y using s(10) by auto
  have new: "y \<in> set es \<Longrightarrow> apart (fst e + snd e - n, n) y" "y \<in> set es \<Longrightarrow> apart y (fst e, snd e - n)" for y
    using ap [of y] assms(2) by (auto simp: apart_def)
  have new': "y \<in> set pre \<union> set post \<Longrightarrow> apart (fst e + snd e - n, n) y" for y
    using a(1) [of y] a(2) [of y] assms(2) by (auto simp: apart_def)
  have wi: "within top U (((fst e + snd e - n, n) # es) @ pre @ (fst e, snd e - n) # post)"
    using s(6,7) assms(2,3) hi a(3) unfolding within_def top_def by auto
  have so: "sorted_wrt apart (((fst e + snd e - n, n) # es) @ pre @ (fst e, snd e - n) # post)"
    unfolding sorted_apart_append [of "_ # es"]
    using s(8) new new' ap' asc_apart [OF as] assms(2) by (auto simp: apart_def)
  have eq: "top + size_sum ((fst e + snd e - n, n) # es) + size_sum (pre @ (fst e, snd e - n) # post) + unat (d (hdr + 7)) = U"
    using s(11) assms(2) unfolding top_def by simp
  show "space U hdr ?d ((fst e + snd e - n, n) # es) (pre @ (fst e, snd e - n) # post)"
    unfolding space_gap_def hd Let_def using h s(2,3) chn as wi so eq by (simp add: top_def)
  have "?d i = d i" if "x \<in> set es" "fst x \<le> i" "i < fst x + snd x" for x i
    using ap [OF that(1)] that(2,3) a(4) by (intro out) (auto simp: apart_def)
  then show "keep hdr d ?d es" unfolding keep_def top_def [symmetric] using low by auto
qed

text \<open>The whole block is taken; up to three bytes become fragments.\<close>

lemma alloc_remove:
  assumes "space U hdr d es (pre @ e # post)" "n \<le> snd e" "snd e < n + 4" "4 \<le> n" "unat (d (hdr + 7)) < 60"
  defines "d' \<equiv> (blit d (endp (hdr + 1) pre) d (fst e) 2)(hdr + 7 := of_nat (unat (d (hdr + 7)) + snd e - n))"
  shows "space U hdr d' ((fst e, n) # es) (pre @ post)" "keep hdr d d' es" "get2byte d' (hdr + 5) = get2byte d (hdr + 5)"
proof -
  note s = spaceD [OF assms(1)]
  define top where "top = get2byte d (hdr + 5)"
  note a = asc_split [OF s(5), folded top_def]
  define l where "l = endp (hdr + 1) pre"
  have h: "hdr + 8 \<le> top" using s(1) by (simp add: top_def)
  have hi: "fst e + snd e \<le> U" using s(7) by (simp add: within_def)
  have ch: "path d (hdr + 1) pre" "get2byte d l = fst e" "0 < fst e" "chain d (fst e) post"
    using s(4) by (simp_all add: chain_append chain_Cons l_def)
  have l: "l = hdr + 1 \<or> l \<in> fst ` set pre" using endp_in [of "hdr + 1" pre] by (simp add: l_def)
  have lr: "l = hdr + 1 \<or> top \<le> l \<and> l + 4 \<le> fst e" using l a(1) by fastforce
  have dl: "d' = (blit d l d (fst e) 2)(hdr + 7 := of_nat (unat (d (hdr + 7)) + snd e - n))" by (simp add: d'_def l_def)
  have out: "i \<noteq> l \<Longrightarrow> i \<noteq> l + 1 \<Longrightarrow> i \<noteq> hdr + 7 \<Longrightarrow> d' i = d i" for i by (auto simp: dl blit_def)
  have lk: "d' l = d (fst e)" "d' (l + 1) = d (fst e + 1)" using lr h by (auto simp: dl blit_def)
  have low: "i < top \<Longrightarrow> i \<notin> {hdr + 1, hdr + 2, hdr + 7} \<Longrightarrow> d' i = d i" for i using lr by (intro out) auto
  have t: "get2byte d' (hdr + 5) = top" unfolding top_def by (rule get2byte_cong; rule low) (use h in auto)
  then show "get2byte d' (hdr + 5) = get2byte d (hdr + 5)" by (simp add: top_def)
  have fr: "unat (d' (hdr + 7)) = unat (d (hdr + 7)) + snd e - n"
  proof -
    have "d' (hdr + 7) = of_nat (unat (d (hdr + 7)) + snd e - n)" unfolding dl by (rule fun_upd_same)
    then show ?thesis using assms(2,3,5) unat_u8 [of "unat (d (hdr + 7)) + snd e - n"] by simp
  qed
  have 1: "path d' (hdr + 1) pre"
  proof (rule path_link [OF ch(1)])
    show "asc 4 top pre" using s(5) by (simp add: asc_append top_def)
    show "hdr + 1 + 2 \<le> top" using h by simp
    fix i assume i: "i \<notin> {endp (hdr + 1) pre, endp (hdr + 1) pre + 1}" "i \<in> {hdr + 1, hdr + 1 + 1} \<union> (\<Union>e\<in>set pre. {fst e..<fst e + 4})"
    then have "i \<noteq> hdr + 7" using h a(1) by fastforce
    then show "d' i = d i" using i(1) by (intro out) (simp_all add: l_def)
  qed
  have "get2byte d' l = get2byte d (fst e)" using lk by (simp add: get2byte_inj get2byte_eq)
  moreover have "chain d' (endp (hdr + 1) pre) post"
  proof (cases post)
    case Nil
    then show ?thesis using ch(4) calculation by (simp add: chain_Nil l_def)
  next
    case (Cons x xs)
    have x: "get2byte d (fst e) = fst x" "0 < fst x" "get2byte d (fst x + 2) = snd x" "chain d (fst x) xs"
      using ch(4) by (simp_all add: Cons chain_Cons)
    have in_post: "i \<in> (\<Union>y\<in>set post. {fst y..<fst y + 4}) \<Longrightarrow> d' i = d i" for i
      using a(2,3,4) lr h by (intro out) fastforce+
    have "chain d' (fst x) xs \<longleftrightarrow> chain d (fst x) xs" by (rule chain_cong; rule in_post) (auto simp: Cons)
    moreover have "get2byte d' (fst x + 2) = get2byte d (fst x + 2)" by (rule get2byte_cong; rule in_post) (auto simp: Cons)
    ultimately show ?thesis using x \<open>get2byte d' l = get2byte d (fst e)\<close> by (simp add: Cons chain_Cons l_def)
  qed
  ultimately have chn: "chain d' (hdr + 1) (pre @ post)" using 1 by (simp add: chain_append)
  have as: "asc 4 top (pre @ post)" using s(5) unfolding top_def by (rule asc_remove)
  have ap: "x \<in> set es \<Longrightarrow> y \<in> insert e (set pre \<union> set post) \<Longrightarrow> apart x y" for x y using s(10) by auto
  have new: "y \<in> set es \<union> set pre \<union> set post \<Longrightarrow> apart (fst e, n) y" for y
    using ap [of y e] a(1) [of y] a(2) [of y] assms(2) by (auto simp: apart_def)
  have wi: "within top U (((fst e, n) # es) @ pre @ post)"
    using s(6,7) assms(2,4) hi a(3) unfolding within_def top_def by auto
  have so: "sorted_wrt apart (((fst e, n) # es) @ pre @ post)"
    unfolding sorted_apart_append [of "_ # es"] using s(8) new ap asc_apart [OF as] by auto
  have eq: "top + size_sum ((fst e, n) # es) + size_sum (pre @ post) + (unat (d (hdr + 7)) + snd e - n) = U"
    using s(11) assms(2) unfolding top_def by simp
  show "space U hdr d' ((fst e, n) # es) (pre @ post)"
    unfolding space_gap_def t fr Let_def using h s(2,3) chn as wi so eq by (simp add: top_def)
  have "d' i = d i" if xi: "x \<in> set es" "fst x \<le> i" "i < fst x + snd x" for x i
  proof -
    have "top \<le> fst x" using s(6) xi(1) by (auto simp: within_def top_def)
    moreover have "i \<notin> {l, l + 1}" if m: "l \<in> fst ` set pre"
    proof -
      obtain y where y: "y \<in> set pre" "l = fst y" using m by blast
      then show ?thesis using ap [OF xi(1), of y] a(1) [OF y(1)] xi by (auto simp: apart_def)
    qed
    ultimately show ?thesis using l h xi by (intro out) auto
  qed
  then show "keep hdr d d' es" unfolding keep_def top_def [symmetric] using low by auto
qed

lemma chain_jump:
  assumes "chain d b r" "get2byte d' a = get2byte d b" "\<And>i. i \<in> (\<Union>e\<in>set r. {fst e..<fst e + 4}) \<Longrightarrow> d' i = d i"
  shows "chain d' a r"
proof (cases r)
  case Nil
  then show ?thesis using assms(1,2) by (simp add: chain_Nil)
next
  case (Cons x xs)
  have "chain d' (fst x) xs \<longleftrightarrow> chain d (fst x) xs" by (rule chain_cong; rule assms(3)) (auto simp: Cons)
  moreover have "get2byte d' (fst x + 2) = get2byte d (fst x + 2)" by (rule get2byte_cong; rule assms(3)) (auto simp: Cons)
  ultimately show ?thesis using assms(1,2) by (simp add: Cons chain_Cons)
qed

lemma place_spec:
  "chain d a (pre @ post) \<Longrightarrow> \<forall>x\<in>set pre. fst x < start \<Longrightarrow> (\<And>e r. post = e # r \<Longrightarrow> start \<le> fst e) \<Longrightarrow>
    free_place d start a = Some (endp a pre, case post of [] \<Rightarrow> 0 | e # _ \<Rightarrow> fst e)"
proof (induction pre arbitrary: a)
  case Nil
  then show ?case by (subst free_place.simps) (auto simp: chain_Nil chain_Cons Let_def split: list.splits)
next
  case (Cons x pre)
  then show ?case by (subst free_place.simps) (simp add: chain_Cons Let_def)
qed

text \<open>Adjacent blocks are joined over gaps of at most three bytes, which are no longer fragments.\<close>

function coal :: "extent list \<Rightarrow> extent list" where
  "coal [] = []"
| "coal [e] = [e]"
| "coal (e # f # r) = (if fst f \<le> fst e + snd e + 3 then coal ((fst e, fst f + snd f - fst e) # r) else e # coal (f # r))"
  by pat_completeness auto
termination by (relation "measure length") auto

fun gaps :: "extent list \<Rightarrow> nat" where
  "gaps (e # f # r) = (if fst f \<le> fst e + snd e + 3 then fst f - (fst e + snd e) else 0) + gaps (f # r)"
| "gaps _ = 0"

lemma gaps_join: "gaps ((p, s) # r) = gaps ((p', s') # r)" if "p + s = p' + s'" for p s p' s' :: nat
  using that by (cases r) auto

lemma asc_join: "asc 0 lo (e # f # r) \<Longrightarrow> asc 0 lo ((fst e, fst f + snd f - fst e) # r)"
  by auto

lemma coal_sum: "asc 0 lo fl \<Longrightarrow> size_sum (coal fl) = size_sum fl + gaps fl"
proof (induction fl arbitrary: lo rule: coal.induct)
  case (3 e f r)
  show ?case
  proof (cases "fst f \<le> fst e + snd e + 3")
    case True
    have "size_sum (coal ((fst e, fst f + snd f - fst e) # r)) = fst f + snd f - fst e + size_sum r + gaps ((fst e, fst f + snd f - fst e) # r)"
      using 3(1) [OF True asc_join [OF 3(3)]] by simp
    moreover have "gaps ((fst e, fst f + snd f - fst e) # r) = gaps (f # r)"
      using gaps_join [of "fst e" "fst f + snd f - fst e" "fst f" "snd f" r] 3(3) by simp
    ultimately show ?thesis using True 3(3) by simp
  next
    case False
    then show ?thesis using 3(2) [OF False, of "fst e + snd e"] 3(3) by auto
  qed
qed simp_all

lemma coal_hd: "fl \<noteq> [] \<Longrightarrow> coal fl \<noteq> [] \<and> fst (hd (coal fl)) = fst (hd fl)"
  by (induction fl rule: coal.induct) auto

lemma coal_asc: "asc 0 lo fl \<Longrightarrow> asc 4 lo (coal fl)"
proof (induction fl arbitrary: lo rule: coal.induct)
  case (3 e f r)
  show ?case
  proof (cases "fst f \<le> fst e + snd e + 3")
    case True
    then show ?thesis using 3(1) [OF True asc_join [OF 3(3)]] True by simp
  next
    case False
    have "asc 4 (fst e + snd e + 4) (coal (f # r))" using 3(2) [OF False, of "fst e + snd e + 4"] 3(3) False by simp
    then show ?thesis using False 3(3) by simp
  qed
qed simp_all

lemma coal_apart:
  "asc 0 lo fl \<Longrightarrow> \<forall>y\<in>set fl. apart x y \<Longrightarrow> 4 \<le> snd x \<Longrightarrow> y \<in> set (coal fl) \<Longrightarrow> apart x y"
proof (induction fl arbitrary: lo rule: coal.induct)
  case (3 e f r)
  show ?case
  proof (cases "fst f \<le> fst e + snd e + 3")
    case True
    have "apart x (fst e, fst f + snd f - fst e)" using 3(3,4,5) True by (auto simp: apart_def)
    then show ?thesis using 3(1) [OF True asc_join [OF 3(3)]] 3(4-6) True by simp
  next
    case False
    have "asc 0 (fst e + snd e) (f # r)" using 3(3) by simp
    then show ?thesis using 3(2) [OF False, of "fst e + snd e"] 3(4-6) False by auto
  qed
qed simp_all

lemma coal_hi: "asc 0 lo fl \<Longrightarrow> \<forall>y\<in>set fl. fst y + snd y \<le> U \<Longrightarrow> y \<in> set (coal fl) \<Longrightarrow> fst y + snd y \<le> U"
proof (induction fl arbitrary: lo rule: coal.induct)
  case (3 e f r)
  show ?case
  proof (cases "fst f \<le> fst e + snd e + 3")
    case True
    then show ?thesis using 3(1) [OF True asc_join [OF 3(3)]] 3(3-5) True by simp
  next
    case False
    have "asc 0 (fst e + snd e) (f # r)" using 3(3) by simp
    then show ?thesis using 3(2) [OF False, of "fst e + snd e"] 3(4,5) False by auto
  qed
qed simp_all

lemma coalesce_spec:
  assumes "chain d a fl" "asc 0 lo fl" "a + 2 \<le> lo" "hdr + 8 \<le> lo" "a + 1 < hdr + 7 \<or> hdr + 7 < a" "\<forall>e\<in>set fl. fst e + snd e \<le> 32768"
  shows "\<exists>d'. coalesce d hdr a = Some d' \<and> chain d' a (coal fl) \<and> d' (hdr + 7) = d (hdr + 7) - of_nat (gaps fl) \<and>
    (\<forall>i. i \<noteq> hdr + 7 \<longrightarrow> i \<notin> (\<Union>e\<in>set fl. {fst e..<fst e + 4}) \<longrightarrow> d' i = d i)"
  using assms
proof (induction fl arbitrary: d a lo rule: coal.induct)
  case 1
  then show ?case by (subst coalesce.simps) (simp add: chain_Nil)
next
  case (2 e)
  have "coalesce d hdr (fst e) = Some d" using 2(1) by (subst coalesce.simps) (simp add: chain_Cons chain_Nil)
  then have "coalesce d hdr a = Some d" using 2(1) by (subst coalesce.simps) (simp add: chain_Cons chain_Nil Let_def)
  then show ?case using 2(1) by simp
next
  case (3 e f r)
  note pr = 3(3-8)
  have ch: "get2byte d a = fst e" "0 < fst e" "get2byte d (fst e + 2) = snd e" "get2byte d (fst e) = fst f" "0 < fst f"
    "get2byte d (fst f + 2) = snd f" "chain d (fst f) r" using pr(1) by (simp_all add: chain_Cons)
  have as: "lo \<le> fst e" "4 \<le> snd e" "fst e + snd e \<le> fst f" "4 \<le> snd f" "asc 0 (fst f + snd f) r" using pr(2) by simp_all
  show ?case
  proof (cases "fst f \<le> fst e + snd e + 3")
    case True
    let ?s = "fst f + snd f - fst e"
    define d1 where "d1 = d(hdr + 7 := d (hdr + 7) - of_int (int (fst f) - int (fst e + snd e)))"
    define d2 where "d2 = put2byte d1 (fst e) (get2byte d1 (fst f))"
    define d3 where "d3 = put2byte d2 (fst e + 2) ?s"
    have o1: "i \<noteq> hdr + 7 \<Longrightarrow> d1 i = d i" for i by (simp add: d1_def)
    have o3: "i \<noteq> hdr + 7 \<Longrightarrow> i \<notin> {fst e..<fst e + 4} \<Longrightarrow> d3 i = d i" for i by (auto simp: d3_def d2_def put2byte_out o1)
    have g1: "get2byte d1 (fst f) = get2byte d (fst f)" using as pr(4) by (intro get2byte_cong o1) auto
    have "get2byte d2 (fst f + 2) = get2byte d1 (fst f + 2)" using as by (simp add: d2_def get2byte_put_other)
    also have "\<dots> = get2byte d (fst f + 2)" using as pr(4) by (intro get2byte_cong o1) auto
    finally have g2: "get2byte d2 (fst f + 2) = snd f" using ch by simp
    have s: "?s \<le> 32768" using pr(6) by auto
    have m: "(int (fst f) + int (snd f) - int (fst e)) mod 65536 = int ?s" using s as by (simp add: of_nat_diff)
    have st: "coalesce d hdr a = coalesce d3 hdr a"
      by (subst coalesce.simps)
        (simp only: Let_def ch(1,3,4) if_P [OF ch(2)] if_P [OF conjI [OF True ch(5)]] d1_def [symmetric] d2_def [symmetric] g2 m
          nat_int d3_def [symmetric])
    have g3: "get2byte d3 (fst e) = get2byte d (fst f)"
      using g1 get2byte_less [of d1 "fst f"] by (simp add: d3_def d2_def get2byte_put_other)
    have g4: "get2byte d3 (fst e + 2) = ?s" unfolding d3_def using s by simp
    have g5: "get2byte d3 a = fst e" unfolding ch(1) [symmetric] using pr(3,4,5) as(1) by (intro get2byte_cong o3) auto
    have rng: "x \<in> set r \<Longrightarrow> fst f + snd f \<le> fst x" for x using asc_lo [OF as(5)] by auto
    have "chain d3 (fst e) r"
    proof (rule chain_jump [OF ch(7) g3])
      fix i assume "i \<in> (\<Union>e\<in>set r. {fst e..<fst e + 4})"
      then show "d3 i = d i" using rng as pr(4) by (intro o3) fastforce+
    qed
    then have c3: "chain d3 a ((fst e, ?s) # r)" using g4 g5 ch(2) by (simp add: chain_Cons)
    have a3: "asc 0 lo ((fst e, ?s) # r)" using as by simp
    obtain d' where d': "coalesce d3 hdr a = Some d'" "chain d' a (coal ((fst e, ?s) # r))"
      "d' (hdr + 7) = d3 (hdr + 7) - of_nat (gaps ((fst e, ?s) # r))"
      "\<forall>i. i \<noteq> hdr + 7 \<longrightarrow> i \<notin> (\<Union>e\<in>set ((fst e, ?s) # r). {fst e..<fst e + 4}) \<longrightarrow> d' i = d i \<or> d3 i \<noteq> d i"
      using 3(1) [OF True c3 a3 pr(3-5)] pr(6) as by auto
    have d'4: "\<forall>i. i \<noteq> hdr + 7 \<longrightarrow> i \<notin> (\<Union>e\<in>set (e # f # r). {fst e..<fst e + 4}) \<longrightarrow> d' i = d i"
      using d'(4) o3 by auto
    have "d3 (hdr + 7) = d (hdr + 7) - of_nat (fst f - (fst e + snd e))"
      using as pr(4) by (simp add: d3_def d2_def put2byte_out d1_def of_nat_diff)
    moreover have "gaps ((fst e, ?s) # r) = gaps (f # r)"
      using gaps_join [of "fst e" ?s "fst f" "snd f" r] as by simp
    ultimately have "d' (hdr + 7) = d (hdr + 7) - of_nat (gaps (e # f # r))" using d'(3) True by (simp add: diff_diff_eq)
    then show ?thesis using st d'(1,2) d'4 True by auto
  next
    case False
    have c: "chain d (fst e) (f # r)" using pr(1) by (simp add: chain_Cons)
    obtain d' where d': "coalesce d hdr (fst e) = Some d'" "chain d' (fst e) (coal (f # r))" "d' (hdr + 7) = d (hdr + 7) - of_nat (gaps (f # r))"
      "\<forall>i. i \<noteq> hdr + 7 \<longrightarrow> i \<notin> (\<Union>e\<in>set (f # r). {fst e..<fst e + 4}) \<longrightarrow> d' i = d i"
      using 3(2) [OF False c, of "fst e + snd e"] as pr(4,6) by auto
    have nt: "\<not> (fst f \<le> fst e + snd e + 3 \<and> 0 < fst f)" using False by simp
    have st: "coalesce d hdr a = coalesce d hdr (fst e)"
      by (subst coalesce.simps) (simp only: Let_def ch(1,3,4) if_P [OF ch(2)] if_not_P [OF nt])
    have rng: "x \<in> set (f # r) \<Longrightarrow> fst e + 4 \<le> fst x" for x using asc_lo [OF as(5)] as by fastforce
    have keep: "i \<noteq> hdr + 7 \<Longrightarrow> i < fst e + 4 \<Longrightarrow> d' i = d i" for i using d'(4) rng by fastforce
    have "get2byte d' a = fst e" unfolding ch(1) [symmetric] using pr(3,5) as(1) by (intro get2byte_cong keep) auto
    moreover have "get2byte d' (fst e + 2) = snd e" unfolding ch(3) [symmetric] using pr(4) as(1) by (intro get2byte_cong keep) auto
    ultimately have "chain d' a (coal (e # f # r))" using False d'(2) ch(2) by (simp add: chain_Cons)
    then show ?thesis using st d'(1,3,4) False by auto
  qed
qed

lemma asc_cut:
  assumes "asc g lo fl"
  obtains pre post where "fl = pre @ post" "\<And>x. x \<in> set pre \<Longrightarrow> fst x < s" "\<And>x. x \<in> set post \<Longrightarrow> s \<le> fst x"
proof -
  have "asc g lo fl \<Longrightarrow> \<exists>pre post. fl = pre @ post \<and> (\<forall>x\<in>set pre. fst x < s) \<and> (\<forall>x\<in>set post. s \<le> fst x)" for lo
  proof (induction fl arbitrary: lo)
    case (Cons e fl)
    show ?case
    proof (cases "fst e < s")
      case True
      then obtain pre post where "fl = pre @ post" "\<forall>x\<in>set pre. fst x < s" "\<forall>x\<in>set post. s \<le> fst x"
        using Cons.IH [of "fst e + snd e + g"] Cons.prems by auto
      then show ?thesis using True by (intro exI [of _ "e # pre"] exI [of _ post]) simp
    next
      case False
      then have "\<forall>x\<in>set (e # fl). s \<le> fst x" using Cons.prems asc_lo [of g "fst e + snd e + g" fl] by fastforce
      then show ?thesis by (intro exI [of _ "[]"] exI [of _ "e # fl"]) simp
    qed
  qed simp
  then obtain pre post where "fl = pre @ post" "\<forall>x\<in>set pre. fst x < s" "\<forall>x\<in>set post. s \<le> fst x" using assms by metis
  then show thesis by (intro that) auto
qed

text \<open>The freed place enters the list between the blocks before and behind it.\<close>

lemma free_insert:
  assumes sp: "space U hdr d (e # es) (pre @ post)"
    and lt: "\<And>x. x \<in> set pre \<Longrightarrow> fst x < fst e" and ge: "\<And>x. x \<in> set post \<Longrightarrow> fst e \<le> fst x"
  defines "d' \<equiv> put2byte (put2byte (put2byte d (endp (hdr + 1) pre) (fst e)) (fst e) (case post of [] \<Rightarrow> 0 | x # _ \<Rightarrow> fst x))
      (fst e + 2) (snd e)"
  shows "space_gap 0 U hdr d' es (pre @ e # post)" "keep hdr d d' es" "get2byte d' (hdr + 5) = get2byte d (hdr + 5)"
proof -
  note s = spaceD [OF sp]
  define top where "top = get2byte d (hdr + 5)"
  define l where "l = endp (hdr + 1) pre"
  define nx where "nx = (case post of [] \<Rightarrow> 0 | x # _ \<Rightarrow> fst x)"
  have h: "hdr + 8 \<le> top" using s(1) by (simp add: top_def)
  have ee: "top \<le> fst e" "fst e + snd e \<le> U" "4 \<le> snd e" using s(6) by (simp_all add: within_def top_def)
  have U: "U \<le> 32768" by (rule s(3))
  have wf: "x \<in> set pre \<union> set post \<Longrightarrow> top \<le> fst x \<and> fst x + snd x \<le> U \<and> 4 \<le> snd x" for x using s(7) by (auto simp: within_def top_def)
  have ap: "x \<in> set pre \<union> set post \<Longrightarrow> apart e x" for x using s(10) [of e x] by auto
  have pre: "x \<in> set pre \<Longrightarrow> fst x + snd x \<le> fst e" for x using ap [of x] lt [of x] ee(3) by (auto simp: apart_def)
  have post: "x \<in> set post \<Longrightarrow> fst e + snd e \<le> fst x" for x using ap [of x] ge [of x] wf [of x] by (auto simp: apart_def)
  have l: "l = hdr + 1 \<or> l \<in> fst ` set pre" using endp_in [of "hdr + 1" pre] by (simp add: l_def)
  have lr: "l = hdr + 1 \<or> top \<le> l \<and> l + 4 \<le> fst e" using l wf pre by fastforce
  have dl: "d' = put2byte (put2byte (put2byte d l (fst e)) (fst e) nx) (fst e + 2) (snd e)" by (simp add: d'_def l_def nx_def)
  have out: "i \<notin> {l, l + 1} \<Longrightarrow> i \<notin> {fst e..<fst e + 4} \<Longrightarrow> d' i = d i" for i by (auto simp: dl put2byte_out)
  have nx: "nx < 65536"
  proof (cases post)
    case (Cons x xs)
    then show ?thesis using wf [of x] U by (simp add: nx_def)
  qed (simp add: nx_def)
  have gl: "get2byte d' l = fst e" using lr h ee U by (auto simp: dl get2byte_put_other)
  have ge2: "get2byte d' (fst e) = nx" using nx by (simp add: dl get2byte_put_other)
  have gs: "get2byte d' (fst e + 2) = snd e" using ee U by (simp add: dl)
  have low: "i < top \<Longrightarrow> i \<notin> {hdr + 1, hdr + 2} \<Longrightarrow> d' i = d i" for i using lr ee(1) by (intro out) auto
  have t: "get2byte d' (hdr + 5) = top" unfolding top_def by (rule get2byte_cong; rule low) (use h in auto)
  then show "get2byte d' (hdr + 5) = get2byte d (hdr + 5)" by (simp add: top_def)
  have fr: "d' (hdr + 7) = d (hdr + 7)" by (rule low) (use h in auto)
  have ch: "path d (hdr + 1) pre" "chain d l post" using s(4) by (simp_all add: chain_append l_def)
  have as: "asc 4 top pre" "asc 4 top (pre @ post)" using s(5) by (simp_all add: asc_append top_def)
  have 1: "path d' (hdr + 1) pre"
  proof (rule path_link [OF ch(1) as(1)])
    show "hdr + 1 + 2 \<le> top" using h by simp
    fix i assume i: "i \<notin> {endp (hdr + 1) pre, endp (hdr + 1) pre + 1}" "i \<in> {hdr + 1, hdr + 1 + 1} \<union> (\<Union>e\<in>set pre. {fst e..<fst e + 4})"
    then have "i \<notin> {fst e..<fst e + 4}" using pre wf ee(1) h by fastforce
    then show "d' i = d i" using i(1) by (intro out) (simp_all add: l_def)
  qed
  have "get2byte d' (fst e) = get2byte d l"
    using ch(2) ge2 by (cases post) (simp_all add: chain_Nil chain_Cons nx_def)
  then have 2: "chain d' (fst e) post"
  proof (rule chain_jump [OF ch(2)])
    fix i assume "i \<in> (\<Union>x\<in>set post. {fst x..<fst x + 4})"
    then show "d' i = d i" using post ee lr h by (intro out) fastforce+
  qed
  have chn: "chain d' (hdr + 1) (pre @ e # post)" using 1 2 gl gs ee h by (simp add: chain_append chain_Cons l_def)
  have a0: "asc 0 top (pre @ e # post)"
  proof -
    have "asc 0 top pre" using as(1) by (rule asc_weaken) simp_all
    moreover have "asc 0 (fst e + snd e) post"
    proof (cases post)
      case (Cons x xs)
      have "asc 4 (fst x) post" using as(2) by (auto simp: asc_append Cons)
      then have "asc 0 (fst x) post" by (rule asc_weaken) simp_all
      then show ?thesis using post [of x] by (simp add: Cons)
    qed simp
    ultimately show ?thesis using ee pre by (auto simp: asc_append)
  qed
  have eap: "x \<in> set es \<Longrightarrow> apart x e" for x using s(8) by (auto intro: apart_sym)
  have wi: "within top U (es @ pre @ e # post)" using s(6) wf ee unfolding within_def top_def by auto
  have so: "sorted_wrt apart (es @ pre @ e # post)"
    unfolding sorted_apart_append [of es] using s(8) s(10) eap asc_apart [OF a0] by auto
  have eq: "top + size_sum es + size_sum (pre @ e # post) + unat (d (hdr + 7)) = U"
    using s(11) unfolding top_def by simp
  show "space_gap 0 U hdr d' es (pre @ e # post)"
    unfolding space_gap_def t fr Let_def using h s(2,3) chn a0 wi so eq by (simp add: top_def)
  have "d' i = d i" if xi: "x \<in> set es" "fst x \<le> i" "i < fst x + snd x" for x i
  proof (rule out)
    have x: "top \<le> fst x" using s(6) xi(1) by (auto simp: within_def top_def)
    show "i \<notin> {fst e..<fst e + 4}" using eap [OF xi(1)] xi ee by (auto simp: apart_def)
    show "i \<notin> {l, l + 1}"
    proof (cases "l = hdr + 1")
      case True
      then show ?thesis using x h xi by auto
    next
      case False
      then obtain y where y: "y \<in> set pre" "l = fst y" using l by blast
      then show ?thesis using s(10) [of x y] wf [of y] xi by (auto simp: apart_def)
    qed
  qed
  then show "keep hdr d d' es" unfolding keep_def top_def [symmetric] using low by auto
qed

lemma keep_trans:
  assumes "keep hdr d d1 es" "keep hdr d1 d2 es" "get2byte d1 (hdr + 5) = get2byte d (hdr + 5)"
  shows "keep hdr d d2 es"
  using assms by (simp add: keep_def)

text \<open>Joining the blocks.\<close>

lemma free_coalesce:
  assumes "space_gap 0 U hdr d es fl"
  obtains d' where "coalesce d hdr (hdr + 1) = Some d'" "space U hdr d' es (coal fl)" "keep hdr d d' es"
    "get2byte d' (hdr + 5) = get2byte d (hdr + 5)"
proof -
  note s = spaceD [OF assms]
  define top where "top = get2byte d (hdr + 5)"
  have h: "hdr + 8 \<le> top" using s(1) by (simp add: top_def)
  have a0: "asc 0 top fl" using s(5) by (simp add: top_def)
  have wf: "x \<in> set fl \<Longrightarrow> top \<le> fst x \<and> fst x + snd x \<le> U \<and> 4 \<le> snd x" for x using s(7) by (auto simp: within_def top_def)
  have U: "U \<le> 32768" by (rule s(3))
  obtain d' where d': "coalesce d hdr (hdr + 1) = Some d'" "chain d' (hdr + 1) (coal fl)"
    "d' (hdr + 7) = d (hdr + 7) - of_nat (gaps fl)"
    "\<And>i. i \<noteq> hdr + 7 \<Longrightarrow> i \<notin> (\<Union>e\<in>set fl. {fst e..<fst e + 4}) \<Longrightarrow> d' i = d i"
  proof -
    have "\<forall>e\<in>set fl. fst e + snd e \<le> 32768" using wf U le_trans by blast
    then show thesis using that coalesce_spec [OF s(4) a0, of hdr] h by auto
  qed
  have low: "i < top \<Longrightarrow> i \<noteq> hdr + 7 \<Longrightarrow> d' i = d i" for i using wf by (intro d'(4)) fastforce+
  have t: "get2byte d' (hdr + 5) = top" unfolding top_def by (rule get2byte_cong; rule low) (use h in auto)
  have a4: "asc 4 top (coal fl)" using a0 by (rule coal_asc)
  have wi: "within top U (es @ coal fl)"
    using s(6) asc_lo [OF a4] coal_hi [OF a0, of U] wf unfolding within_def top_def by auto
  have es4: "x \<in> set es \<Longrightarrow> 4 \<le> snd x" for x using s(6) by (auto simp: within_def)
  have so: "sorted_wrt apart (es @ coal fl)"
    unfolding sorted_apart_append [of es] using s(8,10) coal_apart [OF a0] asc_apart [OF a4] es4 by blast
  have "size_sum (es @ coal fl) \<le> U - top" by (rule apart_sum [OF so]) (use wi in \<open>auto simp: within_def\<close>)
  then have g: "gaps fl \<le> unat (d (hdr + 7))" using s(2,11) coal_sum [OF a0] by (simp add: top_def)
  then have fr: "unat (d' (hdr + 7)) = unat (d (hdr + 7)) - gaps fl"
    unfolding d'(3) using u8_less [of "d (hdr + 7)"] by (subst unat_sub) (simp_all add: word_le_nat_alt unat_u8)
  have eq: "top + size_sum es + size_sum (coal fl) + unat (d' (hdr + 7)) = U"
    using s(11) g coal_sum [OF a0] unfolding fr by (simp add: top_def)
  have "space U hdr d' es (coal fl)"
    unfolding space_gap_def t Let_def using h s(2,3) d'(2) a4 wi so eq by (simp add: top_def)
  moreover have "d' i = d i" if xi: "x \<in> set es" "fst x \<le> i" "i < fst x + snd x" for x i
  proof (rule d'(4))
    have x: "top \<le> fst x" using s(6) xi(1) by (auto simp: within_def top_def)
    then show "i \<noteq> hdr + 7" using h xi(2) by auto
    show "i \<notin> (\<Union>e\<in>set fl. {fst e..<fst e + 4})" using s(10) [OF xi(1)] wf xi by (fastforce simp: apart_def)
  qed
  then have "keep hdr d d' es" unfolding keep_def top_def [symmetric] using low by auto
  ultimately show thesis using that [OF d'(1)] t by (simp add: top_def)
qed

text \<open>A block at the front of the content area goes back to the gap.\<close>

lemma free_front:
  assumes sp: "space U hdr d es (e # fl)" and e: "fst e = get2byte d (hdr + 5)"
  defines "d1 \<equiv> blit d (hdr + 1) d (fst e) 2"
  defines "d' \<equiv> put2byte d1 (hdr + 5) (get2byte d1 (hdr + 5) + get2byte d1 (fst e + 2))"
  shows "space U hdr d' es fl" "keep hdr d d' es" "get2byte d' (hdr + 5) = get2byte d (hdr + 5) + snd e"
proof -
  note s = spaceD [OF sp]
  define top where "top = get2byte d (hdr + 5)"
  have h: "hdr + 8 \<le> top" using s(1) by (simp add: top_def)
  have ee: "fst e = top" "top + snd e \<le> U" "4 \<le> snd e" using s(7) e by (auto simp: within_def top_def)
  have U: "U \<le> 32768" by (rule s(3))
  have ch: "get2byte d (fst e + 2) = snd e" "chain d (fst e) fl" using s(4) by (simp_all add: chain_Cons)
  have o1: "i \<noteq> hdr + 1 \<Longrightarrow> i \<noteq> hdr + 2 \<Longrightarrow> d1 i = d i" for i by (auto simp: d1_def blit_def)
  have g1: "get2byte d1 (hdr + 5) = top" unfolding top_def by (rule get2byte_cong; rule o1) auto
  have g2: "get2byte d1 (fst e + 2) = snd e" unfolding ch(1) [symmetric] by (rule get2byte_cong; rule o1) (use h ee in auto)
  have dl: "d' = put2byte d1 (hdr + 5) (top + snd e)" by (simp add: d'_def g1 g2 [simplified])
  have out: "i \<notin> {hdr + 1, hdr + 2, hdr + 5, hdr + 6} \<Longrightarrow> d' i = d i" for i by (auto simp: dl put2byte_out o1)
  have t: "get2byte d' (hdr + 5) = top + snd e" using ee U by (simp add: dl)
  then show "get2byte d' (hdr + 5) = get2byte d (hdr + 5) + snd e" by (simp add: top_def)
  have fr: "d' (hdr + 7) = d (hdr + 7)" by (rule out) simp
  have as: "asc 4 (top + snd e + 4) fl" using s(5) ee(1) by simp
  have "get2byte d' (hdr + 1) = get2byte d1 (hdr + 1)" by (simp add: dl get2byte_put_other)
  also have "\<dots> = get2byte d (fst e)" by (simp add: get2byte_eq d1_def blit_def)
  finally have chn: "chain d' (hdr + 1) fl"
  proof (rule chain_jump [OF ch(2)])
    fix i assume "i \<in> (\<Union>x\<in>set fl. {fst x..<fst x + 4})"
    then show "d' i = d i" using asc_lo [OF as] h by (intro out) fastforce
  qed
  have es: "x \<in> set es \<Longrightarrow> top + snd e \<le> fst x" for x
    using s(10) [of x e] s(6) ee by (auto simp: apart_def within_def top_def)
  have wi: "within (top + snd e) U (es @ fl)"
    using s(6,7) es asc_lo [OF as] unfolding within_def by fastforce
  have so: "sorted_wrt apart (es @ fl)" unfolding sorted_apart_append [of es] using s(8-10) by auto
  have as': "asc 4 (top + snd e) fl" using as by (rule asc_weaken) simp_all
  have eq: "top + snd e + size_sum es + size_sum fl + unat (d (hdr + 7)) = U" using s(11) unfolding top_def by simp
  show "space U hdr d' es fl"
    unfolding space_gap_def t fr Let_def using h ee(2) U chn as' wi so eq by simp
  have "d' i = d i" if "x \<in> set es" "fst x \<le> i" for x i using es [OF that(1)] that(2) h by (intro out) auto
  then show "keep hdr d d' es" unfolding keep_def top_def [symmetric] using out by auto
qed

lemma freeSpace_spec:
  assumes "space U (hdrOffset p) (aData p) ((start, n) # es) fl"
  obtains d' fl' where "freeSpace p start n = Some (p\<lparr>aData := d', nFree := (nFree p + n) mod 65536\<rparr>)"
    "space U (hdrOffset p) d' es fl'" "keep (hdrOffset p) (aData p) d' es"
    "get2byte (aData p) (hdrOffset p + 5) \<le> get2byte d' (hdrOffset p + 5)"
proof -
  let ?hdr = "hdrOffset p" and ?d = "aData p"
  note s = spaceD [OF assms]
  have s4: "4 \<le> n" using s(6) by (simp add: within_def)
  obtain pre post where fl: "fl = pre @ post" "\<And>x. x \<in> set pre \<Longrightarrow> fst x < start" "\<And>x. x \<in> set post \<Longrightarrow> start \<le> fst x"
    by (rule asc_cut [OF s(5), of start]) blast
  have pl: "free_place ?d start (?hdr + 1) = Some (endp (?hdr + 1) pre, case post of [] \<Rightarrow> 0 | e # _ \<Rightarrow> fst e)"
    using s(4) fl by (intro place_spec) auto
  define d1 where "d1 = put2byte (put2byte (put2byte ?d (endp (?hdr + 1) pre) start) start (case post of [] \<Rightarrow> 0 | x # _ \<Rightarrow> fst x)) (start + 2) n"
  have 1: "space_gap 0 U ?hdr d1 es (pre @ (start, n) # post)" "keep ?hdr ?d d1 es" "get2byte d1 (?hdr + 5) = get2byte ?d (?hdr + 5)"
    using free_insert [of U ?hdr ?d "(start, n)" es pre post] assms fl by (simp_all add: d1_def)
  obtain d2 where 2: "coalesce d1 ?hdr (?hdr + 1) = Some d2" "space U ?hdr d2 es (coal (pre @ (start, n) # post))" "keep ?hdr d1 d2 es"
    "get2byte d2 (?hdr + 5) = get2byte d1 (?hdr + 5)" by (rule free_coalesce [OF 1(1)])
  obtain e r where co: "coal (pre @ (start, n) # post) = e # r"
    using coal_hd [of "pre @ (start, n) # post"] by (cases "coal (pre @ (start, n) # post)") auto
  note s2 = spaceD [OF 2(2) [unfolded co]]
  have hd: "get2byte d2 (?hdr + 1) = fst e" using s2(4) by (simp add: chain_Cons)
  have c: "d2 (?hdr + 1) = d2 (?hdr + 5) \<and> d2 (?hdr + 2) = d2 (?hdr + 6) \<longleftrightarrow> fst e = get2byte d2 (?hdr + 5)"
    unfolding hd [symmetric] get2byte_inj by (simp add: add.commute)
  have fs: "freeSpace p start n = Some (p\<lparr>aData := (if fst e = get2byte d2 (?hdr + 5) then
      put2byte (blit d2 (?hdr + 1) d2 (fst e) 2) (?hdr + 5) (get2byte (blit d2 (?hdr + 1) d2 (fst e) 2) (?hdr + 5) +
        get2byte (blit d2 (?hdr + 1) d2 (fst e) 2) (fst e + 2)) else d2), nFree := (nFree p + n) mod 65536\<rparr>)"
    using s4 unfolding freeSpace_def by (simp only: Let_def not_less [symmetric] simp_thms if_False not_le pl option.case prod.case d1_def [symmetric] 2(1) c hd if_not_P)
  have k: "keep ?hdr ?d d2 es" by (rule keep_trans [OF 1(2) 2(3) 1(3)])
  show thesis
  proof (cases "fst e = get2byte d2 (?hdr + 5)")
    case True
    note f = free_front [OF 2(2) [unfolded co] True]
    show thesis
    proof (rule that [OF fs [unfolded if_P [OF True]] f(1)])
      show "keep ?hdr ?d (put2byte (blit d2 (?hdr + 1) d2 (fst e) 2) (?hdr + 5) (get2byte (blit d2 (?hdr + 1) d2 (fst e) 2) (?hdr + 5) +
        get2byte (blit d2 (?hdr + 1) d2 (fst e) 2) (fst e + 2))) es"
        by (rule keep_trans [OF k f(2)]) (simp add: 2(4) 1(3))
    qed (use f(3) 2(4) 1(3) in linarith)
  next
    case False
    show thesis by (rule that [OF fs [unfolded if_not_P [OF False]] 2(2) k]) (simp add: 2(4) 1(3))
  qed
qed

end
