(* ===== verification/BtCell.thy ===== *)
theory BtCell
  imports BtSpace
begin

text \<open>
  Cells and well-formed pages: the parser of a cell reads no byte behind the cell, so that cells can be
  moved; the invariant \<open>page_inv\<close> of a page and its content \<open>page_cells\<close>; \<^verbatim>\<open>defragmentPage\<close> keeps
  both, and \<^verbatim>\<open>allocateSpace\<close> finds the space that the free count promises.
\<close>

subsection \<open>A cell is determined by its own bytes\<close>

lemma loop32_bounds: "n < 9 \<Longrightarrow> n < fst (get_varint32_loop p n x) \<and> fst (get_varint32_loop p n x) \<le> 9"
proof (induction p n x rule: get_varint32_loop.induct)
  case (1 p n x)
  show ?case
  proof (cases "p n AND 128 \<noteq> 0 \<and> Suc n < 9")
    case True
    then show ?thesis using "1.IH" [OF refl refl refl True] by (subst (1 2) get_varint32_loop.simps) (simp add: Let_def)
  next
    case False
    then show ?thesis using "1.prems" by (subst (1 2) get_varint32_loop.simps) (auto simp: Let_def)
  qed
qed

lemma loop32_local:
  "n < 9 \<Longrightarrow> (\<And>i. n \<le> i \<Longrightarrow> i < fst (get_varint32_loop p n x) \<Longrightarrow> q i = p i) \<Longrightarrow>
   get_varint32_loop q n x = get_varint32_loop p n x"
proof (induction p n x rule: get_varint32_loop.induct)
  case (1 p n x)
  have qn: "q n = p n" using "1.prems"(2) [of n] loop32_bounds [OF "1.prems"(1)] by simp
  show ?case
  proof (cases "p n AND 128 \<noteq> 0 \<and> Suc n < 9")
    case True
    have s: "get_varint32_loop p n x = get_varint32_loop p (Suc n) (shl x 7 OR ucast (p n AND 127))"
      using True by (subst get_varint32_loop.simps) (simp add: Let_def)
    have "get_varint32_loop q (Suc n) (shl x 7 OR ucast (p n AND 127)) = get_varint32_loop p (Suc n) (shl x 7 OR ucast (p n AND 127))"
    proof (rule "1.IH" [OF refl refl refl True])
      fix i assume "Suc n \<le> i" "i < fst (get_varint32_loop p (Suc n) (shl x 7 OR ucast (p n AND 127)))"
      then show "q i = p i" using "1.prems"(2) s by simp
    qed (use True in simp)
    moreover have "get_varint32_loop q n x = get_varint32_loop q (Suc n) (shl x 7 OR ucast (p n AND 127))"
      using True qn by (subst get_varint32_loop.simps) (simp add: Let_def)
    ultimately show ?thesis using s by simp
  next
    case False
    then show ?thesis using qn by (subst (1 2) get_varint32_loop.simps) (auto simp: Let_def)
  qed
qed

lemma loop32_pos: "0 < fst (get_varint32_loop p 2 x)" "1 < fst (get_varint32_loop p 2 x)" "fst (get_varint32_loop p 2 x) \<le> 9"
  using loop32_bounds [of 2 p x] by simp_all

lemma getVarint32_local:
  assumes "\<And>i. i < fst (getVarint32 p) \<Longrightarrow> q i = p i"
  shows "getVarint32 q = getVarint32 p"
proof -
  have l: "0 < fst (getVarint32 p)"
    by (auto simp: getVarint32_def sqlite3GetVarint32_def Let_def loop32_pos)
  have q0: "q 0 = p 0" using assms [of 0] l by simp
  show ?thesis
  proof (cases "p 0 \<le> 0x7f \<or> 0 \<le> sint (p 0)")
    case True
    then show ?thesis by (auto simp: getVarint32_def sqlite3GetVarint32_def q0)
  next
    case False
    then have g: "getVarint32 p = (let x = ucast (p 0 AND 127) in if 0 \<le> sint (p 1) then (2, shl x 7 OR ucast (p 1)) else
      let x = shl x 7 OR ucast (p 1 AND 127) in get_varint32_loop p 2 x)" by (simp add: getVarint32_def sqlite3GetVarint32_def)
    have g': "getVarint32 q = (let x = ucast (p 0 AND 127) in if 0 \<le> sint (q 1) then (2, shl x 7 OR ucast (q 1)) else
      let x = shl x 7 OR ucast (q 1 AND 127) in get_varint32_loop q 2 x)" using False by (simp add: getVarint32_def sqlite3GetVarint32_def q0)
    have "1 < fst (getVarint32 p)" unfolding g Let_def using loop32_pos(2) [of p] by simp
    then have q1: "q 1 = p 1" by (rule assms)
    show ?thesis
    proof (cases "0 \<le> sint (p 1)")
      case True
      then show ?thesis unfolding g g' q1 by simp
    next
      case False
      have "get_varint32_loop q 2 x = get_varint32_loop p 2 x" if "getVarint32 p = get_varint32_loop p 2 x" for x
        using assms that by (intro loop32_local) simp_all
      then show ?thesis using False unfolding g g' q1 by (simp add: Let_def g)
    qed
  qed
qed

lemma getVarint32_len: "fst (getVarint32 p) \<le> 9"
  by (auto simp: getVarint32_def sqlite3GetVarint32_def Let_def loop32_pos)

lemma getVarint_local:
  assumes "\<And>i. i < fst (sqlite3GetVarint p) \<Longrightarrow> q i = p i"
  shows "sqlite3GetVarint q = sqlite3GetVarint p"
  using assms loop_local [of 0 p 0 q] unfolding get_varint_eq_ref varint_ref_def by simp

lemma getVarint_len: "fst (sqlite3GetVarint p) \<le> 9"
  using loop_bounds [of 0 p 0] by (simp add: get_varint_eq_ref varint_ref_def)

definition sizes_ok :: "MemPage \<Rightarrow> bool" where
  "sizes_ok p \<longleftrightarrow> minLocal p \<le> maxLocal p \<and> maxLocal p \<le> 32768 \<and> childPtrSize p \<le> 4"

lemma parse_parts:
  obtains n pl key nd where "n \<le> childPtrSize p + 18"
    "parseCellPtr bt p c =
      (if unat (pl :: u32) \<le> maxLocal p then
         \<lparr>nKey = key, nData = nd, nHeader = n, nLocal = unat pl, iOverflow = 0,
           nSize = (if unat pl + n < 4 then 4 else unat pl + n) mod 65536\<rparr>
       else
         (let surplus = minLocal p + unat (pl - of_nat (minLocal p)) mod (usableSize bt - 4);
              local = (if surplus \<le> maxLocal p then surplus else minLocal p)
          in \<lparr>nKey = key, nData = nd, nHeader = n, nLocal = local, iOverflow = local + n, nSize = (local + n + 4) mod 65536\<rparr>))"
proof -
  define n0 where "n0 = childPtrSize p"
  define r1 where "r1 = (if hasData p then getVarint32 (at c n0) else (0, 0))"
  define r2 where "r2 = (if intKey p then (case sqlite3GetVarint (at c (n0 + fst r1)) of (l, k) \<Rightarrow> (l, k, snd r1))
             else (case getVarint32 (at c (n0 + fst r1)) of (l, x) \<Rightarrow> (l, ucast x, snd r1 + x)))"
  have l: "fst r1 \<le> 9" "fst r2 \<le> 9" by (simp_all add: r1_def r2_def getVarint32_len getVarint_len case_prod_beta)
  show thesis
  proof (rule that [of "n0 + fst r1 + fst r2" "snd (snd r2)" "fst (snd r2)" "snd r1"])
    show "n0 + fst r1 + fst r2 \<le> childPtrSize p + 18" using l by (simp add: n0_def)
  qed (unfold parseCellPtr_def Let_def n0_def [symmetric] r1_def [symmetric] case_prod_beta r2_def [unfolded case_prod_beta, symmetric], rule refl)
qed

lemma parse_size:
  assumes "sizes_ok p"
  shows "nHeader (parseCellPtr bt p c) \<le> nSize (parseCellPtr bt p c)" "4 \<le> cellSizePtr bt p c"
proof -
  have s: "minLocal p \<le> maxLocal p" "maxLocal p \<le> 32768" "childPtrSize p \<le> 4" using assms by (simp_all add: sizes_ok_def)
  show "nHeader (parseCellPtr bt p c) \<le> nSize (parseCellPtr bt p c)"
    by (rule parse_parts [of p bt c]) (use s in \<open>simp add: Let_def\<close>)
  show "4 \<le> cellSizePtr bt p c"
    unfolding cellSizePtr_def by (rule parse_parts [of p bt c]) (use s in \<open>simp add: Let_def\<close>)
qed

lemma parse_local:
  assumes "\<And>i. childPtrSize p \<le> i \<Longrightarrow> i < nHeader (parseCellPtr bt p c) \<Longrightarrow> c' i = c i"
  shows "parseCellPtr bt p c' = parseCellPtr bt p c"
proof -
  define n0 where "n0 = childPtrSize p"
  define r1 where "r1 = (if hasData p then getVarint32 (at c n0) else (0, 0))"
  define r2 where "r2 = (if intKey p then (case sqlite3GetVarint (at c (n0 + fst r1)) of (l, k) \<Rightarrow> (l, k, snd r1))
             else (case getVarint32 (at c (n0 + fst r1)) of (l, x) \<Rightarrow> (l, ucast x, snd r1 + x)))"
  have h: "nHeader (parseCellPtr bt p c) = n0 + fst r1 + fst r2"
    unfolding parseCellPtr_def Let_def n0_def [symmetric] r1_def [symmetric] case_prod_beta r2_def [unfolded case_prod_beta, symmetric] by simp
  have e1: "(if hasData p then getVarint32 (at c' n0) else (0, 0)) = r1"
  proof (cases "hasData p")
    case True
    have "getVarint32 (at c' n0) = getVarint32 (at c n0)"
      by (rule getVarint32_local, rule assms) (use True in \<open>simp_all add: h r1_def n0_def\<close>)
    then show ?thesis using True by (simp add: r1_def)
  qed (simp add: r1_def)
  have e2: "(if intKey p then (case sqlite3GetVarint (at c' (n0 + fst r1)) of (l, k) \<Rightarrow> (l, k, snd r1))
             else (case getVarint32 (at c' (n0 + fst r1)) of (l, x) \<Rightarrow> (l, ucast x, snd r1 + x))) = r2"
  proof (cases "intKey p")
    case True
    have "sqlite3GetVarint (at c' (n0 + fst r1)) = sqlite3GetVarint (at c (n0 + fst r1))"
      by (rule getVarint_local, rule assms) (use True in \<open>simp_all add: h r2_def n0_def case_prod_beta\<close>)
    then show ?thesis using True by (simp add: r2_def)
  next
    case False
    have "getVarint32 (at c' (n0 + fst r1)) = getVarint32 (at c (n0 + fst r1))"
      by (rule getVarint32_local, rule assms) (use False in \<open>simp_all add: h r2_def n0_def case_prod_beta\<close>)
    then show ?thesis using False by (simp add: r2_def)
  qed
  show ?thesis
    unfolding parseCellPtr_def Let_def n0_def [symmetric] case_prod_beta r1_def [symmetric] e1 r2_def [unfolded case_prod_beta, symmetric]
      e2 [unfolded case_prod_beta] by (rule refl)
qed

lemma size_local:
  assumes "sizes_ok p" "\<And>i. childPtrSize p \<le> i \<Longrightarrow> i < cellSizePtr bt p c \<Longrightarrow> c' i = c i"
  shows "cellSizePtr bt p c' = cellSizePtr bt p c"
proof -
  have "parseCellPtr bt p c' = parseCellPtr bt p c"
    by (rule parse_local, rule assms(2)) (use parse_size(1) [OF assms(1), of bt c] in \<open>simp_all add: cellSizePtr_def\<close>)
  then show ?thesis by (simp add: cellSizePtr_def)
qed

subsection \<open>Well-formed pages\<close>

definition cell_at :: "mem \<Rightarrow> extent \<Rightarrow> bytes" where
  "cell_at d e = map (at d (fst e)) [0..<snd e]"

text \<open>The cells of a page: the places the pointers of the page refer to, with their sizes.\<close>

definition cells :: "BtShared \<Rightarrow> MemPage \<Rightarrow> mem \<Rightarrow> nat \<Rightarrow> extent list \<Rightarrow> bool" where
  "cells bt p d n cs \<longleftrightarrow> length cs = n \<and>
     (\<forall>i<n. get2byte d (cellOffset p + 2 * i) = fst (cs ! i) \<and> cellSizePtr bt p (at d (fst (cs ! i))) = snd (cs ! i))"

lemma parse_upd [simp]:
  "parseCellPtr bt (p\<lparr>aData := d\<rparr>) = parseCellPtr bt p" "parseCellPtr bt (p\<lparr>nFree := n\<rparr>) = parseCellPtr bt p"
  "parseCellPtr bt (p\<lparr>nCell := n\<rparr>) = parseCellPtr bt p" "parseCellPtr bt (p\<lparr>idxShift := b\<rparr>) = parseCellPtr bt p"
  "parseCellPtr bt (p\<lparr>aOvfl := os\<rparr>) = parseCellPtr bt p"
  by (induct p; unfold parseCellPtr_def MemPage.update_convs MemPage.select_convs; rule refl)+

lemma cells_upd [simp]:
  "cells bt (p\<lparr>aData := d\<rparr>) = cells bt p" "cells bt (p\<lparr>nFree := n\<rparr>) = cells bt p" "cells bt (p\<lparr>nCell := n\<rparr>) = cells bt p"
  "cells bt (p\<lparr>idxShift := b\<rparr>) = cells bt p" "cells bt (p\<lparr>aOvfl := os\<rparr>) = cells bt p"
  by (intro ext, simp add: cells_def cellSizePtr_def)+

text \<open>The part of a page that its operations do not change.\<close>

definition frame_ok :: "BtShared \<Rightarrow> MemPage \<Rightarrow> bool" where
  "frame_ok bt p \<longleftrightarrow> sizes_ok p \<and> hdrOffset p + 8 \<le> cellOffset p \<and> usableSize bt \<le> 32768"

definition page_inv :: "BtShared \<Rightarrow> MemPage \<Rightarrow> extent list \<Rightarrow> extent list \<Rightarrow> bool" where
  "page_inv bt p cs fl \<longleftrightarrow>
     frame_ok bt p \<and> aOvfl p = [] \<and> get2byte (aData p) (hdrOffset p + 3) = nCell p \<and>
     cellOffset p + 2 * nCell p \<le> get2byte (aData p) (hdrOffset p + 5) \<and>
     space (usableSize bt) (hdrOffset p) (aData p) cs fl \<and> cells bt p (aData p) (nCell p) cs \<and>
     nFree p + cellOffset p + 2 * nCell p + size_sum cs = usableSize bt"

definition mempage_ok :: "BtShared \<Rightarrow> MemPage \<Rightarrow> bool" where
  "mempage_ok bt p \<longleftrightarrow> (\<exists>cs fl. page_inv bt p cs fl)"

text \<open>The content of a page is the list of its cells.\<close>

definition page_cells :: "BtShared \<Rightarrow> MemPage \<Rightarrow> bytes list" where
  "page_cells bt p = map (\<lambda>i. cell_at (aData p) (findCell p i, cellSize bt p i)) [0..<nCell p]"

lemma page_cells_eq:
  assumes "cells bt p (aData p) (nCell p) cs"
  shows "page_cells bt p = map (cell_at (aData p)) cs"
  using assms unfolding page_cells_def cells_def
  by (intro nth_equalityI) (simp_all add: findCell_def cellSize_def parseCell_def cellSizePtr_def)

lemma cell_at_eq: "cell_at d e = cell_at d' e' \<longleftrightarrow> snd e = snd e' \<and> (\<forall>i < snd e. d (fst e + i) = d' (fst e' + i))"
  by (auto simp: cell_at_def list_eq_iff_nth_eq)

lemma keep_cell: "keep hdr d d' es \<Longrightarrow> e \<in> set es \<Longrightarrow> cell_at d' e = cell_at d e"
  by (auto simp: cell_at_eq keep_def)

lemma cells_keep:
  assumes "frame_ok bt p" "cells bt p d n cs" "map (cell_at d') cs' = map (cell_at d) cs"
    "\<And>i. i < n \<Longrightarrow> get2byte d' (cellOffset p + 2 * i) = fst (cs' ! i)"
  shows "cells bt p d' n cs'"
proof -
  have l: "length cs' = n" using map_eq_imp_length_eq [OF assms(3)] assms(2) by (simp add: cells_def)
  have "cellSizePtr bt p (at d' (fst (cs' ! i))) = snd (cs' ! i)" if i: "i < n" for i
  proof -
    have "cell_at d' (cs' ! i) = cell_at d (cs ! i)"
      using arg_cong [OF assms(3), of "\<lambda>x. x ! i"] i l assms(2) by (simp add: cells_def)
    then have e: "snd (cs' ! i) = snd (cs ! i)" "\<And>j. j < snd (cs ! i) \<Longrightarrow> d' (fst (cs' ! i) + j) = d (fst (cs ! i) + j)"
      by (auto simp: cell_at_eq)
    have s: "cellSizePtr bt p (at d (fst (cs ! i))) = snd (cs ! i)" using assms(2) i by (simp add: cells_def)
    have "cellSizePtr bt p (at d' (fst (cs' ! i))) = cellSizePtr bt p (at d (fst (cs ! i)))"
      by (rule size_local) (use assms(1) e(2) s in \<open>simp_all add: frame_ok_def\<close>)
    then show ?thesis using s e(1) by simp
  qed
  then show ?thesis using assms(4) l by (simp add: cells_def)
qed

lemma space_cong:
  assumes "space_gap g U hdr d es fl" "\<And>i. i \<in> {hdr + 1, hdr + 2, hdr + 5, hdr + 6, hdr + 7} \<Longrightarrow> d' i = d i"
    "\<And>i. i \<in> (\<Union>e\<in>set fl. {fst e..<fst e + 4}) \<Longrightarrow> d' i = d i"
  shows "space_gap g U hdr d' es fl"
proof -
  have "chain d' (hdr + 1) fl \<longleftrightarrow> chain d (hdr + 1) fl"
    by (rule chain_cong) (use assms(2,3) in auto)
  moreover have "get2byte d' (hdr + 5) = get2byte d (hdr + 5)" by (rule get2byte_cong; rule assms(2)) simp_all
  moreover have "d' (hdr + 7) = d (hdr + 7)" by (rule assms(2)) simp
  ultimately show ?thesis using assms(1) unfolding space_gap_def by simp
qed

lemma space_move:
  "space_gap g U hdr d (xs @ e # ys) fl \<longleftrightarrow> space_gap g U hdr d (e # xs @ ys) fl"
proof -
  have "sorted_wrt apart ((xs @ e # ys) @ fl) \<longleftrightarrow> sorted_wrt apart ((e # xs @ ys) @ fl)"
    unfolding append_assoc append_Cons sorted_wrt_append [of _ xs] sorted_wrt.simps
    using apart_sym [of e] apart_sym [of _ e] by (metis Un_iff insert_iff set_append list.set(2))
  then show ?thesis unfolding space_gap_def Let_def within_def by (simp add: ac_simps)
qed

subsection \<open>Defragmentation\<close>

fun places :: "nat \<Rightarrow> nat list \<Rightarrow> extent list" where
  "places brk [] = []"
| "places brk (s # ss) = (brk - s, s) # places (brk - s) ss"

lemma places_length [simp]: "length (places brk ss) = length ss"
  by (induction ss arbitrary: brk) auto

lemma places_sizes: "map snd (places brk ss) = ss"
  by (induction ss arbitrary: brk) auto

lemma places_in: "sum_list ss \<le> brk \<Longrightarrow> e \<in> set (places brk ss) \<Longrightarrow> brk - sum_list ss \<le> fst e \<and> fst e + snd e \<le> brk \<and> snd e \<in> set ss"
proof (induction ss arbitrary: brk)
  case (Cons s ss)
  have l: "s \<le> brk" "sum_list ss \<le> brk - s" using Cons.prems(1) by simp_all
  show ?case
  proof (cases "e \<in> set (places (brk - s) ss)")
    case True
    then show ?thesis using Cons.IH [OF l(2)] l by auto
  next
    case False
    then show ?thesis using Cons.prems(2) l by auto
  qed
qed simp

lemma places_apart: "sum_list ss \<le> brk \<Longrightarrow> sorted_wrt apart (places brk ss)"
proof (induction ss arbitrary: brk)
  case (Cons s ss)
  have "apart (brk - s, s) e" if "e \<in> set (places (brk - s) ss)" for e
    using places_in [of ss "brk - s" e] that Cons.prems by (simp add: apart_def)
  then show ?case using Cons by simp
qed simp

lemma defrag_spec:
  assumes "co + 2 * (i + length cs) \<le> brk - size_sum cs" "size_sum cs \<le> brk" "brk < 65536"
    "\<And>j. j < length cs \<Longrightarrow> get2byte d (co + 2 * (i + j)) = fst (cs ! j)" "\<And>e. e \<in> set cs \<Longrightarrow> size_of (at temp (fst e)) = snd e"
  shows "\<exists>d'. defrag_loop size_of temp co [i..<i + length cs] d brk = Some (d', brk - size_sum cs) \<and>
    (\<forall>j<length cs. get2byte d' (co + 2 * (i + j)) = fst (places brk (map snd cs) ! j)) \<and>
    map (cell_at d') (places brk (map snd cs)) = map (cell_at temp) cs \<and>
    (\<forall>x. (x < co + 2 * i \<or> co + 2 * (i + length cs) \<le> x) \<longrightarrow> (x < brk - size_sum cs \<or> brk \<le> x) \<longrightarrow> d' x = d x)"
  using assms
proof (induction cs arbitrary: i d brk)
  case Nil
  then show ?case by simp
next
  case (Cons c cs)
  define b where "b = brk - snd c"
  define d1 where "d1 = put2byte (blit d b temp (fst c) (snd c)) (co + 2 * i) b"
  have sz: "snd c + size_sum cs \<le> brk" "b < 65536" "co + 2 * (Suc i + length cs) \<le> b - size_sum cs" "size_sum cs \<le> b"
    using Cons.prems(1-3) by (simp_all add: b_def)
  have lp: "get2byte d (co + 2 * i) = fst c" "size_of (at temp (fst c)) = snd c" using Cons.prems(4) [of 0] Cons.prems(5) by simp_all
  have d1: "(x < co + 2 * i \<or> co + 2 * i + 2 \<le> x) \<Longrightarrow> x < b \<or> brk \<le> x \<Longrightarrow> d1 x = d x" for x
    using sz(1) by (auto simp: d1_def put2byte_out blit_def b_def)
  have c1: "k < snd c \<Longrightarrow> d1 (b + k) = temp (fst c + k)" for k using sz by (simp add: d1_def put2byte_out blit_def)
  have p1: "get2byte d1 (co + 2 * i) = b" using sz(2) by (simp add: d1_def)
  have pr: "get2byte d1 (co + 2 * (Suc i + j)) = fst (cs ! j)" if "j < length cs" for j
  proof -
    have "get2byte d1 (co + 2 * (Suc i + j)) = get2byte d (co + 2 * (Suc i + j))" using sz that by (intro get2byte_cong d1) auto
    then show ?thesis using Cons.prems(4) [of "Suc j"] that by simp
  qed
  obtain d' where d': "defrag_loop size_of temp co [Suc i..<Suc i + length cs] d1 b = Some (d', b - size_sum cs)"
    "\<And>j. j < length cs \<Longrightarrow> get2byte d' (co + 2 * (Suc i + j)) = fst (places b (map snd cs) ! j)"
    "map (cell_at d') (places b (map snd cs)) = map (cell_at temp) cs"
    "\<And>x. (x < co + 2 * Suc i \<or> co + 2 * (Suc i + length cs) \<le> x) \<Longrightarrow> (x < b - size_sum cs \<or> b \<le> x) \<Longrightarrow> d' x = d1 x"
  proof -
    have "\<exists>d'. defrag_loop size_of temp co [Suc i..<Suc i + length cs] d1 b = Some (d', b - size_sum cs) \<and>
      (\<forall>j<length cs. get2byte d' (co + 2 * (Suc i + j)) = fst (places b (map snd cs) ! j)) \<and>
      map (cell_at d') (places b (map snd cs)) = map (cell_at temp) cs \<and>
      (\<forall>x. (x < co + 2 * Suc i \<or> co + 2 * (Suc i + length cs) \<le> x) \<longrightarrow> (x < b - size_sum cs \<or> b \<le> x) \<longrightarrow> d' x = d1 x)"
      by (rule Cons.IH) (use sz pr Cons.prems(5) in auto)
    then show thesis using that by blast
  qed
  have u: "[i..<i + length (c # cs)] = i # [Suc i..<Suc i + length cs]" using upt_conv_Cons [of i "i + length (c # cs)"] by simp
  have st: "defrag_loop size_of temp co [i..<i + length (c # cs)] d brk = Some (d', brk - size_sum (c # cs))"
    unfolding u using d'(1) sz(1) by (simp add: lp Let_def b_def d1_def)
  have "get2byte d' (co + 2 * (i + j)) = fst (places brk (map snd (c # cs)) ! j)" if j: "j < length (c # cs)" for j
  proof (cases j)
    case 0
    have "get2byte d' (co + 2 * i) = get2byte d1 (co + 2 * i)" using sz by (intro get2byte_cong d'(4)) auto
    then show ?thesis using 0 p1 by (simp add: b_def)
  next
    case (Suc k)
    then show ?thesis using d'(2) [of k] j by (simp add: b_def)
  qed
  moreover have dk: "d' (b + k) = d1 (b + k)" for k by (rule d'(4)) (use sz in auto)
  have "cell_at d' (b, snd c) = cell_at temp c" using c1 dk by (simp add: cell_at_eq)
  then have "map (cell_at d') (places brk (map snd (c # cs))) = map (cell_at temp) (c # cs)"
    using d'(3) by (simp add: b_def)
  moreover have "d' x = d x" if x: "x < co + 2 * i \<or> co + 2 * (i + length (c # cs)) \<le> x" "x < brk - size_sum (c # cs) \<or> brk \<le> x" for x
  proof -
    have "d' x = d1 x" using x sz by (intro d'(4)) (auto simp: b_def)
    also have "\<dots> = d x" using x sz by (intro d1) (auto simp: b_def)
    finally show ?thesis .
  qed
  ultimately show ?case using st by blast
qed

lemma defragment_spec:
  assumes "page_inv bt p cs fl"
  obtains d' cs' where "defragmentPage bt True p = Some (p\<lparr>aData := d'\<rparr>, SQLITE_OK)" "page_inv bt (p\<lparr>aData := d'\<rparr>) cs' []"
    "map (cell_at d') cs' = map (cell_at (aData p)) cs" "\<And>i. i \<le> hdrOffset p \<Longrightarrow> d' i = aData p i" "d' (hdrOffset p + 7) = 0"
proof -
  let ?hdr = "hdrOffset p" and ?co = "cellOffset p" and ?d = "aData p" and ?U = "usableSize bt" and ?n = "nCell p"
  have pi: "frame_ok bt p" "aOvfl p = []" "get2byte ?d (?hdr + 3) = ?n" "?co + 2 * ?n \<le> get2byte ?d (?hdr + 5)"
    "space ?U ?hdr ?d cs fl" "cells bt p ?d ?n cs" "nFree p + ?co + 2 * ?n + size_sum cs = ?U"
    using assms by (simp_all add: page_inv_def)
  note s = spaceD [OF pi(5)]
  have co: "?hdr + 8 \<le> ?co" using pi(1) by (simp add: frame_ok_def)
  define top where "top = get2byte ?d (?hdr + 5)"
  define temp where "temp = blit (\<lambda>_. 0) top ?d top (?U - top)"
  have len: "length cs = ?n" using pi(6) by (simp add: cells_def)
  have tmp: "top \<le> x \<Longrightarrow> x < ?U \<Longrightarrow> temp x = ?d x" for x by (simp add: temp_def blit_def)
  have ce: "e \<in> set cs \<Longrightarrow> top \<le> fst e \<and> fst e + snd e \<le> ?U \<and> 4 \<le> snd e" for e using s(6) by (auto simp: within_def top_def)
  have tc: "map (cell_at temp) cs = map (cell_at ?d) cs"
    using ce by (fastforce simp: cell_at_eq intro!: tmp)
  have sz: "cellSizePtr bt p (at temp (fst e)) = snd e" if e: "e \<in> set cs" for e
  proof -
    have "cellSizePtr bt p (at ?d (fst e)) = snd e" using pi(6) e by (auto simp: cells_def in_set_conv_nth)
    moreover have "cellSizePtr bt p (at temp (fst e)) = cellSizePtr bt p (at ?d (fst e))"
      by (rule size_local) (use pi(1) ce [OF e] calculation in \<open>auto simp: frame_ok_def intro!: tmp\<close>)
    ultimately show ?thesis by simp
  qed
  define ps where "ps = places ?U (map snd cs)"
  define brk where "brk = ?U - size_sum cs"
  have br: "?co + 2 * ?n \<le> brk" "brk \<le> ?U" "size_sum cs \<le> ?U" "?U < 65536" using pi(7) s(3) by (simp_all add: brk_def)
  obtain d1 where d1: "defrag_loop (cellSizePtr bt p) temp ?co [0..<?n] ?d ?U = Some (d1, brk)"
    "\<And>j. j < ?n \<Longrightarrow> get2byte d1 (?co + 2 * j) = fst (ps ! j)" "map (cell_at d1) ps = map (cell_at temp) cs"
    "\<And>x. x < ?co \<or> ?co + 2 * ?n \<le> x \<Longrightarrow> x < brk \<or> ?U \<le> x \<Longrightarrow> d1 x = ?d x"
  proof -
    have "\<exists>d'. defrag_loop (cellSizePtr bt p) temp ?co [0..<0 + length cs] ?d ?U = Some (d', ?U - size_sum cs) \<and>
      (\<forall>j<length cs. get2byte d' (?co + 2 * (0 + j)) = fst (places ?U (map snd cs) ! j)) \<and>
      map (cell_at d') (places ?U (map snd cs)) = map (cell_at temp) cs \<and>
      (\<forall>x. (x < ?co + 2 * 0 \<or> ?co + 2 * (0 + length cs) \<le> x) \<longrightarrow> (x < ?U - size_sum cs \<or> ?U \<le> x) \<longrightarrow> d' x = ?d x)"
      by (rule defrag_spec) (use br sz pi(6) len in \<open>simp_all add: brk_def cells_def\<close>)
    then show thesis using that unfolding brk_def [symmetric] ps_def [symmetric] len by auto
  qed
  define d' where "d' = fill ((put2byte d1 (?hdr + 5) brk)(?hdr + 1 := 0, ?hdr + 2 := 0, ?hdr + 7 := 0)) (?co + 2 * ?n) (brk - (?co + 2 * ?n)) 0"
  have o: "x \<notin> {?hdr + 1, ?hdr + 2, ?hdr + 5, ?hdr + 6, ?hdr + 7} \<Longrightarrow> x < ?co + 2 * ?n \<or> brk \<le> x \<Longrightarrow> d' x = d1 x" for x
    using br by (auto simp: d'_def fill_def put2byte_out)
  have v: "d' (?hdr + 1) = 0" "d' (?hdr + 2) = 0" "d' (?hdr + 7) = 0" using co by (simp_all add: d'_def fill_def)
  have t: "get2byte d' (?hdr + 5) = brk"
  proof -
    have "get2byte d' (?hdr + 5) = get2byte (put2byte d1 (?hdr + 5) brk) (?hdr + 5)"
      by (rule get2byte_cong) (use co in \<open>simp_all add: d'_def fill_def\<close>)
    then show ?thesis using br by simp
  qed
  have fr: "defragmentPage bt True p = Some (p\<lparr>aData := d'\<rparr>, SQLITE_OK)"
    unfolding defragmentPage_def Let_def top_def [symmetric] temp_def [symmetric] d1(1) by (simp add: d'_def Let_def)
  have n3: "get2byte d' (?hdr + 3) = ?n"
  proof -
    have "get2byte d' (?hdr + 3) = get2byte d1 (?hdr + 3)" by (intro get2byte_cong o) (use co in auto)
    also have "\<dots> = get2byte ?d (?hdr + 3)" by (intro get2byte_cong d1(4)) (use co br in auto)
    finally show ?thesis using pi(3) by simp
  qed
  have ps: "e \<in> set ps \<Longrightarrow> brk \<le> fst e \<and> fst e + snd e \<le> ?U \<and> 4 \<le> snd e" for e
    using places_in [of "map snd cs" ?U e] br(3) ce by (auto simp: ps_def brk_def)
  have ct: "map (cell_at d') ps = map (cell_at ?d) cs"
  proof -
    have "map (cell_at d') ps = map (cell_at d1) ps"
    proof (rule map_cong [OF refl])
      fix e assume "e \<in> set ps"
      then show "cell_at d' e = cell_at d1 e" using ps [of e] br co by (auto simp: cell_at_eq intro!: o)
    qed
    then show ?thesis using d1(3) tc by simp
  qed
  have cl: "cells bt p d' ?n ps"
  proof (rule cells_keep [OF pi(1,6) ct])
    fix i assume i: "i < ?n"
    have "get2byte d' (?co + 2 * i) = get2byte d1 (?co + 2 * i)" by (intro get2byte_cong o) (use co i in auto)
    then show "get2byte d' (?co + 2 * i) = fst (ps ! i)" using d1(2) [OF i] by simp
  qed
  have sp: "space ?U ?hdr d' ps []"
    unfolding space_gap_def t Let_def
    using br co s(3) v ps places_apart [of "map snd cs" ?U] by (simp add: chain_Nil get2byte_zero within_def ps_def places_sizes brk_def)
  have ss: "size_sum ps = size_sum cs" by (simp add: ps_def places_sizes)
  have inv: "page_inv bt (p\<lparr>aData := d'\<rparr>) ps []"
    using cl pi(1,2,7) n3 t br(1) sp ss unfolding page_inv_def by (simp add: frame_ok_def sizes_ok_def)
  have "d' i = ?d i" if "i \<le> ?hdr" for i
  proof -
    have "d' i = d1 i" by (rule o) (use that co in auto)
    also have "\<dots> = ?d i" by (rule d1(4)) (use that co br in auto)
    finally show ?thesis .
  qed
  then show thesis using that [OF fr inv ct] v(3) by blast
qed

subsection \<open>Allocation\<close>

lemma alloc_gap:
  assumes "space U hdr d es fl" "hdr + 8 + n \<le> get2byte d (hdr + 5)" "4 \<le> n"
  defines "d' \<equiv> put2byte d (hdr + 5) (get2byte d (hdr + 5) - n)"
  shows "space U hdr d' ((get2byte d (hdr + 5) - n, n) # es) fl" "keep hdr d d' es" "get2byte d' (hdr + 5) = get2byte d (hdr + 5) - n"
proof -
  note s = spaceD [OF assms(1)]
  define top where "top = get2byte d (hdr + 5)"
  have out: "i \<noteq> hdr + 5 \<Longrightarrow> i \<noteq> hdr + 6 \<Longrightarrow> d' i = d i" for i by (simp add: d'_def put2byte_out)
  have t: "get2byte d' (hdr + 5) = top - n" using get2byte_less [of d "hdr + 5"] unfolding d'_def top_def [symmetric] by simp
  then show "get2byte d' (hdr + 5) = get2byte d (hdr + 5) - n" by (simp add: top_def)
  have h: "hdr + 8 + n \<le> top" "top \<le> U" using assms(2) s(2) by (simp_all add: top_def)
  have wf: "x \<in> set es \<union> set fl \<Longrightarrow> top \<le> fst x \<and> fst x + snd x \<le> U \<and> 4 \<le> snd x" for x
    using s(6,7) by (auto simp: within_def top_def)
  have c: "chain d' (hdr + 1) fl \<longleftrightarrow> chain d (hdr + 1) fl" by (rule chain_cong; rule out) (use wf h in fastforce)+
  have a: "asc 4 (top - n) fl" using s(5) unfolding top_def by (rule asc_weaken) simp_all
  have so: "sorted_wrt apart ((top - n, n) # es @ fl)"
    using assms(1) wf h unfolding space_gap_def Let_def by (auto simp: apart_def)
  have f: "d' (hdr + 7) = d (hdr + 7)" by (rule out) auto
  have w: "within (top - n) U ((top - n, n) # es @ fl)" using wf h assms(3) unfolding within_def by fastforce
  show "space U hdr d' ((get2byte d (hdr + 5) - n, n) # es) fl"
    unfolding space_gap_def Let_def t top_def [symmetric] f using s(2,3,4,11) h c a so w by (auto simp: top_def)
  have "d' i = d i" if "x \<in> set es" "fst x \<le> i" for x i using wf [of x] that h by (intro out) auto
  then show "keep hdr d d' es" using out unfolding keep_def by auto
qed

lemma keep_page:
  assumes "page_inv bt p cs fl" "keep (hdrOffset p) (aData p) d' cs"
  shows "cells bt p d' (nCell p) cs" "map (cell_at d') cs = map (cell_at (aData p)) cs"
    "get2byte d' (hdrOffset p + 3) = nCell p" "d' (hdrOffset p) = aData p (hdrOffset p)"
proof -
  let ?hdr = "hdrOffset p"
  have pi: "frame_ok bt p" "get2byte (aData p) (?hdr + 3) = nCell p" "cellOffset p + 2 * nCell p \<le> get2byte (aData p) (?hdr + 5)"
    "cells bt p (aData p) (nCell p) cs" using assms(1) by (simp_all add: page_inv_def)
  have low: "i < get2byte (aData p) (?hdr + 5) \<Longrightarrow> i \<notin> {?hdr + 1, ?hdr + 2, ?hdr + 5, ?hdr + 6, ?hdr + 7} \<Longrightarrow> d' i = aData p i" for i
    using assms(2) unfolding keep_def by blast
  have co: "?hdr + 8 \<le> cellOffset p" using pi(1) by (simp add: frame_ok_def)
  show m: "map (cell_at d') cs = map (cell_at (aData p)) cs" using keep_cell [OF assms(2)] by simp
  show "cells bt p d' (nCell p) cs"
  proof (rule cells_keep [OF pi(1,4) m])
    fix i assume i: "i < nCell p"
    have "get2byte d' (cellOffset p + 2 * i) = get2byte (aData p) (cellOffset p + 2 * i)"
      by (intro get2byte_cong low) (use co i pi(3) in auto)
    then show "get2byte d' (cellOffset p + 2 * i) = fst (cs ! i)" using pi(4) i by (simp add: cells_def)
  qed
  have "get2byte d' (?hdr + 3) = get2byte (aData p) (?hdr + 3)" by (intro get2byte_cong low) (use co pi(3) in auto)
  then show "get2byte d' (?hdr + 3) = nCell p" using pi(2) by simp
  show "d' ?hdr = aData p ?hdr" by (rule low) (use co pi(3) in auto)
qed

lemma defragment_nFree:
  "defragmentPage bt True p = Some (p\<lparr>aData := d\<rparr>, r) \<Longrightarrow> defragmentPage bt True (p\<lparr>nFree := x\<rparr>) = Some (p\<lparr>nFree := x, aData := d\<rparr>, r)"
proof -
  have e: "cellSizePtr bt (p\<lparr>nFree := x\<rparr>) = cellSizePtr bt p" by (rule ext) (simp add: cellSizePtr_def)
  have a: "p\<lparr>aData := a\<rparr> = p\<lparr>aData := b\<rparr> \<Longrightarrow> a = b" for a b by (metis MemPage.select_convs(16) MemPage.surjective MemPage.update_convs(16))
  assume "defragmentPage bt True p = Some (p\<lparr>aData := d\<rparr>, r)"
  then show ?thesis
    unfolding defragmentPage_def by (auto simp: e Let_def split: option.splits dest!: a)
qed

lemma room_after:
  assumes "page_inv bt p cs []" "aData p (hdrOffset p + 7) = 0"
  shows "get2byte (aData p) (hdrOffset p + 5) = cellOffset p + 2 * nCell p + nFree p"
  using assms spaceD(11) [of 4 "usableSize bt" "hdrOffset p" "aData p" cs "[]"] by (simp add: page_inv_def)

lemma allocate_spec:
  assumes pi: "page_inv bt p cs fl" and n: "4 \<le> n" "n + k \<le> nFree p"
    and k: "k = 0 \<or> cellOffset p + 2 * nCell p + k + n \<le> get2byte (aData p) (hdrOffset p + 5)"
  obtains d' a cs' fl' where "allocateSpace bt True p n = Some (p\<lparr>nFree := nFree p - n, aData := d'\<rparr>, a)"
    "space (usableSize bt) (hdrOffset p) d' ((a, n) # cs') fl'" "cellOffset p + 2 * nCell p + k \<le> get2byte d' (hdrOffset p + 5)"
    "get2byte d' (hdrOffset p + 3) = nCell p" "cells bt p d' (nCell p) cs'" "map (cell_at d') cs' = map (cell_at (aData p)) cs"
    "d' (hdrOffset p) = aData p (hdrOffset p)"
proof -
  note res = that
  let ?hdr = "hdrOffset p" and ?d = "aData p" and ?U = "usableSize bt"
  have i: "frame_ok bt p" "aOvfl p = []" "get2byte ?d (?hdr + 3) = nCell p" "cellOffset p + 2 * nCell p \<le> get2byte ?d (?hdr + 5)"
    "space ?U ?hdr ?d cs fl" using pi by (simp_all add: page_inv_def)
  have co: "?hdr + 8 \<le> cellOffset p" using i(1) by (simp add: frame_ok_def)
  note s = spaceD [OF i(5)]
  define f where "f = unat (?d (?hdr + 7))"
  define p0 where "p0 = p\<lparr>nFree := nFree p - n\<rparr>"
  have eq: "allocateSpace bt True p n =
     (case (if f < 60 then free_search ?d ?hdr f n (?hdr + 1) else Some (?d, None)) of
        None \<Rightarrow> None
      | Some (d, Some a) \<Rightarrow> Some (p0\<lparr>aData := d\<rparr>, a)
      | Some (d, None) \<Rightarrow>
          (case (if f \<ge> 60 \<or> cellOffset p + 2 * get2byte d (?hdr + 3) + n > get2byte d (?hdr + 5)
                 then defragmentPage bt True (p0\<lparr>aData := d\<rparr>) else Some (p0\<lparr>aData := d\<rparr>, SQLITE_OK)) of
             None \<Rightarrow> None
           | Some (p, r) \<Rightarrow>
               (if r \<noteq> SQLITE_OK then Some (p, 0)
                else Some (p\<lparr>aData := put2byte (aData p) (?hdr + 5) (get2byte (aData p) (?hdr + 5) - n)\<rparr>,
                       get2byte (aData p) (?hdr + 5) - n))))"
    using n i(2) unfolding allocateSpace_def Let_def f_def p0_def by (simp cong: if_cong option.case_cong prod.case_cong)
  have gap: thesis if none: "(if f < 60 then free_search ?d ?hdr f n (?hdr + 1) else Some (?d, None)) = Some (?d, None)"
  proof (cases "f \<ge> 60 \<or> cellOffset p + 2 * nCell p + n > get2byte ?d (?hdr + 5)")
    case True
    obtain d1 cs1 where d1: "defragmentPage bt True p = Some (p\<lparr>aData := d1\<rparr>, SQLITE_OK)" "page_inv bt (p\<lparr>aData := d1\<rparr>) cs1 []"
      "map (cell_at d1) cs1 = map (cell_at ?d) cs" "\<And>i. i \<le> ?hdr \<Longrightarrow> d1 i = ?d i" "d1 (?hdr + 7) = 0"
      by (rule defragment_spec [OF pi]) blast
    have top: "get2byte d1 (?hdr + 5) = cellOffset p + 2 * nCell p + nFree p" using room_after [OF d1(2)] d1(5) by simp
    have sp: "space ?U ?hdr d1 cs1 []" using d1(2) by (simp add: page_inv_def)
    have r: "?hdr + 8 + n \<le> get2byte d1 (?hdr + 5)" using top n co by simp
    note g = alloc_gap [OF sp r n(1)]
    have k1: "keep ?hdr d1 (put2byte d1 (?hdr + 5) (get2byte d1 (?hdr + 5) - n)) cs1" by (rule g(2))
    note kp = keep_page [OF d1(2), simplified, OF k1]
    have "p0\<lparr>aData := ?d\<rparr> = p0" by (simp add: p0_def)
    then have al: "allocateSpace bt True p n = Some (p\<lparr>nFree := nFree p - n, aData := put2byte d1 (?hdr + 5) (get2byte d1 (?hdr + 5) - n)\<rparr>,
        get2byte d1 (?hdr + 5) - n)"
      using True defragment_nFree [OF d1(1), of "nFree p - n"] unfolding eq none by (simp add: i(3) p0_def)
    have m: "map (cell_at (put2byte d1 (?hdr + 5) (get2byte d1 (?hdr + 5) - n))) cs1 = map (cell_at ?d) cs"
      using kp(2) by (intro trans [OF _ d1(3)]) simp
    show thesis
      by (rule res [OF al g(1) _ _ _ m]) (use g(3) top n kp(1,3,4) d1(4) in simp_all)
  next
    case False
    have r: "?hdr + 8 + n \<le> get2byte ?d (?hdr + 5)" using False co by simp
    note g = alloc_gap [OF i(5) r n(1)]
    note kp = keep_page [OF pi g(2)]
    have al: "allocateSpace bt True p n = Some (p\<lparr>nFree := nFree p - n, aData := put2byte ?d (?hdr + 5) (get2byte ?d (?hdr + 5) - n)\<rparr>,
        get2byte ?d (?hdr + 5) - n)"
      using False unfolding eq none by (simp add: i(3) p0_def)
    show thesis
      by (rule res [OF al g(1)]) (use g(3) False k kp in \<open>simp_all, linarith\<close>)
  qed
  show thesis
  proof (cases "f < 60")
    case True
    show thesis
    proof (cases rule: first_fit [of fl n])
      case 1
      show thesis by (rule gap) (simp only: True if_True search_none [OF s(4) 1])
    next
      case (2 pre e post)
      note sr = search_some [OF s(4) [unfolded 2(1)] 2(2,3), of ?hdr f]
      note sp = i(5) [unfolded 2(1)]
      show thesis
      proof (cases "snd e < n + 4")
        case True
        note a = alloc_remove [OF sp 2(3) True n(1) \<open>f < 60\<close> [unfolded f_def]]
        note kp = keep_page [OF pi a(2)]
        have al: "allocateSpace bt True p n = Some (p\<lparr>nFree := nFree p - n,
            aData := (blit ?d (endp (?hdr + 1) pre) ?d (fst e) 2)(?hdr + 7 := of_nat (f + snd e - n))\<rparr>, fst e)"
          unfolding eq sr if_P [OF \<open>f < 60\<close>] if_P [OF True] by (simp add: p0_def)
        show thesis by (rule res [OF al [unfolded f_def] a(1)]) (use a(3) i(4) k kp in \<open>simp_all, linarith?\<close>)
      next
        case False
        then have le: "n + 4 \<le> snd e" by simp
        note a = alloc_shrink [OF sp le n(1)]
        note kp = keep_page [OF pi a(2)]
        have al: "allocateSpace bt True p n = Some (p\<lparr>nFree := nFree p - n, aData := put2byte ?d (fst e + 2) (snd e - n)\<rparr>, fst e + snd e - n)"
          unfolding eq sr if_P [OF \<open>f < 60\<close>] if_not_P [OF False] by (simp add: p0_def)
        show thesis by (rule res [OF al a(1)]) (use a(3) i(4) k kp in \<open>simp_all, linarith?\<close>)
      qed
    qed
  qed (rule gap, simp)
qed

end
