(* ===== verification/BtPageInv.thy ===== *)
theory BtPageInv
  imports BtCell
begin

text \<open>
  The operations of a b-tree page against its abstract content, the list of its cells: insertion and
  removal of a cell, a fresh page, a page read back, and the pointer map of an auto-vacuum database.
\<close>

subsection \<open>Inserting and removing a cell\<close>

lemma shift_up_eq: "shift_up d ins k = (\<lambda>x. if ins + 2 \<le> x \<and> x < ins + 2 * k + 2 then d (x - 2) else d x)"
proof (induction k arbitrary: d)
  case (Suc k)
  define d1 where "d1 = d(ins + 2 * Suc k := d (ins + 2 * k))"
  define d2 where "d2 = d1(ins + 2 * Suc k + 1 := d1 (ins + 2 * k + 1))"
  have "shift_up d ins (Suc k) = shift_up d2 ins k" by (simp add: d1_def d2_def Let_def)
  moreover have "d2 = (\<lambda>x. if x = ins + 2 * Suc k \<or> x = ins + 2 * Suc k + 1 then d (x - 2) else d x)"
    by (rule ext) (simp add: d1_def d2_def)
  ultimately show ?case unfolding Suc.IH by (intro ext) auto
qed (rule ext, auto)

lemma shift_down_eq: "shift_down d ptr k = (\<lambda>x. if ptr \<le> x \<and> x < ptr + 2 * k then d (x + 2) else d x)"
proof (induction k arbitrary: d ptr)
  case (Suc k)
  define d1 where "d1 = d(ptr := d (ptr + 2))"
  define d2 where "d2 = d1(ptr + 1 := d1 (ptr + 3))"
  have "shift_down d ptr (Suc k) = shift_down d2 (ptr + 2) k" by (simp add: d1_def d2_def Let_def)
  moreover have "d2 = (\<lambda>x. if x = ptr \<or> x = ptr + 1 then d (x + 2) else d x)"
    by (rule ext) (simp add: d1_def d2_def eval_nat_numeral)
  ultimately show ?case unfolding Suc.IH by (intro ext) auto
qed (rule ext, auto)

lemma cells_insert:
  assumes fo: "frame_ok bt p" and c: "cells bt p d n cs" and i: "i \<le> n" and m: "map (cell_at d') cs = map (cell_at d) cs"
    and lo: "\<And>j. j < i \<Longrightarrow> get2byte d' (cellOffset p + 2 * j) = get2byte d (cellOffset p + 2 * j)"
    and at: "get2byte d' (cellOffset p + 2 * i) = fst e" "cellSizePtr bt p (at d' (fst e)) = snd e"
    and hi: "\<And>j. i \<le> j \<Longrightarrow> j < n \<Longrightarrow> get2byte d' (cellOffset p + 2 * Suc j) = get2byte d (cellOffset p + 2 * j)"
  shows "cells bt p d' (Suc n) (take i cs @ e # drop i cs)"
proof -
  let ?cs = "take i cs @ e # drop i cs"
  have l: "length cs = n" using c by (simp add: cells_def)
  have ce: "j < n \<Longrightarrow> get2byte d (cellOffset p + 2 * j) = fst (cs ! j)" for j using c by (simp add: cells_def)
  have sz: "cellSizePtr bt p (at d' (fst (cs ! j))) = snd (cs ! j)" if j: "j < n" for j
  proof -
    have "cell_at d' (cs ! j) = cell_at d (cs ! j)" using m j l by simp
    then have eq: "k < snd (cs ! j) \<Longrightarrow> d' (fst (cs ! j) + k) = d (fst (cs ! j) + k)" for k by (simp add: cell_at_eq)
    have s: "cellSizePtr bt p (at d (fst (cs ! j))) = snd (cs ! j)" using c j by (simp add: cells_def)
    have "cellSizePtr bt p (at d' (fst (cs ! j))) = cellSizePtr bt p (at d (fst (cs ! j)))"
      by (rule size_local) (use fo eq s in \<open>simp_all add: frame_ok_def\<close>)
    then show ?thesis using s by simp
  qed
  have "get2byte d' (cellOffset p + 2 * j) = fst (?cs ! j) \<and> cellSizePtr bt p (at d' (fst (?cs ! j))) = snd (?cs ! j)" if j: "j < Suc n" for j
  proof (cases j i rule: linorder_cases)
    case less
    then show ?thesis using lo [of j] ce [of j] sz [of j] i l by (simp add: nth_append)
  next
    case equal
    then show ?thesis using at i l by (simp add: nth_append)
  next
    case greater
    then obtain k where k: "j = Suc k" "i \<le> k" "k < n" using j by (cases j) auto
    have "?cs ! j = cs ! k" using k l i by (simp add: nth_append Suc_diff_le)
    then show ?thesis using hi [OF k(2,3)] ce [OF k(3)] sz [OF k(3)] by (simp add: k(1))
  qed
  then show ?thesis using l i by (simp add: cells_def)
qed

lemma map_cell_at_insert:
  "map (cell_at d') cs = map (cell_at d) cs0 \<Longrightarrow>
   map (cell_at d') (take i cs @ e # drop i cs) = take i (map (cell_at d) cs0) @ cell_at d' e # drop i (map (cell_at d) cs0)"
  by (metis list.simps(9) map_append take_map drop_map)

text \<open>The room made before the insertion.\<close>

lemma insert_room:
  assumes pi: "page_inv bt p cs fl" and sz: "sz + 2 \<le> nFree p"
  obtains d1 cs1 fl1 where
    "(if cellOffset p + 2 * nCell p + 2 + sz > get2byte (aData p) (hdrOffset p + 5) then defragmentPage bt True p else Some (p, SQLITE_OK)) =
      Some (p\<lparr>aData := d1\<rparr>, SQLITE_OK)"
    "page_inv bt (p\<lparr>aData := d1\<rparr>) cs1 fl1" "map (cell_at d1) cs1 = map (cell_at (aData p)) cs"
    "cellOffset p + 2 * nCell p + 2 + sz \<le> get2byte d1 (hdrOffset p + 5)" "d1 (hdrOffset p) = aData p (hdrOffset p)"
proof (cases "cellOffset p + 2 * nCell p + 2 + sz > get2byte (aData p) (hdrOffset p + 5)")
  case True
  obtain d1 cs1 where d1: "defragmentPage bt True p = Some (p\<lparr>aData := d1\<rparr>, SQLITE_OK)" "page_inv bt (p\<lparr>aData := d1\<rparr>) cs1 []"
      "map (cell_at d1) cs1 = map (cell_at (aData p)) cs" "\<And>i. i \<le> hdrOffset p \<Longrightarrow> d1 i = aData p i" "d1 (hdrOffset p + 7) = 0"
    by (rule defragment_spec [OF pi]) blast
  have "get2byte d1 (hdrOffset p + 5) = cellOffset p + 2 * nCell p + nFree p" using room_after [OF d1(2)] d1(5) by simp
  then show thesis using that [OF _ d1(2,3)] True d1(1,4) sz by simp
next
  case False
  have "p\<lparr>aData := aData p\<rparr> = p" by simp
  then show thesis using that [of "aData p" cs fl] False pi by simp
qed

lemma insert_spec:
  assumes pi: "page_inv bt p cs fl" and i: "i \<le> nCell p" and sz: "sz = cellSizePtr bt p cell" "sz + 2 \<le> nFree p"
    and env: "env 0" "env 1" and skip: "nSkip \<le> childPtrSize p"
  obtains d' cs' fl' e pages' r where
    "insertCell bt env get write pages p i cell sz temp nSkip =
       Some (p\<lparr>nCell := nCell p + 1, nFree := nFree p - (sz + 2), aData := d', idxShift := True\<rparr>, pages', r)"
    "page_inv bt (p\<lparr>nCell := nCell p + 1, nFree := nFree p - (sz + 2), aData := d', idxShift := True\<rparr>) cs' fl'"
    "map (cell_at d') cs' = take i (map (cell_at (aData p)) cs) @ e # drop i (map (cell_at (aData p)) cs)"
    "length e = sz" "drop nSkip e = map cell [nSkip..<sz]" "d' (hdrOffset p) = aData p (hdrOffset p)"
    "\<not> autoVacuum bt \<Longrightarrow> pages' = pages \<and> r = SQLITE_OK"
proof -
  let ?hdr = "hdrOffset p" and ?co = "cellOffset p" and ?n = "nCell p" and ?U = "usableSize bt"
  have fo: "frame_ok bt p" and ov: "aOvfl p = []" and fr: "nFree p + ?co + 2 * ?n + size_sum cs = ?U"
    using pi by (simp_all add: page_inv_def)
  have s4: "4 \<le> sz" using fo parse_size(2) [of p bt cell] sz(1) by (simp add: frame_ok_def)
  have co: "?hdr + 8 \<le> ?co" "?U \<le> 32768" using fo by (simp_all add: frame_ok_def)
  obtain d1 cs1 fl1 where d1:
    "(if ?co + 2 * ?n + 2 + sz > get2byte (aData p) (?hdr + 5) then defragmentPage bt True p else Some (p, SQLITE_OK)) =
      Some (p\<lparr>aData := d1\<rparr>, SQLITE_OK)"
    "page_inv bt (p\<lparr>aData := d1\<rparr>) cs1 fl1" "map (cell_at d1) cs1 = map (cell_at (aData p)) cs"
    "?co + 2 * ?n + 2 + sz \<le> get2byte d1 (?hdr + 5)" "d1 ?hdr = aData p ?hdr" by (rule insert_room [OF pi sz(2)]) blast
  let ?p1 = "p\<lparr>aData := d1\<rparr>"
  obtain d2 idx cs2 fl2 where d2: "allocateSpace bt True ?p1 sz = Some (p\<lparr>nFree := nFree p - sz, aData := d2\<rparr>, idx)"
    "space ?U ?hdr d2 ((idx, sz) # cs2) fl2" "?co + 2 * ?n + 2 \<le> get2byte d2 (?hdr + 5)"
    "cells bt p d2 ?n cs2" "map (cell_at d2) cs2 = map (cell_at d1) cs1" "d2 ?hdr = d1 ?hdr"
    by (rule allocate_spec [OF d1(2) s4, of 2]) (use sz(2) d1(4) in simp_all)
  note s = spaceD [OF d2(2)]
  define top where "top = get2byte d2 (?hdr + 5)"
  have l2: "length cs2 = ?n" using d2(4) by (simp add: cells_def)
  have idx: "top \<le> idx" "idx + sz \<le> ?U" using s(6) by (simp_all add: within_def top_def)
  define d3 where "d3 = blit d2 (idx + nSkip) cell nSkip (sz - nSkip)"
  define d4 where "d4 = shift_up d3 (?co + 2 * i) (?n - i)"
  define d' where "d' = put2byte (put2byte d4 (?co + 2 * i) idx) (?hdr + 3) (?n + 1)"
  have t2: "?co + 2 * ?n + 2 \<le> top" using d2(3) by (simp add: top_def)
  have up: "top \<le> x \<Longrightarrow> d' x = d3 x" for x using t2 i co by (auto simp: d'_def d4_def put2byte_out shift_up_eq)
  have lw: "x < ?co \<Longrightarrow> x \<noteq> ?hdr + 3 \<Longrightarrow> x \<noteq> ?hdr + 4 \<Longrightarrow> d' x = d2 x" for x
    using co t2 idx by (auto simp: d'_def d4_def d3_def put2byte_out shift_up_eq blit_def)
  have ce: "x \<in> set cs2 \<Longrightarrow> top \<le> fst x \<and> fst x + snd x \<le> ?U \<and> apart (idx, sz) x" for x
    using s(6,8) by (auto simp: within_def top_def)
  have fl: "x \<in> set fl2 \<Longrightarrow> top \<le> fst x \<and> 4 \<le> snd x \<and> apart (idx, sz) x" for x
    using s(7) s(10) [of "(idx, sz)" x] by (auto simp: within_def top_def)
  have d3o: "x < idx \<or> idx + sz \<le> x \<Longrightarrow> d3 x = d2 x" for x by (auto simp: d3_def blit_def)
  have m: "map (cell_at d') cs2 = map (cell_at d2) cs2"
  proof (rule map_cong [OF refl])
    fix x assume "x \<in> set cs2"
    then have x: "top \<le> fst x" "apart (idx, sz) x" using ce by auto
    show "cell_at d' x = cell_at d2 x"
      unfolding cell_at_eq using x by (auto simp: up d3o apart_def)
  qed
  have m0: "map (cell_at d2) cs2 = map (cell_at (aData p)) cs" using d2(5) d1(3) by simp
  define e where "e = cell_at d' (idx, sz)"
  have ec: "nSkip \<le> k \<Longrightarrow> k < sz \<Longrightarrow> d' (idx + k) = cell k" for k using idx by (simp add: up d3_def blit_def)
  have "cellSizePtr bt p (at d' idx) = cellSizePtr bt p cell"
    by (rule size_local) (use fo ec skip sz(1) in \<open>simp_all add: frame_ok_def\<close>)
  then have es: "cellSizePtr bt p (at d' (fst (idx, sz))) = snd (idx, sz)" using sz(1) by simp
  have g3: "get2byte d' (?hdr + 3) = ?n + 1" using t2 s(2,3) unfolding d'_def by (intro get2byte_put) (simp add: top_def)
  have gp: "get2byte d' (?co + 2 * j) = get2byte (put2byte d4 (?co + 2 * i) idx) (?co + 2 * j)" for j
    using co by (simp add: d'_def get2byte_put_other)
  have glo: "get2byte d' (?co + 2 * j) = get2byte d2 (?co + 2 * j)" if "j < i" for j
  proof -
    have "get2byte d' (?co + 2 * j) = get2byte d4 (?co + 2 * j)" using that unfolding gp by (intro get2byte_put_other) auto
    also have "\<dots> = get2byte d3 (?co + 2 * j)" using that by (intro get2byte_cong) (auto simp: d4_def shift_up_eq)
    also have "\<dots> = get2byte d2 (?co + 2 * j)" using that i t2 idx by (intro get2byte_cong d3o) auto
    finally show ?thesis .
  qed
  have gat: "get2byte d' (?co + 2 * i) = fst (idx, sz)" using idx co unfolding gp by simp
  have ghi: "get2byte d' (?co + 2 * Suc j) = get2byte d2 (?co + 2 * j)" if "i \<le> j" "j < ?n" for j
  proof -
    have "get2byte d' (?co + 2 * Suc j) = get2byte d4 (?co + 2 * Suc j)" using that unfolding gp by (intro get2byte_put_other) auto
    also have "\<dots> = get2byte d3 (?co + 2 * j)" using that i by (auto simp: get2byte_eq d4_def shift_up_eq)
    also have "\<dots> = get2byte d2 (?co + 2 * j)" using that t2 idx by (intro get2byte_cong d3o) auto
    finally show ?thesis .
  qed
  let ?cs = "take i cs2 @ (idx, sz) # drop i cs2"
  have cl: "cells bt p d' (Suc ?n) ?cs" by (rule cells_insert [OF fo d2(4) i m glo gat es ghi])
  have tp: "get2byte d' (?hdr + 5) = top" unfolding top_def using co by (intro get2byte_cong lw) auto
  have "space ?U ?hdr d' ((idx, sz) # cs2) fl2"
  proof (rule space_cong [OF d2(2)])
    fix x assume "x \<in> {?hdr + 1, ?hdr + 2, ?hdr + 5, ?hdr + 6, ?hdr + 7}"
    then show "d' x = d2 x" using co by (intro lw) auto
  next
    fix x assume "x \<in> (\<Union>e\<in>set fl2. {fst e..<fst e + 4})"
    then obtain y where y: "y \<in> set fl2" "fst y \<le> x" "x < fst y + 4" by auto
    then show "d' x = d2 x" using fl [of y] by (auto simp: up d3o apart_def)
  qed
  then have sp: "space ?U ?hdr d' ?cs fl2" using space_move [of 4 ?U ?hdr d' "take i cs2" "(idx, sz)" "drop i cs2" fl2] by simp
  have ss: "size_sum ?cs = sz + size_sum cs"
  proof -
    have "map length (map (cell_at d2) cs2) = map length (map (cell_at (aData p)) cs)" using m0 by simp
    then have "map snd cs2 = map snd cs" by (simp add: cell_at_def comp_def)
    moreover have "size_sum ?cs = sz + (size_sum (take i cs2) + size_sum (drop i cs2))" by simp
    moreover have "size_sum (take i cs2) + size_sum (drop i cs2) = size_sum cs2" by (metis append_take_drop_id map_append sum_list_append)
    ultimately show ?thesis by simp
  qed
  let ?p' = "p\<lparr>nCell := ?n + 1, nFree := nFree p - (sz + 2), aData := d', idxShift := True\<rparr>"
  have inv: "page_inv bt ?p' ?cs fl2"
    unfolding page_inv_def using fo ov g3 tp t2 sp cl ss fr sz(2) by (simp add: frame_ok_def sizes_ok_def)
  have ins: "insertCell bt env get write pages p i cell sz temp nSkip =
      (if autoVacuum bt then (case ptrmapPutOvflPtr bt get write pages ?p' (Some cell) of (pages, r) \<Rightarrow> Some (?p', pages, r))
       else Some (?p', pages, SQLITE_OK))"
  proof -
    have c0: "\<not> (aOvfl p \<noteq> [] \<or> sz + 2 > nFree p)" using sz(2) ov by simp
    show ?thesis unfolding insertCell_def Let_def if_not_P [OF c0] eqTrueI [OF env(1)] eqTrueI [OF env(2)] d1(1)
      by (simp add: d2(1) d3_def [symmetric] d4_def [symmetric] d'_def diff_diff_left)
  qed
  obtain pages' r where pr: "insertCell bt env get write pages p i cell sz temp nSkip = Some (?p', pages', r)"
    "\<not> autoVacuum bt \<Longrightarrow> pages' = pages \<and> r = SQLITE_OK"
    unfolding ins by (cases "ptrmapPutOvflPtr bt get write pages ?p' (Some cell)"; cases "autoVacuum bt") auto
  have mm: "map (cell_at d') cs2 = map (cell_at (aData p)) cs" using m m0 by simp
  have le: "length e = sz" "drop nSkip e = map cell [nSkip..<sz]"
    using ec by (auto simp: e_def cell_at_def drop_map intro!: nth_equalityI)
  have "d' ?hdr = aData p ?hdr" using lw [of ?hdr] co d2(6) d1(5) by simp
  then show thesis
    using that [OF pr(1) inv _ le] pr(2) map_cell_at_insert [OF mm, of i "(idx, sz)"] e_def by blast
qed

lemma drop_spec:
  assumes pi: "page_inv bt p cs fl" and i: "i < nCell p" and sz: "sz = cellSize bt p i"
  obtains d' fl' where
    "dropCell p i sz = Some (p\<lparr>nCell := nCell p - 1, nFree := nFree p + (sz + 2), aData := d', idxShift := True\<rparr>)"
    "page_inv bt (p\<lparr>nCell := nCell p - 1, nFree := nFree p + (sz + 2), aData := d', idxShift := True\<rparr>) (take i cs @ drop (Suc i) cs) fl'"
    "map (cell_at d') (take i cs @ drop (Suc i) cs) = map (cell_at (aData p)) (take i cs @ drop (Suc i) cs)"
    "d' (hdrOffset p) = aData p (hdrOffset p)"
proof -
  let ?hdr = "hdrOffset p" and ?co = "cellOffset p" and ?n = "nCell p" and ?U = "usableSize bt" and ?d = "aData p"
  let ?es = "take i cs @ drop (Suc i) cs"
  have fo: "frame_ok bt p" and fr: "nFree p + ?co + 2 * ?n + size_sum cs = ?U" and cl: "cells bt p ?d ?n cs"
    and top: "?co + 2 * ?n \<le> get2byte ?d (?hdr + 5)" and sp: "space ?U ?hdr ?d cs fl" and ov: "aOvfl p = []"
    using pi by (simp_all add: page_inv_def)
  have co: "?hdr + 8 \<le> ?co" "?U \<le> 32768" using fo by (simp_all add: frame_ok_def)
  have l: "length cs = ?n" using cl by (simp add: cells_def)
  have ci: "get2byte ?d (?co + 2 * i) = fst (cs ! i)" "sz = snd (cs ! i)" using cl i sz
    by (simp_all add: cells_def cellSize_def parseCell_def findCell_def cellSizePtr_def)
  have eq: "cs = take i cs @ (fst (cs ! i), sz) # drop (Suc i) cs" using id_take_nth_drop [of i cs] i l ci(2) by simp
  have "space ?U ?hdr ?d (take i cs @ (fst (cs ! i), sz) # drop (Suc i) cs) fl" using sp eq by simp
  then have "space ?U ?hdr ?d ((fst (cs ! i), sz) # ?es) fl" unfolding space_move .
  then obtain d1 fl1 where d1: "freeSpace p (fst (cs ! i)) sz = Some (p\<lparr>aData := d1, nFree := (nFree p + sz) mod 65536\<rparr>)"
    "space ?U ?hdr d1 ?es fl1" "keep ?hdr ?d d1 ?es" "get2byte ?d (?hdr + 5) \<le> get2byte d1 (?hdr + 5)"
    by (rule freeSpace_spec)
  define top where "top = get2byte ?d (?hdr + 5)"
  have t: "?co + 2 * ?n \<le> top" "top \<le> get2byte d1 (?hdr + 5)" using top d1(4) by (simp_all add: top_def)
  note s1 = spaceD [OF d1(2)]
  have ss: "size_sum cs = sz + size_sum ?es" by (subst eq) simp
  define d2 where "d2 = shift_down d1 (?co + 2 * i) (?n - (i + 1))"
  define d' where "d' = put2byte d2 (?hdr + 3) (?n - 1)"
  have low: "x < top \<Longrightarrow> x \<notin> {?hdr + 1, ?hdr + 2, ?hdr + 5, ?hdr + 6, ?hdr + 7} \<Longrightarrow> d1 x = ?d x" for x
    using d1(3) unfolding keep_def top_def by blast
  have hi: "?co + 2 * ?n \<le> x \<Longrightarrow> d' x = d1 x" for x using i co by (auto simp: d'_def d2_def put2byte_out shift_down_eq)
  have lw: "x < ?co \<Longrightarrow> x \<noteq> ?hdr + 3 \<Longrightarrow> x \<noteq> ?hdr + 4 \<Longrightarrow> d' x = d1 x" for x
    using co by (auto simp: d'_def d2_def put2byte_out shift_down_eq)
  have g3: "get2byte d' (?hdr + 3) = ?n - 1" using t s1(2,3) unfolding d'_def by (intro get2byte_put) simp
  have g5: "get2byte d' (?hdr + 5) = get2byte d1 (?hdr + 5)" using co by (intro get2byte_cong lw) auto
  have sp': "space ?U ?hdr d' ?es fl1"
  proof (rule space_cong [OF d1(2)])
    fix x assume "x \<in> {?hdr + 1, ?hdr + 2, ?hdr + 5, ?hdr + 6, ?hdr + 7}"
    then show "d' x = d1 x" using co by (intro lw) auto
  next
    fix x assume "x \<in> (\<Union>e\<in>set fl1. {fst e..<fst e + 4})"
    then obtain y where "y \<in> set fl1" "fst y \<le> x" by auto
    then show "d' x = d1 x" using s1(7) t by (intro hi) (force simp: within_def)
  qed
  have ce: "e \<in> set ?es \<Longrightarrow> get2byte d1 (?hdr + 5) \<le> fst e" for e using s1(6) by (auto simp: within_def)
  have m: "map (cell_at d') ?es = map (cell_at ?d) ?es"
  proof (rule map_cong [OF refl])
    fix e assume e: "e \<in> set ?es"
    have "cell_at d' e = cell_at d1 e" using ce [OF e] t by (auto simp: cell_at_eq intro!: hi)
    then show "cell_at d' e = cell_at ?d e" using keep_cell [OF d1(3) e] by simp
  qed
  have gp: "get2byte d' (?co + 2 * j) = get2byte d2 (?co + 2 * j)" for j
    using co by (simp add: d'_def get2byte_put_other)
  have ptr: "get2byte d' (?co + 2 * j) = fst (?es ! j)" if j: "j < ?n - 1" for j
  proof (cases "j < i")
    case True
    have "get2byte d' (?co + 2 * j) = get2byte d1 (?co + 2 * j)"
      unfolding gp using True by (intro get2byte_cong) (auto simp: d2_def shift_down_eq)
    also have "\<dots> = get2byte ?d (?co + 2 * j)" using True i t co by (intro get2byte_cong low) auto
    finally show ?thesis using cl True i l by (simp add: cells_def nth_append)
  next
    case False
    have "get2byte d' (?co + 2 * j) = get2byte d1 (?co + 2 * Suc j)"
      unfolding gp using False j i by (auto simp: get2byte_eq d2_def shift_down_eq)
    also have "\<dots> = get2byte ?d (?co + 2 * Suc j)" using j t co by (intro get2byte_cong low) auto
    also have "\<dots> = fst (cs ! Suc j)" using cl j unfolding cells_def by (metis less_diff_conv Suc_eq_plus1)
    finally show ?thesis using False i j l by (simp add: nth_append)
  qed
  have "cells bt p d' (?n - 1) ?es"
  proof -
    have "cells bt p ?d (length cs) cs" using cl l by simp
    have "cellSizePtr bt p (at d' (fst e)) = snd e" if e: "e \<in> set ?es" for e
    proof -
      have "e \<in> set cs" using e in_set_takeD in_set_dropD by fastforce
      then have s: "cellSizePtr bt p (at ?d (fst e)) = snd e" using cl by (auto simp: cells_def in_set_conv_nth)
      have "cell_at d' e = cell_at ?d e" using m e by (simp only: map_eq_conv)
      then have eq: "k < snd e \<Longrightarrow> d' (fst e + k) = ?d (fst e + k)" for k by (simp add: cell_at_eq)
      have "cellSizePtr bt p (at d' (fst e)) = cellSizePtr bt p (at ?d (fst e))"
        by (rule size_local) (use fo eq s in \<open>simp_all add: frame_ok_def\<close>)
      then show ?thesis using s by simp
    qed
    moreover have "length ?es = ?n - 1" using l i by simp
    ultimately show ?thesis unfolding cells_def using ptr by (metis nth_mem)
  qed
  then have inv: "page_inv bt (p\<lparr>nCell := ?n - 1, nFree := nFree p + (sz + 2), aData := d', idxShift := True\<rparr>) ?es fl1"
    unfolding page_inv_def using fo ov g3 g5 t sp' ss fr i
    by (cases ?n) (simp_all add: frame_ok_def sizes_ok_def)
  have small: "nFree p + sz < 65536" "nFree p + sz + 2 < 65536" using fr ss co(2) i by simp_all
  have dr: "dropCell p i sz = Some (p\<lparr>nCell := ?n - 1, nFree := nFree p + (sz + 2), aData := d', idxShift := True\<rparr>)"
    unfolding dropCell_def Let_def ci(1) d1(1) using small by (simp add: d'_def d2_def)
  have "d' ?hdr = ?d ?hdr" using lw [of ?hdr] low [of ?hdr] co t by simp
  then show thesis using that [OF dr inv m] by blast
qed

subsection \<open>Fresh pages and pages read again\<close>

text \<open>The sizes of a database as \<^verbatim>\<open>lockBtree\<close> sets them up.\<close>

definition bt_ok :: "BtShared \<Rightarrow> bool" where
  "bt_ok bt \<longleftrightarrow> bt_minLocal bt \<le> bt_maxLocal bt \<and> bt_maxLocal bt \<le> usableSize bt \<and> minLeaf bt \<le> maxLeaf bt \<and>
     maxLeaf bt \<le> usableSize bt \<and> 500 \<le> usableSize bt \<and> usableSize bt \<le> pageSize bt \<and> pageSize bt \<le> 32768"

text \<open>The fields of a page agree with the flag byte of its header.\<close>

definition flags_ok :: "BtShared \<Rightarrow> MemPage \<Rightarrow> bool" where
  "flags_ok bt p \<longleftrightarrow> decodeFlags bt p (aData p (hdrOffset p)) = p \<and> cellOffset p = hdrOffset p + 12 - (if leaf p then 4 else 0)"

lemma decode_fields:
  "isInit (decodeFlags bt p b) = isInit p" "idxShift (decodeFlags bt p b) = idxShift p"
  "intKey (decodeFlags bt p b) = flag b (PTF_INTKEY OR PTF_LEAFDATA)" "leaf (decodeFlags bt p b) = flag b PTF_LEAF"
  "zeroData (decodeFlags bt p b) = flag b PTF_ZERODATA" "leafData (decodeFlags bt p b) = flag b PTF_LEAFDATA"
  "hasData (decodeFlags bt p b) = (\<not> (flag b PTF_ZERODATA \<or> (\<not> flag b PTF_LEAF \<and> flag b PTF_LEAFDATA)))"
  "hdrOffset (decodeFlags bt p b) = hdrOffset p" "childPtrSize (decodeFlags bt p b) = (if flag b PTF_LEAF then 0 else 4)"
  "maxLocal (decodeFlags bt p b) = (if flag b PTF_LEAFDATA then maxLeaf bt else bt_maxLocal bt)"
  "minLocal (decodeFlags bt p b) = (if flag b PTF_LEAFDATA then minLeaf bt else bt_minLocal bt)"
  "cellOffset (decodeFlags bt p b) = cellOffset p" "nFree (decodeFlags bt p b) = nFree p" "nCell (decodeFlags bt p b) = nCell p"
  "aOvfl (decodeFlags bt p b) = aOvfl p" "aData (decodeFlags bt p b) = aData p" "pgno (decodeFlags bt p b) = pgno p"
  "pParent (decodeFlags bt p b) = pParent p"
  by (simp_all add: decodeFlags_def Let_def)

lemma decode_eq:
  "decodeFlags bt p b = p \<longleftrightarrow> intKey p = flag b (PTF_INTKEY OR PTF_LEAFDATA) \<and> leaf p = flag b PTF_LEAF \<and> zeroData p = flag b PTF_ZERODATA \<and>
     leafData p = flag b PTF_LEAFDATA \<and> hasData p = (\<not> (flag b PTF_ZERODATA \<or> (\<not> flag b PTF_LEAF \<and> flag b PTF_LEAFDATA))) \<and>
     childPtrSize p = (if flag b PTF_LEAF then 0 else 4) \<and> maxLocal p = (if flag b PTF_LEAFDATA then maxLeaf bt else bt_maxLocal bt) \<and>
     minLocal p = (if flag b PTF_LEAFDATA then minLeaf bt else bt_minLocal bt)" (is "?l \<longleftrightarrow> ?r")
proof
  assume l: ?l
  show ?r using decode_fields(3-7,9-11) [of bt p b] unfolding l by blast
next
  assume ?r
  then show ?l by (intro MemPage.equality) (simp_all add: decode_fields)
qed

lemma flags_ok_upd:
  assumes "flags_ok bt p" "d' (hdrOffset p) = aData p (hdrOffset p)"
  shows "flags_ok bt (p\<lparr>nCell := a, nFree := b, aData := d', idxShift := c\<rparr>)"
  using assms unfolding flags_ok_def decode_eq by simp

lemma zero_spec:
  assumes bt: "bt_ok bt" and hdr: "hdrOffset p \<le> 100"
  shows "page_inv bt (zeroPage bt p flags) [] []" "flags_ok bt (zeroPage bt p flags)" "page_cells bt (zeroPage bt p flags) = []"
proof -
  let ?z = "zeroPage bt p flags" and ?hdr = "hdrOffset p" and ?U = "usableSize bt"
  have U: "500 \<le> ?U" "?U \<le> 32768" using bt by (simp_all add: bt_ok_def)
  define dd where "dd = put2byte ((fill ((fill (aData p) ?hdr (?U - ?hdr) 0)(?hdr := flags)) (?hdr + 1) 4 0)(?hdr + 7 := 0)) (?hdr + 5) ?U"
  have d: "aData ?z = dd" by (simp add: zeroPage_def Let_def decode_fields dd_def)
  have z: "x \<in> {?hdr + 1, ?hdr + 2, ?hdr + 3, ?hdr + 4, ?hdr + 7} \<Longrightarrow> dd x = 0" for x
    by (auto simp: dd_def put2byte_out fill_def)
  have f: "dd ?hdr = flags" by (simp add: dd_def put2byte_out fill_def)
  have t: "get2byte dd (?hdr + 5) = ?U" using U by (simp add: dd_def)
  have flds: "hdrOffset ?z = ?hdr" "nCell ?z = 0" "aOvfl ?z = []" "cellOffset ?z = ?hdr + 8 + (if flag flags PTF_LEAF then 0 else 4)"
    "nFree ?z = ?U - cellOffset ?z" "childPtrSize ?z \<le> 4" "minLocal ?z \<le> maxLocal ?z" "maxLocal ?z \<le> 32768"
    using bt by (auto simp: zeroPage_def Let_def decode_fields bt_ok_def)
  have sp: "space ?U ?hdr dd [] []"
    unfolding space_gap_def Let_def t using U hdr z by (simp add: chain_Nil get2byte_zero within_def)
  show "page_inv bt ?z [] []"
    unfolding page_inv_def using flds U hdr t sp z by (auto simp: d frame_ok_def sizes_ok_def cells_def get2byte_zero)
  show "flags_ok bt ?z"
    unfolding flags_ok_def d flds(1) f by (simp add: zeroPage_def Let_def decode_fields decode_eq)
  show "page_cells bt ?z = []" by (simp add: page_cells_def flds(2))
qed

lemma init_free_spec:
  assumes "chain d a fl" "asc 4 lo fl" "\<And>e. e \<in> set fl \<Longrightarrow> fst e + snd e \<le> U"
  shows "init_free d U (get2byte d a) f = Inl (f + int (size_sum fl))"
  using assms
proof (induction fl arbitrary: a f lo)
  case Nil
  then show ?case by (simp add: init_free.simps chain_Nil)
next
  case (Cons e fl)
  have e: "get2byte d a = fst e" "0 < fst e" "get2byte d (fst e + 2) = snd e" "chain d (fst e) fl"
    using Cons.prems(1) by (simp_all add: chain_Cons)
  have a: "4 \<le> snd e" "asc 4 (fst e + snd e + 4) fl" "fst e + snd e \<le> U" using Cons.prems(2,3) by auto
  have "get2byte d (fst e) = 0 \<or> fst e + snd e + 4 \<le> get2byte d (fst e)"
    using e(4) a(2) by (cases fl) (auto simp: chain_Nil chain_Cons)
  then have "init_free d U (get2byte d a) f = init_free d U (get2byte d (fst e)) (f + int (snd e))"
    using a e by (subst init_free.simps) (auto simp: Let_def)
  also have "\<dots> = Inl (f + int (snd e) + int (size_sum fl))" using Cons.IH [OF e(4) a(2)] Cons.prems(3) by auto
  finally show ?case by simp
qed

lemma cells_count: "within lo U cs \<Longrightarrow> 4 * length cs \<le> size_sum cs"
  by (induction cs) (auto simp: within_def)

lemma init_spec:
  assumes pi: "page_inv bt p cs fl" and fl: "flags_ok bt p" and bt: "bt_ok bt"
    and par: "parent = None \<or> parent = Some 1 \<or> 0 < nCell p"
    and q: "hdrOffset q = hdrOffset p" "aData q = aData p" "pgno q = pgno p" "\<not> isInit q" "pParent q = None"
  shows "initPage bt parent q = (p\<lparr>isInit := True, idxShift := False, pParent := parent\<rparr>, SQLITE_OK)"
proof -
  let ?hdr = "hdrOffset p" and ?U = "usableSize bt" and ?d = "aData p" and ?n = "nCell p"
  have i: "aOvfl p = []" "get2byte ?d (?hdr + 3) = ?n" "nFree p + cellOffset p + 2 * ?n + size_sum cs = ?U"
    "space ?U ?hdr ?d cs fl" "cells bt p ?d ?n cs" "frame_ok bt p" using pi by (simp_all add: page_inv_def)
  note s = spaceD [OF i(4)]
  have co: "?hdr + 8 \<le> cellOffset p" using i(6) by (simp add: frame_ok_def)
  have l: "length cs = ?n" using i(5) by (simp add: cells_def)
  define q1 where "q1 = (decodeFlags bt (q\<lparr>pParent := parent\<rparr>) (?d ?hdr))\<lparr>aOvfl := [], idxShift := False\<rparr>"
  have lf: "leaf q1 = leaf p" and c: "?hdr + 12 - (if leaf p then 4 else 0) = cellOffset p"
    using fl by (simp_all add: q1_def decode_fields flags_ok_def decode_eq)
  define q2 where "q2 = q1\<lparr>cellOffset := cellOffset p, nCell := ?n\<rparr>"
  have q2: "cellOffset q2 = cellOffset p" "nCell q2 = ?n" by (simp_all add: q2_def)
  have "?n * 3 \<le> pageSize bt - 8"
    using cells_count [OF s(6)] l i(3) co bt unfolding bt_ok_def by linarith
  then have cnt: "\<not> (pageSize bt - 8) div 3 < ?n" by (simp add: not_less less_eq_div_iff_mult_less_eq)
  have pc: "\<not> (?n = 0 \<and> parent \<noteq> None \<and> parent \<noteq> Some 1)" using par by auto
  have fr: "init_free ?d ?U (get2byte ?d (?hdr + 1)) (int (unat (?d (?hdr + 7))) + int (get2byte ?d (?hdr + 5)) - int (cellOffset p + 2 * ?n)) =
      Inl (int (nFree p))"
  proof -
    have w: "e \<in> set fl \<Longrightarrow> fst e + snd e \<le> ?U" for e using s(7) by (auto simp: within_def)
    show ?thesis by (subst init_free_spec [OF s(4,5) w], assumption, intro arg_cong [of _ _ Inl]) (use s(11) i(3) in linarith)
  qed
  have nf: "nat (int (nFree p) mod 65536) = nFree p" "\<not> int ?U \<le> int (nFree p)" using i(3) s(3) co by auto
  have c1: "\<not> (pParent q \<noteq> parent \<and> (pParent q \<noteq> None \<or> isInit q))" using q(4,5) by simp
  have "initPage bt parent q = (q2\<lparr>nFree := nFree p, isInit := True\<rparr>, SQLITE_OK)"
    unfolding initPage_def Let_def if_not_P [OF c1] if_not_P [OF q(4)] q(1,2) q1_def [symmetric] lf c i(2) q2_def [symmetric]
      q2 if_not_P [OF cnt] if_not_P [OF pc] fr using nf by simp
  also have "q2\<lparr>nFree := nFree p, isInit := True\<rparr> = p\<lparr>isInit := True, idxShift := False, pParent := parent\<rparr>"
    using fl q i(1) unfolding flags_ok_def decode_eq
    by (intro MemPage.equality) (simp_all add: q2_def q1_def decode_fields)
  finally show ?thesis .
qed

subsection \<open>The pointer map\<close>

lemma get4byte_put [simp]: "get4byte (put4byte d p v) p = v"
proof (rule bit_word_eqI)
  fix n assume "n < LENGTH(32)"
  then consider "n < 8" | "8 \<le> n" "n < 16" | "16 \<le> n" "n < 24" | "24 \<le> n" "n < 32" by fastforce
  then show "bit (get4byte (put4byte d p v) p) n = bit v n"
    by cases (auto simp: get4byte_def put4byte_def bit_simps)
qed

lemma put4byte_out: "i < p \<or> p + 4 \<le> i \<Longrightarrow> put4byte d p v i = d i"
  by (auto simp: put4byte_def)

lemma get4byte_cong: "(\<And>i. p \<le> i \<Longrightarrow> i < p + 4 \<Longrightarrow> d' i = d i) \<Longrightarrow> get4byte d' p = get4byte d p"
  by (simp add: get4byte_def)

text \<open>The pages with an entry in the pointer map.\<close>

definition has_entry :: "BtShared \<Rightarrow> u32 \<Rightarrow> bool" where
  "has_entry bt k \<longleftrightarrow> 3 \<le> k \<and> ptrmapPageno bt k < k"

lemma ptrmap_page:
  assumes U: "usableSize bt \<le> 32768" and k: "has_entry bt k"
  defines "per \<equiv> usableSize bt div 5 + 1"
  shows "unat (ptrmapPageno bt k) \<in> {(unat k - 2) div per * per + 2, (unat k - 2) div per * per + 3}"
proof -
  have k2: "2 \<le> unat k" using k unfolding has_entry_def word_le_nat_alt by simp
  have m: "unat (k - 2) = unat k - 2" using k2 by (simp add: unat_sub word_le_nat_alt)
  have per: "unat (of_nat per :: u32) = per" using U by (simp only: unat_of_nat) (simp add: per_def)
  define q where "q = (unat k - 2) div per * per"
  have q: "q \<le> unat k - 2" unfolding q_def by (rule div_times_less_eq_dividend)
  have kb: "unat k < 4294967296" using unsigned_less [of k, where ?'a = nat] by simp
  have dq: "(unat k - 2) div per < 4294967296" using div_le_dividend [of "unat k - 2" per] kb by linarith
  have ql: "q < 4294967296" using q kb by linarith
  have "unat ((k - 2) div of_nat per * of_nat per) = q"
    using ql dq by (simp add: unat_word_ariths unat_div m per q_def [symmetric])
  then have r: "unat ((k - 2) div of_nat per * of_nat per + 2) = q + 2"
    using q kb k2 by (simp add: unat_word_ariths)
  have r3: "unat (x + 1) = (q + 3) mod 4294967296" if "unat x = q + 2" for x :: u32
    unfolding unat_word_ariths(1) that by (rule arg_cong2 [of _ _ _ _ "(mod)"]) (simp_all only: unat_1, simp_all)
  show ?thesis
  proof (cases "(k - 2) div of_nat per * of_nat per + 2 = of_nat (PENDING_BYTE_PAGE bt)")
    case True
    then have e: "ptrmapPageno bt k = (k - 2) div of_nat per * of_nat per + 2 + 1"
      unfolding ptrmapPageno_def Let_def per_def by (simp only: simp_thms if_True)
    have pl: "PENDING_BYTE_PAGE bt \<le> 1073741825"
      using div_le_dividend [of PENDING_BYTE "pageSize bt"] by (simp add: PENDING_BYTE_PAGE_def PENDING_BYTE_def)
    have "q + 2 = unat (of_nat (PENDING_BYTE_PAGE bt) :: u32)" using r unfolding True by simp
    then have "q + 3 < 4294967296" using pl by (simp add: unat_of_nat)
    then show ?thesis using e r3 [OF r] q_def by simp
  next
    case False
    then show ?thesis using r unfolding ptrmapPageno_def Let_def per_def [symmetric] by (simp only: if_False) (simp add: q_def)
  qed
qed

lemma ptrmap_offset:
  assumes U: "usableSize bt \<le> 32768" and k: "has_entry bt k"
  shows "PTRMAP_PTROFFSET bt k = 5 * (unat k - unat (ptrmapPageno bt k) - 1)" "unat (ptrmapPageno bt k) < unat k"
    "PTRMAP_PTROFFSET bt k + 5 \<le> usableSize bt"
proof -
  define per where "per = usableSize bt div 5 + 1"
  show l: "unat (ptrmapPageno bt k) < unat k" using k by (simp add: has_entry_def word_less_nat_alt)
  have "(unat k - 2) mod per < per" by (rule mod_less_divisor) (simp add: per_def)
  then have "unat k - 2 < (unat k - 2) div per * per + per" using div_mult_mod_eq [of "unat k - 2" per] by linarith
  then have b: "unat k - unat (ptrmapPageno bt k) < per"
    using ptrmap_page [OF U k] l unfolding per_def [symmetric] by auto
  have s: "unat (k - ptrmapPageno bt k - 1) = unat k - unat (ptrmapPageno bt k) - 1"
  proof -
    have "unat (k - ptrmapPageno bt k) = unat k - unat (ptrmapPageno bt k)"
      using l by (simp add: unat_sub word_le_nat_alt)
    moreover have "1 \<le> k - ptrmapPageno bt k" using calculation l by (simp add: word_le_nat_alt)
    ultimately show ?thesis by (simp add: unat_sub)
  qed
  have p5: "5 * per \<le> usableSize bt + 5" by (simp add: per_def)
  have sm: "unat (5 :: u32) * unat (k - ptrmapPageno bt k - 1) < 2 ^ LENGTH(32)" unfolding s using b p5 U by simp
  show o: "PTRMAP_PTROFFSET bt k = 5 * (unat k - unat (ptrmapPageno bt k) - 1)"
    unfolding PTRMAP_PTROFFSET_def unat_mult_lem [THEN iffD1, OF sm] s by simp
  show "PTRMAP_PTROFFSET bt k + 5 \<le> usableSize bt" unfolding o using b p5 l by linarith
qed

lemma ptrmap_put_get:
  assumes "usableSize bt \<le> 32768" "has_entry bt key"
  shows "\<exists>pages'. ptrmapPut bt SQLITE_OK SQLITE_OK pages key t parent = (pages', SQLITE_OK) \<and>
    ptrmapGet bt SQLITE_OK pages' key = (Some (t, parent), if t < 1 \<or> t > 5 then SQLITE_CORRUPT else SQLITE_OK) \<and>
    (\<forall>k. has_entry bt k \<longrightarrow> k \<noteq> key \<longrightarrow> ptrmapGet bt SQLITE_OK pages' k = ptrmapGet bt SQLITE_OK pages k)"
proof -
  let ?i = "ptrmapPageno bt key" and ?o = "PTRMAP_PTROFFSET bt key"
  have k0: "key \<noteq> 0" using assms(2) by (auto simp: has_entry_def)
  define d' where "d' = put4byte ((pages ?i)(?o := t)) (?o + 1) parent"
  show ?thesis
  proof (cases "t \<noteq> pages ?i ?o \<or> get4byte (pages ?i) (?o + 1) \<noteq> parent")
    case True
    have p: "ptrmapPut bt SQLITE_OK SQLITE_OK pages key t parent = (pages(?i := d'), SQLITE_OK)"
      using True k0 by (simp add: ptrmapPut_def Let_def d'_def)
    have g: "d' ?o = t" "get4byte d' (?o + 1) = parent" by (simp_all add: d'_def put4byte_out)
    have "ptrmapGet bt SQLITE_OK (pages(?i := d')) k = ptrmapGet bt SQLITE_OK pages k" if k: "has_entry bt k" "k \<noteq> key" for k
    proof (cases "ptrmapPageno bt k = ?i")
      case True
      have n: "unat k \<noteq> unat key" using k(2) by (simp only: word_unat_eq_iff not_False_eq_True)
      let ?q = "PTRMAP_PTROFFSET bt k"
      have "?q + 5 \<le> ?o \<or> ?o + 5 \<le> ?q"
        using ptrmap_offset(1,2) [OF assms] ptrmap_offset(1,2) [OF assms(1) k(1)] n unfolding True by linarith
      then have "x \<in> {?q..<?q + 5} \<Longrightarrow> d' x = pages ?i x" for x by (auto simp: d'_def put4byte_out)
      then show ?thesis unfolding ptrmapGet_def True using get4byte_cong [of "?q + 1" d' "pages ?i"] by (simp add: Let_def)
    qed (simp add: ptrmapGet_def Let_def)
    then show ?thesis using p g by (intro exI [of _ "pages(?i := d')"]) (simp add: ptrmapGet_def Let_def)
  next
    case False
    then show ?thesis using k0 by (intro exI [of _ pages]) (simp add: ptrmapPut_def ptrmapGet_def Let_def)
  qed
qed

subsection \<open>Properties\<close>


text \<open>
  \<bold>\<open>C36\<close> Removing a cell of a well-formed page: the page is well formed again, its cells are those
  before without the one at the index, and its space and pointer are free again.
\<close>

theorem dropCell_refines:
  assumes "mempage_ok bt p" "i < nCell p"
  shows "\<exists>p'. dropCell p i (cellSize bt p i) = Some p' \<and> mempage_ok bt p' \<and>
    page_cells bt p' = take i (page_cells bt p) @ drop (Suc i) (page_cells bt p) \<and> nFree p' = nFree p + cellSize bt p i + 2"
proof -
  obtain cs fl where pi: "page_inv bt p cs fl" using assms(1) by (auto simp: mempage_ok_def)
  obtain d' fl' where r:
    "dropCell p i (cellSize bt p i) = Some (p\<lparr>nCell := nCell p - 1, nFree := nFree p + (cellSize bt p i + 2), aData := d', idxShift := True\<rparr>)"
    "page_inv bt (p\<lparr>nCell := nCell p - 1, nFree := nFree p + (cellSize bt p i + 2), aData := d', idxShift := True\<rparr>) (take i cs @ drop (Suc i) cs) fl'"
    "map (cell_at d') (take i cs @ drop (Suc i) cs) = map (cell_at (aData p)) (take i cs @ drop (Suc i) cs)"
    by (rule drop_spec [OF pi assms(2) refl]) blast
  have "page_cells bt p = map (cell_at (aData p)) cs" using pi by (intro page_cells_eq) (simp add: page_inv_def)
  moreover have "page_cells bt (p\<lparr>nCell := nCell p - 1, nFree := nFree p + (cellSize bt p i + 2), aData := d', idxShift := True\<rparr>) =
      map (cell_at d') (take i cs @ drop (Suc i) cs)"
    using page_cells_eq [of bt "p\<lparr>nCell := nCell p - 1, nFree := nFree p + (cellSize bt p i + 2), aData := d', idxShift := True\<rparr>"
      "take i cs @ drop (Suc i) cs"] r(2) by (simp add: page_inv_def)
  ultimately show ?thesis using r by (intro exI conjI) (auto simp: mempage_ok_def take_map drop_map)
qed

text \<open>
  \<bold>\<open>C37\<close> Reading a page back: whatever cached fields a page had, \<^verbatim>\<open>initPage\<close> of the content of
  a well-formed page accepts it and computes the very fields of the page, its free space included.
\<close>

theorem initPage_recovers:
  assumes "bt_ok bt" "mempage_ok bt p" "flags_ok bt p" "parent = None \<or> parent = Some 1 \<or> 0 < nCell p"
    "hdrOffset q = hdrOffset p" "aData q = aData p" "pgno q = pgno p" "\<not> isInit q" "pParent q = None"
  shows "initPage bt parent q = (p\<lparr>isInit := True, idxShift := False, pParent := parent\<rparr>, SQLITE_OK)"
proof -
  obtain cs fl where pi: "page_inv bt p cs fl" using assms(2) by (auto simp: mempage_ok_def)
  show ?thesis by (rule init_spec [OF pi assms(3,1,4-9)])
qed

text \<open>
  \<bold>\<open>C38\<close> The pointer map: what \<^verbatim>\<open>ptrmapPut\<close> stores for a page \<^verbatim>\<open>ptrmapGet\<close> reads back, the
  entry lies on the pointer-map page, and no other page's entry changes.
\<close>

theorem ptrmap_roundtrip:
  assumes "usableSize bt \<le> 32768" "has_entry bt key"
  shows "PTRMAP_PTROFFSET bt key + 5 \<le> usableSize bt \<and>
    (\<exists>pages'. ptrmapPut bt SQLITE_OK SQLITE_OK pages key t parent = (pages', SQLITE_OK) \<and>
      ptrmapGet bt SQLITE_OK pages' key = (Some (t, parent), if t < 1 \<or> t > 5 then SQLITE_CORRUPT else SQLITE_OK) \<and>
      (\<forall>k. has_entry bt k \<longrightarrow> k \<noteq> key \<longrightarrow> ptrmapGet bt SQLITE_OK pages' k = ptrmapGet bt SQLITE_OK pages k))"
  using ptrmap_offset(3) [OF assms] ptrmap_put_get [OF assms] by simp

text \<open>A database with pages of 1024 bytes, an empty table leaf, and a row of two bytes.\<close>

definition bt1024 :: BtShared where
  "bt1024 = \<lparr>autoVacuum = False, pageSize = 1024, usableSize = 1024, bt_maxLocal = 230, bt_minLocal = 103, maxLeaf = 989, minLeaf = 103\<rparr>"

definition blank_page :: MemPage where
  "blank_page = \<lparr>isInit = False, idxShift = False, intKey = False, leaf = False, zeroData = False, leafData = False, hasData = False,
     hdrOffset = 0, childPtrSize = 0, maxLocal = 0, minLocal = 0, cellOffset = 0, nFree = 0, nCell = 0, aOvfl = [], aData = (\<lambda>_. 0),
     pgno = 3, pParent = None\<rparr>"

definition leaf_page :: MemPage where
  "leaf_page = zeroPage bt1024 blank_page (PTF_LEAFDATA OR PTF_LEAF)"

definition row2 :: mem where
  "row2 = (\<lambda>i. [2, 7, 65, 66] ! i)"

lemma bt1024_ok: "bt_ok bt1024"
  by (simp add: bt_ok_def bt1024_def)

lemma leaf_page_facts:
  "mempage_ok bt1024 leaf_page" "flags_ok bt1024 leaf_page" "page_cells bt1024 leaf_page = []" "nFree leaf_page = 1016" "nCell leaf_page = 0"
  "childPtrSize leaf_page = 0"
proof -
  have z: "hdrOffset blank_page \<le> 100" by (simp add: blank_page_def)
  show "mempage_ok bt1024 leaf_page" "flags_ok bt1024 leaf_page" "page_cells bt1024 leaf_page = []"
    unfolding mempage_ok_def leaf_page_def using zero_spec [OF bt1024_ok z] by auto
  show "nFree leaf_page = 1016" "nCell leaf_page = 0" "childPtrSize leaf_page = 0"
    by (simp_all add: leaf_page_def zeroPage_def Let_def decode_fields blank_page_def bt1024_def flag_def)
qed

lemma row2_size: "cellSizePtr bt1024 leaf_page row2 = 4"
proof -
  have f: "childPtrSize leaf_page = 0" "hasData leaf_page" "intKey leaf_page" "maxLocal leaf_page = 989"
    by (simp_all add: leaf_page_def zeroPage_def Let_def decode_fields bt1024_def flag_def)
  have v: "getVarint32 row2 = (1, 2)" "sqlite3GetVarint (at row2 1) = (1, 7)"
    by (simp_all add: getVarint32_def row2_def sqlite3GetVarint_def and_128_iff)
  show ?thesis using v by (simp add: cellSizePtr_def parseCellPtr_def f Let_def)
qed

definition row_page :: MemPage where
  "row_page = (case insertCell bt1024 (\<lambda>_. True) SQLITE_OK SQLITE_OK (\<lambda>_ _. 0) leaf_page 0 row2 4 None 0 of Some (p, _) \<Rightarrow> p | None \<Rightarrow> leaf_page)"

lemma row_page_facts:
  "mempage_ok bt1024 row_page" "flags_ok bt1024 row_page" "nCell row_page = 1" "pgno row_page = 3" "length (page_cells bt1024 row_page) = 1"
proof -
  obtain cs fl where pi: "page_inv bt1024 leaf_page cs fl" using leaf_page_facts(1) by (auto simp: mempage_ok_def)
  have a: "0 \<le> nCell leaf_page" "4 = cellSizePtr bt1024 leaf_page row2" "4 + 2 \<le> nFree leaf_page" "0 \<le> childPtrSize leaf_page"
    by (simp_all add: row2_size leaf_page_facts)
  obtain d' cs' fl' e pages' r where r:
    "insertCell bt1024 (\<lambda>_. True) SQLITE_OK SQLITE_OK (\<lambda>_ _. 0) leaf_page 0 row2 4 None 0 =
       Some (leaf_page\<lparr>nCell := nCell leaf_page + 1, nFree := nFree leaf_page - (4 + 2), aData := d', idxShift := True\<rparr>, pages', r)"
    "page_inv bt1024 (leaf_page\<lparr>nCell := nCell leaf_page + 1, nFree := nFree leaf_page - (4 + 2), aData := d', idxShift := True\<rparr>) cs' fl'"
    "d' (hdrOffset leaf_page) = aData leaf_page (hdrOffset leaf_page)"
    by (rule insert_spec [OF pi a(1-3) TrueI TrueI a(4)]) blast
  have p: "row_page = leaf_page\<lparr>nCell := nCell leaf_page + 1, nFree := nFree leaf_page - (4 + 2), aData := d', idxShift := True\<rparr>"
    unfolding row_page_def r(1) by simp
  show "mempage_ok bt1024 row_page" unfolding mempage_ok_def p using r(2) by blast
  show "flags_ok bt1024 row_page" unfolding p by (rule flags_ok_upd; rule leaf_page_facts(2) r(3))
  show n: "nCell row_page = 1" unfolding p by (simp add: leaf_page_facts)
  show "pgno row_page = 3" unfolding p by (simp add: leaf_page_def zeroPage_def Let_def decode_fields blank_page_def)
  show "length (page_cells bt1024 row_page) = 1" by (simp add: page_cells_def n)
qed


theorem dropCell_refines_witness:
  "\<exists>p'. dropCell row_page 0 (cellSize bt1024 row_page 0) = Some p' \<and> mempage_ok bt1024 p' \<and> page_cells bt1024 p' = []"
  using dropCell_refines [of bt1024 row_page 0] row_page_facts by auto

theorem initPage_recovers_witness:
  "initPage bt1024 (Some 9) (row_page\<lparr>isInit := False, nCell := 77, nFree := 0, leaf := False, pParent := None\<rparr>) =
     (row_page\<lparr>isInit := True, idxShift := False, pParent := Some 9\<rparr>, SQLITE_OK)"
  by (rule initPage_recovers) (simp_all add: bt1024_ok row_page_facts)

theorem ptrmap_roundtrip_witness:
  "PTRMAP_PTROFFSET bt1024 3 + 5 \<le> 1024 \<and>
    (\<exists>pages'. ptrmapPut bt1024 SQLITE_OK SQLITE_OK (\<lambda>_ _. 0) 3 5 77 = (pages', SQLITE_OK) \<and>
      ptrmapGet bt1024 SQLITE_OK pages' 3 = (Some (5, 77), SQLITE_OK))"
proof -
  have "ptrmapPageno bt1024 3 = 2" by (simp add: ptrmapPageno_def bt1024_def PENDING_BYTE_PAGE_def PENDING_BYTE_def)
  then have "has_entry bt1024 3" by (simp add: has_entry_def)
  moreover have "usableSize bt1024 \<le> 32768" "usableSize bt1024 = 1024" by (simp_all add: bt1024_def)
  ultimately show ?thesis using ptrmap_roundtrip [of bt1024 3 "\<lambda>_ _. 0" 5 77] by auto
qed

end
