(* ===== verification/Like.thy ===== *)
theory Like
  imports Utf Str
begin

text \<open>
  The operators \<^verbatim>\<open>LIKE\<close> and \<^verbatim>\<open>GLOB\<close> of \<^verbatim>\<open>func.c\<close>. Moving a pointer into a text is taking the rest of the
  text; the end of the text reads as zero. The specification works on characters: a pattern is a
  list of tokens, each of which stands for any text or for one character out of a set.
\<close>

unbundle bit_operations_syntax

subsection \<open>The code\<close>

record compareInfo =
  matchAll :: u8
  matchOne :: u8
  matchSet :: u8
  noCase :: bool

definition globInfo :: compareInfo where
  "globInfo = \<lparr>matchAll = 42, matchOne = 63, matchSet = 91, noCase = False\<rparr>"

definition likeInfoNorm :: compareInfo where
  "likeInfoNorm = \<lparr>matchAll = 37, matchOne = 95, matchSet = 0, noCase = True\<rparr>"

definition likeInfoAlt :: compareInfo where
  "likeInfoAlt = \<lparr>matchAll = 37, matchOne = 95, matchSet = 0, noCase = False\<rparr>"

definition sqliteNextChar :: "bytes \<Rightarrow> bytes" where
  "sqliteNextChar z = dropWhile (\<lambda>c. 0xc0 AND c = 0x80) (tl z)"

lemma next_length: "length (sqliteNextChar z) \<le> length z - 1"
  using length_dropWhile_le [of "\<lambda>c. 0xc0 AND c = 0x80" "tl z"] by (simp add: sqliteNextChar_def)

lemma next_less: "cat z 0 \<noteq> 0 \<Longrightarrow> length (sqliteNextChar z) < length z"
  using next_length [of z] by (cases z) auto

lemma read_less: "sqlite3ReadUtf8 z \<noteq> 0 \<Longrightarrow> length (sqliteNextChar z) < length z"
  using next_length [of z] by (cases z) (auto simp: sqlite3ReadUtf8_def READ_UTF8_def xtra_utf8_bytes_def)

text \<open>The wildcards behind a \<^verbatim>\<open>%\<close>: the rest of the pattern and of the text, or \<open>None\<close> if the text is too short.\<close>

fun star_skip :: "compareInfo \<Rightarrow> bytes \<Rightarrow> bytes \<Rightarrow> (bytes \<times> bytes) option" where
  "star_skip pInfo [] s = Some ([], s)"
| "star_skip pInfo (c # p) s =
     (if c = matchAll pInfo \<or> c = matchOne pInfo then
        (if c = matchOne pInfo then (if cat s 0 = 0 then None else star_skip pInfo p (sqliteNextChar s))
         else star_skip pInfo p s)
      else Some (c # p, s))"

lemma star_skip_length: "star_skip pInfo p s = Some (p', s') \<Longrightarrow> length p' \<le> length p"
  by (induction pInfo p s rule: star_skip.induct) (auto split: if_splits)

text \<open>The characters between the brackets: the last character read, whether \<open>c\<close> was seen, and the place.\<close>

function set_loop :: "int \<Rightarrow> bool \<Rightarrow> int \<Rightarrow> bytes \<Rightarrow> int \<times> bool \<times> bytes" where
  "set_loop c seen prior_c p =
     (let c2 = sqlite3ReadUtf8 p
      in if c2 = 0 \<or> c2 = 93 then (c2, seen, p)
         else if c2 = 45 \<and> cat p 1 \<noteq> 93 \<and> cat p 1 \<noteq> 0 \<and> prior_c > 0 then
           (let p = tl p; c2 = sqlite3ReadUtf8 p
            in set_loop c (seen \<or> (c \<ge> prior_c \<and> c \<le> c2)) 0 (sqliteNextChar p))
         else if c = c2 then set_loop c True c2 (sqliteNextChar p)
         else set_loop c seen c2 (sqliteNextChar p))"
  by pat_completeness auto
termination
proof (relation "measure (\<lambda>(c, seen, prior_c, p). length p)", goal_cases)
  case (2 c seen prior_c p c2 p' c2')
  then have "0 < length p" by (cases p) (auto simp: sqlite3ReadUtf8_def READ_UTF8_def xtra_utf8_bytes_def)
  then show ?case using next_length [of p'] 2 by (auto simp: Let_def intro: le_less_trans)
qed (auto simp: read_less)
declare set_loop.simps [simp del]

lemma set_loop_length: "set_loop c seen prior_c p = (c2, seen', p') \<Longrightarrow> length p' \<le> length p"
proof (induction c seen prior_c p rule: set_loop.induct)
  case (1 c seen prior_c p)
  have n: "length (sqliteNextChar p) \<le> length p" "length (sqliteNextChar (tl p)) \<le> length p"
    using next_length [of p] next_length [of "tl p"] by simp_all
  show ?case using 1(4) 1(1-3) n by (subst (asm) set_loop.simps) (fastforce simp: Let_def split: if_splits)
qed

text \<open>Matching one character against a set: the rest of the pattern, or \<open>None\<close>.\<close>

definition set_match :: "bytes \<Rightarrow> bytes \<Rightarrow> bytes option" where
  "set_match p s =
     (let c = sqlite3ReadUtf8 s
      in if c = 0 then None
         else
           (let p = tl p;
                (invert, p) = (if cat p 0 = 94 then (True, tl p) else (False, p));
                (seen, p) = (if cat p 0 = 93 then (c = 93, tl p) else (False, p));
                (c2, seen, p) = set_loop c seen 0 p
            in if c2 = 0 \<or> seen = invert then None else Some (tl p)))"

lemma set_match_length:
  assumes "p \<noteq> []" "set_match p s = Some p'"
  shows "length p' < length p"
proof -
  define r1 where "r1 = (if cat (tl p) 0 = 94 then (True, tl (tl p)) else (False, tl p))"
  define r2 where "r2 = (if cat (snd r1) 0 = 93 then (sqlite3ReadUtf8 s = 93, tl (snd r1)) else (False, snd r1))"
  define r3 where "r3 = set_loop (sqlite3ReadUtf8 s) (fst r2) 0 (snd r2)"
  have "set_match p s = (if sqlite3ReadUtf8 s = 0 then None else if fst r3 = 0 \<or> fst (snd r3) = fst r1 then None else Some (tl (snd (snd r3))))"
    unfolding set_match_def Let_def case_prod_beta r1_def [symmetric] r2_def [symmetric] r3_def [symmetric] by (rule refl)
  then have "p' = tl (snd (snd r3))" using assms(2) by (simp split: if_splits)
  moreover have "length (snd (snd r3)) \<le> length (snd r2)"
    using set_loop_length [of "sqlite3ReadUtf8 s" "fst r2" 0 "snd r2" "fst r3" "fst (snd r3)" "snd (snd r3)"] by (simp add: r3_def)
  moreover have "length (snd r2) \<le> length p - 1" unfolding r2_def r1_def by auto
  ultimately show ?thesis using assms(1) by (cases p) auto
qed

subsection \<open>The comparison\<close>

text \<open>The argument \<open>prevEscape\<close> says whether the character before was the escape character.
  \<open>star_set\<close> and \<open>star_lit\<close> are the loops behind a \<^verbatim>\<open>%\<close>.\<close>

definition fold_byte :: "compareInfo \<Rightarrow> u8 \<Rightarrow> u8" where
  "fold_byte pInfo c = (if noCase pInfo then UpperToLower c else c)"

definition scan_to :: "compareInfo \<Rightarrow> u8 \<Rightarrow> bytes \<Rightarrow> bytes" where
  "scan_to pInfo c s = dropWhile (\<lambda>b. b \<noteq> 0 \<and> fold_byte pInfo b \<noteq> c) s"

lemma scan_length: "length (scan_to pInfo c s) \<le> length s"
  by (simp add: scan_to_def length_dropWhile_le)

lemma next_less_scan: "cat (scan_to pInfo c s) 0 \<noteq> 0 \<Longrightarrow> length (sqliteNextChar (scan_to pInfo c s)) < length s"
  using next_less [of "scan_to pInfo c s"] scan_length [of pInfo c s] by linarith

lemma tl_less: "cat p 0 \<noteq> 0 \<Longrightarrow> length (tl p) < length p"
  by (cases p) auto

lemma skip_less: "star_skip pInfo (tl p) s = Some (p', s') \<Longrightarrow> cat p 0 \<noteq> 0 \<Longrightarrow> length p' < length p"
  using star_skip_length [of pInfo "tl p" s p' s'] tl_less [of p] by linarith

function (sequential) pattern_loop :: "compareInfo \<Rightarrow> int \<Rightarrow> bool \<Rightarrow> bytes \<Rightarrow> bytes \<Rightarrow> bool"
  and star_set :: "compareInfo \<Rightarrow> int \<Rightarrow> bytes \<Rightarrow> bytes \<Rightarrow> bool"
  and star_lit :: "compareInfo \<Rightarrow> int \<Rightarrow> u8 \<Rightarrow> bytes \<Rightarrow> bytes \<Rightarrow> bool" where
  "pattern_loop pInfo esc prevEscape p s =
     (let c = cat p 0
      in if c = 0 then cat s 0 = 0
         else if \<not> prevEscape \<and> c = matchAll pInfo then
           (case star_skip pInfo (tl p) s of
              None \<Rightarrow> False
            | Some (p, s) \<Rightarrow>
                (let c = cat p 0;
                     c = (if c \<noteq> 0 \<and> esc \<noteq> 0 \<and> sqlite3ReadUtf8 p = esc then cat (sqliteNextChar p) 0 else c)
                 in if c = 0 then True
                    else if c = matchSet pInfo then star_set pInfo esc p s
                    else star_lit pInfo esc c p s))
         else if \<not> prevEscape \<and> c = matchOne pInfo then
           (if cat s 0 = 0 then False else pattern_loop pInfo esc prevEscape (tl p) (sqliteNextChar s))
         else if c = matchSet pInfo then
           (case set_match p s of None \<Rightarrow> False | Some p \<Rightarrow> pattern_loop pInfo esc prevEscape p (sqliteNextChar s))
         else if esc \<noteq> 0 \<and> \<not> prevEscape \<and> sqlite3ReadUtf8 p = esc then pattern_loop pInfo esc True (sqliteNextChar p) s
         else if fold_byte pInfo c \<noteq> fold_byte pInfo (cat s 0) then False
         else pattern_loop pInfo esc False (tl p) (tl s))"
| "star_set pInfo esc p s =
     (if cat s 0 \<noteq> 0 \<and> \<not> pattern_loop pInfo esc False p s then star_set pInfo esc p (sqliteNextChar s) else cat s 0 \<noteq> 0)"
| "star_lit pInfo esc c p s =
     (if cat s 0 = 0 then False
      else
        (let c = fold_byte pInfo c; s = scan_to pInfo c s
         in if cat s 0 = 0 then False
            else if pattern_loop pInfo esc False p s then True
            else star_lit pInfo esc c p (sqliteNextChar s)))"
  by pat_completeness auto

termination
proof (relation "inv_image (less_than <*lex*> less_than <*lex*> less_than)
    (\<lambda>x. case x of Inl (i, e, pe, p, s) \<Rightarrow> (length p, length s, 0)
       | Inr (Inl (i, e, p, s)) \<Rightarrow> (length p, length s, 1) | Inr (Inr (i, e, c, p, s)) \<Rightarrow> (length p, length s, 1))",
    (rule wf_inv_image, intro wf_lex_prod wf_less_than), simp_all only: in_inv_image sum.case prod.case in_lex_prod less_than_iff, goal_cases)
  case (1 pInfo esc prevEscape p s x x2 x1 x2a)
  then have "star_skip pInfo (tl p) s = Some (x1, x2a)" "cat p 0 \<noteq> 0" "x2 = (x1, x2a)" by simp_all
  then show ?case using skip_less by simp
next
  case (2 pInfo esc prevEscape p s x x2 x1 x2a)
  then have "star_skip pInfo (tl p) s = Some (x1, x2a)" "cat p 0 \<noteq> 0" "x2 = (x1, x2a)" by simp_all
  then show ?case using skip_less by simp
next
  case (4 pInfo esc prevEscape p s x x2)
  then have "set_match p s = Some x2" "p \<noteq> []" by auto
  then show ?case using set_match_length by simp
qed (use next_less tl_less scan_length next_less_scan in \<open>simp_all add: le_eq_less_or_eq [symmetric]\<close>)

declare pattern_loop.simps [simp del] star_set.simps [simp del] star_lit.simps [simp del]

definition patternCompare :: "compareInfo \<Rightarrow> int \<Rightarrow> bytes \<Rightarrow> bytes \<Rightarrow> bool" where
  "patternCompare pInfo esc zPattern zString = pattern_loop pInfo esc False zPattern zString"

text \<open>
  The SQL function: the texts are \<open>None\<close> for NULL, and \<open>zEsc\<close> is the third argument if there is one.
  The result \<open>None\<close> is the use of a null pointer.
\<close>

datatype like_result = LikeError | LikeNull | LikeInt bool

definition likeFunc :: "compareInfo \<Rightarrow> bytes option \<Rightarrow> bytes option \<Rightarrow> bytes option option \<Rightarrow> like_result option" where
  "likeFunc pInfo zA zB zEsc =
     (let compare = (\<lambda>escape. case (zA, zB) of (Some a, Some b) \<Rightarrow> LikeInt (patternCompare pInfo escape a b) | _ \<Rightarrow> LikeNull)
      in case zEsc of
           None \<Rightarrow> Some (compare 0)
         | Some None \<Rightarrow> None
         | Some (Some e) \<Rightarrow>
             (case sqlite3utf8CharLen e (-1) of
                None \<Rightarrow> None
              | Some n \<Rightarrow> Some (if n \<noteq> 1 then LikeError else compare (sqlite3ReadUtf8 e))))"

end
