(* ===== verification/LikeSpec.thy ===== *)
theory LikeSpec
  imports Like
begin

text \<open>
  What \<^verbatim>\<open>LIKE\<close> and \<^verbatim>\<open>GLOB\<close> mean: a pattern, a list of characters, is read as a list of tokens
  (\<open>parse_pattern\<close>), which match a list of characters (\<open>tmatch\<close>). The code works on the bytes of
  well-formed UTF-8 (\<open>utf8\<close>); the lemmas follow it byte by byte, loop by loop.
\<close>

subsection \<open>The bytes of a character\<close>

abbreviation utf8 :: "int list \<Rightarrow> bytes" where "utf8 cs \<equiv> concat (map WRITE_UTF8 cs)"

definition cont :: "u8 \<Rightarrow> bool" where "cont b \<longleftrightarrow> 128 \<le> uint b \<and> uint b < 192"

lemma div64: "0 \<le> x \<Longrightarrow> x < 256 \<Longrightarrow> x div 64 mod 4 = 2 \<longleftrightarrow> 128 \<le> x \<and> x < 192" for x :: int
proof -
  assume "0 \<le> x" "x < 256"
  then have "x div 64 mod 4 = x div 64" by (intro mod_pos_pos_trivial) auto
  moreover have "x div 64 = 2 \<longleftrightarrow> 128 \<le> x \<and> x < 192" by presburger
  ultimately show ?thesis by simp
qed

lemma cont_iff: "0xc0 AND b = 0x80 \<longleftrightarrow> cont b" for b :: u8
proof -
  have u: "uint (0xc0 AND b) = 64 * (uint b div 64 mod 4)" by (simp add: unsigned_and_eq and.commute [of 192] and_bits_6)
  have "0xc0 AND b = 0x80 \<longleftrightarrow> uint b div 64 mod 4 = 2" unfolding word_uint_eq_iff u by simp
  also have "\<dots> \<longleftrightarrow> cont b" unfolding cont_def
    by (rule div64) (use unsigned_less [of b, where ?'a = int] in simp_all)
  finally show ?thesis .
qed

lemma write_lead:
  assumes "WRITE_UTF8 c = of_int x # bs" "192 \<le> x" "x < 256" "bs \<noteq> []" "\<And>y. y \<in> set bs \<Longrightarrow> cont y" "128 \<le> c"
  shows "\<exists>b bs. WRITE_UTF8 c = b # bs \<and> \<not> cont b \<and> (\<forall>x\<in>set bs. cont x) \<and> (c < 128 \<longleftrightarrow> bs = []) \<and> (c < 128 \<longleftrightarrow> b < 128) \<and>
    (c < 128 \<longrightarrow> b = of_int c \<and> uint b = c)"
proof -
  have u: "uint (of_int x :: u8) = x" using uint_of_int_u8 [of x] assms(2,3) by simp
  have "\<not> cont (of_int x)" "\<not> (of_int x :: u8) < 128" using assms(2) by (simp_all only: cont_def word_less_def u) simp_all
  then show ?thesis using assms by (intro exI [of _ "of_int x"] exI [of _ bs]) auto
qed

lemma cont_byte: "cont (of_int (128 + x mod 64))" for x :: int
proof -
  have "0 \<le> x mod 64" "x mod 64 < 64" by simp_all
  then have "uint (of_int (128 + x mod 64) :: u8) = 128 + x mod 64" by (intro uint_of_int_u8) simp_all
  then show ?thesis by (simp only: cont_def) (simp add: \<open>x mod 64 < 64\<close>)
qed

lemma write_form:
  assumes "code_point c"
  obtains b bs where "WRITE_UTF8 c = b # bs" "\<not> cont b" "\<And>x. x \<in> set bs \<Longrightarrow> cont x" "c < 128 \<longleftrightarrow> bs = []" "c < 128 \<longleftrightarrow> b < 128"
    "c < 128 \<Longrightarrow> b = of_int c" "c < 128 \<Longrightarrow> uint b = c" "length bs = xtra_utf8_bytes ! unat b"
proof -
  have c: "0 \<le> c" "c < 0x110000" using assms by (auto simp: code_point_def)
  have len: "SKIP_UTF8 (WRITE_UTF8 c @ []) 0 = length (WRITE_UTF8 c)" by (rule skip_utf8_write [OF assms])
  consider "c < 0x80" | "0x80 \<le> c" "c < 0x800" | "0x800 \<le> c" "c < 0x10000" | "0x10000 \<le> c" by linarith
  then have "\<exists>b bs. WRITE_UTF8 c = b # bs \<and> \<not> cont b \<and> (\<forall>x\<in>set bs. cont x) \<and> (c < 128 \<longleftrightarrow> bs = []) \<and> (c < 128 \<longleftrightarrow> b < 128) \<and>
    (c < 128 \<longrightarrow> b = of_int c \<and> uint b = c)"
  proof cases
    case 1
    then have w: "WRITE_UTF8 c = [of_int c]" and u: "uint (of_int c :: u8) = c" using c uint_of_int_u8 [of c] by (simp_all add: WRITE_UTF8_def and_masks)
    show ?thesis unfolding w using 1 u by (intro exI [of _ "of_int c"] exI [of _ "[]"]) (simp add: cont_def word_less_def)
  next
    case 2
    have w: "WRITE_UTF8 c = of_int (192 + c div 64 mod 32) # [of_int (128 + c mod 64)]"
      using 2 by (simp add: WRITE_UTF8_def and_masks shift_div)
    have "c div 64 mod 32 < 32" "0 \<le> c div 64 mod 32" by simp_all
    then show ?thesis using 2 cont_byte by (intro write_lead [OF w]) auto
  next
    case 3
    have w: "WRITE_UTF8 c = of_int (224 + c div 4096 mod 16) # [of_int (128 + c div 64 mod 64), of_int (128 + c mod 64)]"
      using 3 by (simp add: WRITE_UTF8_def and_masks shift_div)
    have "c div 4096 mod 16 < 16" "0 \<le> c div 4096 mod 16" by simp_all
    then show ?thesis using 3 cont_byte by (intro write_lead [OF w]) auto
  next
    case 4
    have w: "WRITE_UTF8 c = of_int (240 + c div 262144 mod 8) # [of_int (128 + c div 4096 mod 64), of_int (128 + c div 64 mod 64), of_int (128 + c mod 64)]"
      using 4 by (simp add: WRITE_UTF8_def and_masks shift_div)
    have "c div 262144 mod 8 < 8" "0 \<le> c div 262144 mod 8" by simp_all
    then show ?thesis using 4 cont_byte by (intro write_lead [OF w]) auto
  qed
  then obtain b bs where b: "WRITE_UTF8 c = b # bs" "\<not> cont b" "\<forall>x\<in>set bs. cont x" "c < 128 \<longleftrightarrow> bs = []" "c < 128 \<longleftrightarrow> b < 128"
    "c < 128 \<longrightarrow> b = of_int c \<and> uint b = c" by blast
  have "length bs = xtra_utf8_bytes ! unat b" using len b(1) by (simp add: SKIP_UTF8_def)
  then show thesis using that b by blast
qed

lemma write_inj: "code_point c \<Longrightarrow> code_point d \<Longrightarrow> WRITE_UTF8 c = WRITE_UTF8 d \<Longrightarrow> c = d"
  using read_write_utf8 [of c "[]"] read_write_utf8 [of d "[]"] by simp

lemma read_utf8: "code_point c \<Longrightarrow> sqlite3ReadUtf8 (utf8 (c # cs)) = c"
  using read_write_utf8 [of c "utf8 cs"] by (simp add: sqlite3ReadUtf8_def)

lemma read_cont: "cont b \<Longrightarrow> sqlite3ReadUtf8 (b # z) = 0xFFFD"
  unfolding cont_def sqlite3ReadUtf8_def READ_UTF8_def by (simp add: xtra_utf8_bytes_eq word_less_def)

lemma next_utf8:
  assumes "code_point c" "list_all code_point cs"
  shows "sqliteNextChar (utf8 (c # cs)) = utf8 cs"
proof -
  obtain b bs where b: "WRITE_UTF8 c = b # bs" "\<And>x. x \<in> set bs \<Longrightarrow> cont x" by (rule write_form [OF assms(1)]) blast
  have "dropWhile cont (utf8 cs) = utf8 cs"
  proof (cases cs)
    case (Cons d ds)
    then have "code_point d" using assms(2) by simp
    then obtain e es where "WRITE_UTF8 d = e # es" "\<not> cont e" by (rule write_form) blast
    then show ?thesis by (simp add: Cons)
  qed simp
  moreover have "dropWhile cont (bs @ utf8 cs) = dropWhile cont (utf8 cs)" using b(2) by (intro dropWhile_append2) auto
  ultimately show ?thesis using b(1) by (simp add: sqliteNextChar_def cont_iff)
qed

lemma utf8_head:
  assumes "code_point c" "c \<noteq> 0"
  shows "cat (utf8 (c # cs)) 0 \<noteq> 0" "uint m < 128 \<Longrightarrow> cat (utf8 (c # cs)) 0 = m \<longleftrightarrow> c = uint m"
proof -
  obtain b bs where b: "WRITE_UTF8 c = b # bs" "c < 128 \<longleftrightarrow> b < 128" "c < 128 \<Longrightarrow> uint b = c" by (rule write_form [OF assms(1)]) blast
  have h: "cat (utf8 (c # cs)) 0 = b" by (simp add: b(1))
  have l: "b < 128 \<longleftrightarrow> uint b < 128" by (simp add: word_less_def)
  have main: "cat (utf8 (c # cs)) 0 = m \<longleftrightarrow> c = uint m" if m: "uint m < 128" for m :: u8
  proof (cases "c < 128")
    case True
    then show ?thesis using b(3) unfolding h by (auto simp: word_uint_eq_iff)
  next
    case False
    then show ?thesis using b(2) m unfolding h l by auto
  qed
  show "uint m < 128 \<Longrightarrow> cat (utf8 (c # cs)) 0 = m \<longleftrightarrow> c = uint m" by (rule main)
  show "cat (utf8 (c # cs)) 0 \<noteq> 0" using main [of 0] assms(2) by simp
qed

subsection \<open>The specification\<close>

datatype ptok = Any | Chr "int \<Rightarrow> bool"

fun tmatch :: "ptok list \<Rightarrow> int list \<Rightarrow> bool" where
  "tmatch [] s \<longleftrightarrow> s = []"
| "tmatch (Any # ts) s \<longleftrightarrow> (\<exists>k\<le>length s. tmatch ts (drop k s))"
| "tmatch (Chr p # ts) s \<longleftrightarrow> (case s of [] \<Rightarrow> False | c # s \<Rightarrow> p c \<and> tmatch ts s)"

text \<open>The intervals of a set, up to its closing bracket, and the pattern behind it.\<close>

function set_items :: "int \<Rightarrow> int list \<Rightarrow> ((int \<times> int) list \<times> int list) option" where
  "set_items prior [] = None"
| "set_items prior (d # ds) =
     (if d = 93 then Some ([], ds)
      else if d = 45 \<and> ds \<noteq> [] \<and> hd ds \<noteq> 93 \<and> prior > 0 then
        map_option (\<lambda>(its, r). ((prior, hd ds) # its, r)) (set_items 0 (tl ds))
      else map_option (\<lambda>(its, r). ((d, d) # its, r)) (set_items d ds))"
  by pat_completeness auto
termination by (relation "measure (\<lambda>(p, ds). length ds)") auto

definition strip :: "int \<Rightarrow> int list \<Rightarrow> bool \<times> int list" where
  "strip c cs = (if cs \<noteq> [] \<and> hd cs = c then (True, tl cs) else (False, cs))"

definition parse_set :: "int list \<Rightarrow> ((int \<Rightarrow> bool) \<times> int list) option" where
  "parse_set cs =
     (let (inv, cs) = strip 94 cs; (rb, cs) = strip 93 cs
      in map_option (\<lambda>(its, r). (\<lambda>c. (rb \<and> c = 93 \<or> (\<exists>(lo, hi)\<in>set its. lo \<le> c \<and> c \<le> hi)) \<noteq> inv, r)) (set_items 0 cs))"

lemma set_items_length: "set_items prior cs = Some (its, r) \<Longrightarrow> length r < length cs \<and> set r \<subseteq> set cs"
proof (induction prior cs arbitrary: its r rule: set_items.induct)
  case (2 prior d ds)
  consider "d = 93" | "d \<noteq> 93" "d = 45 \<and> ds \<noteq> [] \<and> hd ds \<noteq> 93 \<and> prior > 0" | "d \<noteq> 93" "\<not> (d = 45 \<and> ds \<noteq> [] \<and> hd ds \<noteq> 93 \<and> prior > 0)" by blast
  then show ?case
  proof cases
    case 1
    then show ?thesis using 2(3) by auto
  next
    case c: 2
    have "set_items prior (d # ds) = map_option (\<lambda>(its, r). ((prior, hd ds) # its, r)) (set_items 0 (tl ds))"
      using c by simp
    then obtain its' where "set_items 0 (tl ds) = Some (its', r)" using 2(3) by auto
    from 2(1) [OF c this] show ?thesis using c by (cases ds) auto
  next
    case c: 3
    have "set_items prior (d # ds) = map_option (\<lambda>(its, r). ((d, d) # its, r)) (set_items d ds)"
      using c by auto
    then obtain its' where "set_items d ds = Some (its', r)" using 2(3) by auto
    from 2(2) [OF c this] show ?thesis by auto
  qed
qed simp

lemma strip_length: "length (snd (strip c cs)) \<le> length cs" "set (snd (strip c cs)) \<subseteq> set cs"
  using list.set_sel(2) [of cs] by (auto simp: strip_def)

lemma parse_set_length: "parse_set cs = Some (p, r) \<Longrightarrow> length r < length cs \<and> set r \<subseteq> set cs"
proof -
  let ?cs = "snd (strip 93 (snd (strip 94 cs)))"
  assume "parse_set cs = Some (p, r)"
  then obtain its where "set_items 0 ?cs = Some (its, r)" unfolding parse_set_def Let_def case_prod_beta by auto
  from set_items_length [OF this] show "length r < length cs \<and> set r \<subseteq> set cs"
    using strip_length [of 94 cs] strip_length [of 93 "snd (strip 94 cs)"] by auto
qed

definition fold_char :: "compareInfo \<Rightarrow> int \<Rightarrow> int" where
  "fold_char i c = (if noCase i \<and> 65 \<le> c \<and> c \<le> 90 then c + 32 else c)"

text \<open>A set without its closing bracket matches nothing; an escape character at the end of the pattern has no effect.\<close>

function parse_pattern :: "compareInfo \<Rightarrow> int \<Rightarrow> int list \<Rightarrow> ptok list" where
  "parse_pattern i esc [] = []"
| "parse_pattern i esc (c # cs) =
     (if c = uint (matchAll i) then Any # parse_pattern i esc cs
      else if c = uint (matchOne i) then Chr (\<lambda>_. True) # parse_pattern i esc cs
      else if c = uint (matchSet i) then
        (case parse_set cs of None \<Rightarrow> [Chr (\<lambda>_. False)] | Some (p, r) \<Rightarrow> Chr p # parse_pattern i esc r)
      else if esc \<noteq> 0 \<and> c = esc then
        (case cs of [] \<Rightarrow> [] | d # ds \<Rightarrow> Chr (\<lambda>x. fold_char i x = fold_char i d) # parse_pattern i esc ds)
      else Chr (\<lambda>x. fold_char i x = fold_char i c) # parse_pattern i esc cs)"
  by pat_completeness auto
termination
proof (relation "measure (\<lambda>(i, e, cs). length cs)", goal_cases)
  case (4 i esc c cs x2 x y)
  then show ?case using parse_set_length [of cs x y] by auto
qed auto

subsection \<open>Sets\<close>

definition valid :: "int \<Rightarrow> bool" where "valid c \<longleftrightarrow> code_point c \<and> c \<noteq> 0"

lemma valids: "list_all valid cs \<Longrightarrow> list_all code_point cs"
  by (auto simp: list_all_iff valid_def)

lemma write_ascii: "0 < c \<Longrightarrow> c < 128 \<Longrightarrow> WRITE_UTF8 c = [of_int c]"
  by (simp add: WRITE_UTF8_def and_masks)

lemma set_loop_spec:
  assumes "list_all valid cs" "prior = 0 \<or> valid prior"
  shows "case set_items prior cs of None \<Rightarrow> fst (set_loop c seen prior (utf8 cs)) = 0
    | Some (its, r) \<Rightarrow> set_loop c seen prior (utf8 cs) = (93, seen \<or> (\<exists>(lo, hi)\<in>set its. lo \<le> c \<and> c \<le> hi), utf8 (93 # r))"
  using assms
proof (induction prior cs arbitrary: seen rule: set_items.induct)
  case (1 prior)
  then show ?case by (simp add: set_loop.simps sqlite3ReadUtf8_def READ_UTF8_def xtra_utf8_bytes_def)
next
  case (2 prior d ds)
  have d: "valid d" using 2(3) by simp
  then have d: "valid d" "code_point d" "d \<noteq> 0" by (simp_all add: valid_def)
  have ds: "list_all valid ds" using 2(3) by simp
  then have ds: "list_all valid ds" "list_all code_point ds" using valids by simp_all
  note rd = read_utf8 [OF d(2), of ds] and nx = next_utf8 [OF d(2) ds(2)]
  have second: "cat (utf8 (45 # ds)) 1 = cat (utf8 ds) 0" by (simp add: write_ascii cat_def)
  have head: "cat (utf8 ds) 0 \<noteq> 93 \<and> cat (utf8 ds) 0 \<noteq> 0 \<longleftrightarrow> ds \<noteq> [] \<and> hd ds \<noteq> 93"
  proof (cases ds)
    case (Cons e es)
    then have "code_point e" "e \<noteq> 0" using ds(1) by (simp_all add: valid_def)
    then show ?thesis using utf8_head(1) [of e es] utf8_head(2) [of e 93 es] by (simp add: Cons del: concat.simps list.map)
  qed simp
  consider "d = 93" | "d = 45 \<and> ds \<noteq> [] \<and> hd ds \<noteq> 93 \<and> prior > 0" | "d \<noteq> 93" "\<not> (d = 45 \<and> ds \<noteq> [] \<and> hd ds \<noteq> 93 \<and> prior > 0)" by blast
  then show ?case
  proof cases
    case 1
    then show ?thesis using rd by (subst set_loop.simps) (simp add: Let_def)
  next
    case 2
    then obtain e es where e: "ds = e # es" by (cases ds) auto
    have ve: "code_point e" "list_all valid es" "list_all code_point es" using ds e valids by (auto simp: valid_def)
    have t: "tl (utf8 (d # ds)) = utf8 (e # es)" using 2 e by (simp add: write_ascii)
    have "set_loop c seen prior (utf8 (d # ds)) = set_loop c (seen \<or> prior \<le> c \<and> c \<le> e) 0 (utf8 es)"
      using 2 rd t second head read_utf8 [OF ve(1), of es] next_utf8 [OF ve(1,3)]
      by (subst set_loop.simps) (simp add: Let_def e del: concat.simps list.map)
    then show ?thesis using "2.IH"(1) [of "seen \<or> prior \<le> c \<and> c \<le> e"] 2 e ve by (auto split: option.splits)
  next
    case 3
    have "set_loop c seen prior (utf8 (d # ds)) = set_loop c (seen \<or> c = d) d (utf8 ds)"
      using 3 rd nx second head d(3) by (subst set_loop.simps) (auto simp: Let_def simp del: concat.simps list.map)
    then show ?thesis using "2.IH"(2) [of "seen \<or> c = d"] 3 ds d by (auto split: option.splits)
  qed
qed

lemma strip_head:
  assumes "list_all valid cs" "0 < c" "c < 128"
  shows "(if cat (utf8 cs) 0 = of_int c then (True, tl (utf8 cs)) else (False, utf8 cs)) = (fst (strip c cs), utf8 (snd (strip c cs)))"
proof (cases cs)
  case (Cons d ds)
  have u: "uint (of_int c :: u8) = c" using assms(2,3) by (intro uint_of_int_u8) simp_all
  have "cat (utf8 (d # ds)) 0 = of_int c \<longleftrightarrow> d = c"
    using utf8_head(2) [of d "of_int c" ds] assms u by (simp add: Cons valid_def del: concat.simps list.map)
  then show ?thesis using assms by (auto simp: Cons strip_def write_ascii)
qed (use assms in \<open>auto simp: strip_def word_uint_eq_iff uint_of_int_u8\<close>)

lemma set_match_spec:
  assumes "list_all valid cs" "list_all valid ss"
  shows "set_match (utf8 (91 # cs)) (utf8 ss) =
    (case ss of [] \<Rightarrow> None | t # _ \<Rightarrow> (case parse_set cs of None \<Rightarrow> None | Some (p, r) \<Rightarrow> if p t then Some (utf8 r) else None))"
proof (cases ss)
  case Nil
  then show ?thesis by (simp add: set_match_def sqlite3ReadUtf8_def READ_UTF8_def xtra_utf8_bytes_def)
next
  case (Cons t ts)
  have t: "sqlite3ReadUtf8 (utf8 ss) = t" "t \<noteq> 0" using assms(2) read_utf8 [of t ts] by (simp_all add: Cons valid_def del: concat.simps list.map)
  define inv where "inv = fst (strip 94 cs)"
  define cs1 where "cs1 = snd (strip 94 cs)"
  define rb where "rb = fst (strip 93 cs1)"
  define cs2 where "cs2 = snd (strip 93 cs1)"
  have v1: "list_all valid cs1" and v2: "list_all valid cs2"
    using assms(1) strip_length(2) [of 94 cs] strip_length(2) [of 93 cs1] by (auto simp: cs1_def cs2_def list_all_iff)
  have 1: "(if cat (utf8 cs) 0 = 94 then (True, tl (utf8 cs)) else (False, utf8 cs)) = (inv, utf8 cs1)"
    using strip_head [OF assms(1), of 94] by (simp add: inv_def cs1_def)
  have 2: "(if cat (utf8 cs1) 0 = 93 then (t = 93, tl (utf8 cs1)) else (False, utf8 cs1)) = (rb \<and> t = 93, utf8 cs2)"
    using strip_head [OF v1, of 93] by (auto simp: rb_def cs2_def split: if_splits)
  have tl: "tl (utf8 (91 # cs)) = utf8 cs" by (simp add: write_ascii)
  have "set_match (utf8 (91 # cs)) (utf8 ss) =
      (case set_loop t (rb \<and> t = 93) 0 (utf8 cs2) of (c2, seen, p) \<Rightarrow> if c2 = 0 \<or> seen = inv then None else Some (tl p))"
    unfolding set_match_def Let_def t(1) tl 1 prod.case 2 using t(2) by simp
  moreover have "tl (utf8 (93 # r)) = utf8 r" for r by (simp add: write_ascii)
  ultimately show ?thesis
    using set_loop_spec [OF v2, of 0 t "rb \<and> t = 93"]
    by (auto simp: Cons parse_set_def Let_def case_prod_beta inv_def [symmetric] cs1_def [symmetric] rb_def [symmetric] cs2_def [symmetric]
        split: option.splits simp del: concat.simps list.map)
qed

subsection \<open>Literal characters\<close>

definition like_ok :: "compareInfo \<Rightarrow> int \<Rightarrow> bool" where
  "like_ok i esc \<longleftrightarrow> i = globInfo \<and> esc = 0 \<or> i \<in> {likeInfoNorm, likeInfoAlt} \<and> (esc = 0 \<or> valid esc \<and> esc \<noteq> 0xFFFD)"

lemma like_okD:
  assumes "like_ok i esc"
  shows "uint (matchAll i) < 128" "uint (matchOne i) < 128" "uint (matchSet i) < 128" "matchAll i \<noteq> 0" "matchOne i \<noteq> 0"
    "esc \<noteq> 0xFFFD" "esc \<noteq> 0 \<Longrightarrow> matchSet i = 0" "matchSet i \<noteq> 0 \<Longrightarrow> matchSet i = 91" "matchAll i \<noteq> matchOne i"
    "matchSet i \<noteq> matchAll i" "matchSet i \<noteq> matchOne i"
  using assms by (auto simp: like_ok_def globInfo_def likeInfoNorm_def likeInfoAlt_def)

lemma uint_fold: "uint (fold_byte i b) = fold_char i (uint b)"
proof -
  have le: "65 \<le> b \<longleftrightarrow> 65 \<le> uint b" "b \<le> 90 \<longleftrightarrow> uint b \<le> 90" by (simp_all add: word_le_def)
  show ?thesis
  proof (cases "65 \<le> uint b \<and> uint b \<le> 90")
    case True
    then have "uint (b + 32) = uint b + 32" by (simp add: uint_word_ariths)
    then show ?thesis using True by (simp add: fold_byte_def fold_char_def UpperToLower_eq le)
  qed (auto simp: fold_byte_def fold_char_def UpperToLower_eq le)
qed

lemma fold_byte_eq: "fold_byte i a = fold_byte i b \<longleftrightarrow> fold_char i (uint a) = fold_char i (uint b)"
  by (metis uint_fold word_uint_eq_iff)

lemma fold_idem [simp]: "fold_byte i (fold_byte i a) = fold_byte i a"
proof -
  have "uint (fold_byte i (fold_byte i a)) = uint (fold_byte i a)" unfolding uint_fold by (auto simp: fold_char_def)
  then show ?thesis by (simp only: word_uint_eq_iff)
qed

lemma fold_zero: "fold_byte i a = 0 \<longleftrightarrow> a = 0"
proof -
  have "0 \<le> uint a" by simp
  then have "uint (fold_byte i a) = 0 \<longleftrightarrow> uint a = 0" unfolding uint_fold by (auto simp: fold_char_def)
  then show ?thesis by (simp add: word_uint_eq_iff)
qed

lemma fold_high: "128 \<le> uint b \<Longrightarrow> fold_byte i a = fold_byte i b \<longleftrightarrow> a = b" "128 \<le> uint b \<Longrightarrow> fold_byte i b = b"
proof -
  assume h: "128 \<le> uint b"
  have "fold_char i (uint b) = uint b" using h by (simp add: fold_char_def)
  moreover have "fold_char i (uint a) = uint b \<longleftrightarrow> uint a = uint b" using h by (auto simp: fold_char_def)
  ultimately show "fold_byte i a = fold_byte i b \<longleftrightarrow> a = b" unfolding fold_byte_eq by (simp only: word_uint_eq_iff [of a b])
next
  assume "128 \<le> uint b"
  then have "uint (fold_byte i b) = uint b" unfolding uint_fold by (simp add: fold_char_def)
  then show "fold_byte i b = b" by (simp only: word_uint_eq_iff)
qed

lemma cat_utf8_0: "list_all valid ss \<Longrightarrow> cat (utf8 ss) 0 = 0 \<longleftrightarrow> ss = []"
proof (cases ss)
  case (Cons t ts)
  assume "list_all valid ss"
  then have "cat (utf8 (t # ts)) 0 \<noteq> 0" by (intro utf8_head(1)) (simp_all add: Cons valid_def)
  then show ?thesis by (simp only: Cons) simp
qed simp

lemma loop_end: "pattern_loop i esc prev [] s \<longleftrightarrow> cat s 0 = 0"
  by (simp add: pattern_loop.simps)

lemma cont_run:
  assumes ok: "like_ok i esc" and bs: "\<And>x. x \<in> set bs \<Longrightarrow> cont x"
  shows "pattern_loop i esc False (bs @ p) s \<longleftrightarrow> take (length bs) s = bs \<and> pattern_loop i esc False p (drop (length bs) s)"
  using bs
proof (induction bs arbitrary: s)
  case (Cons b bs)
  have b: "cont b" "128 \<le> uint b" using Cons.prems [of b] by (auto simp: cont_def)
  have hi: "uint m < 128 \<Longrightarrow> b \<noteq> m" for m using b(2) by fastforce
  have ne: "b \<noteq> 0" "b \<noteq> matchAll i" "b \<noteq> matchOne i" "b \<noteq> matchSet i"
    by (rule hi, simp add: like_okD [OF ok])+
  have rd: "sqlite3ReadUtf8 (b # bs @ p) \<noteq> esc" using read_cont [OF b(1)] like_okD(6) [OF ok] by simp
  have "pattern_loop i esc False (b # bs @ p) s \<longleftrightarrow> b = cat s 0 \<and> pattern_loop i esc False (bs @ p) (tl s)"
    using ne rd fold_high(1) [OF b(2), of i "cat s 0"] by (subst pattern_loop.simps) (auto simp: Let_def)
  also have "\<dots> \<longleftrightarrow> take (length (b # bs)) s = b # bs \<and> pattern_loop i esc False p (drop (length (b # bs)) s)"
    using Cons.IH [of "tl s"] Cons.prems ne(1) by (cases s) auto
  finally show ?case by simp
qed simp

lemma lit_chars:
  assumes "code_point t" "code_point d" "WRITE_UTF8 d = b # bs" "WRITE_UTF8 t = e # es"
  shows "fold_byte i e = fold_byte i b \<and> take (length bs) (es @ z) = bs \<longleftrightarrow> fold_char i t = fold_char i d"
    "fold_char i t = fold_char i d \<Longrightarrow> length es = length bs"
proof -
  obtain b' bs' where w: "WRITE_UTF8 d = b' # bs'" "d < 128 \<longleftrightarrow> bs' = []" "d < 128 \<longleftrightarrow> b' < 128" "d < 128 \<Longrightarrow> uint b' = d"
    "length bs' = xtra_utf8_bytes ! unat b'" by (rule write_form [OF assms(2)]) blast
  obtain e' es' where v: "WRITE_UTF8 t = e' # es'" "t < 128 \<longleftrightarrow> es' = []" "t < 128 \<longleftrightarrow> e' < 128" "t < 128 \<Longrightarrow> uint e' = t"
    "length es' = xtra_utf8_bytes ! unat e'" by (rule write_form [OF assms(1)]) blast
  have [simp]: "b' = b" "bs' = bs" "e' = e" "es' = es" using assms w(1) v(1) by simp_all
  have lt: "x < 128 \<longleftrightarrow> uint x < 128" for x :: u8 by (simp add: word_less_def)
  have hi: "fold_char i x = x" if "128 \<le> x" for x using that by (simp add: fold_char_def)
  have lo: "fold_char i x < 128 \<longleftrightarrow> x < 128" for x by (auto simp: fold_char_def)
  have "(fold_byte i e = fold_byte i b \<and> take (length bs) (es @ z) = bs \<longleftrightarrow> fold_char i t = fold_char i d) \<and>
      (fold_char i t = fold_char i d \<longrightarrow> length es = length bs)"
  proof (cases "d < 128")
    case True
    then show ?thesis
    proof (cases "t < 128")
      case True
      then show ?thesis using \<open>d < 128\<close> w v by (simp add: fold_byte_eq)
    next
      case False
      then have "\<not> fold_char i (uint e) < 128" "fold_char i (uint b) < 128" "\<not> fold_char i t < 128" "fold_char i d < 128"
        using \<open>d < 128\<close> w v by (simp_all add: lo lt)
      then show ?thesis unfolding fold_byte_eq by (metis)
    qed
  next
    case False
    then have b: "128 \<le> uint b" using w(3) lt by simp
    have "e = b \<and> take (length bs) (es @ z) = bs \<longleftrightarrow> t = d"
    proof
      assume a: "e = b \<and> take (length bs) (es @ z) = bs"
      then have "length es = length bs" using w(5) v(5) by simp
      then have "WRITE_UTF8 t = WRITE_UTF8 d" using a assms(3,4) by simp
      then show "t = d" by (rule write_inj [OF assms(1,2)])
    qed (use assms(3,4) in auto)
    moreover have "fold_char i t = fold_char i d \<longleftrightarrow> t = d"
    proof (cases "t < 128")
      case True
      then have "fold_char i t < 128" "\<not> fold_char i d < 128" using False by (simp_all add: lo)
      then show ?thesis using True False by metis
    qed (use False in \<open>simp add: hi\<close>)
    moreover have "t = d \<Longrightarrow> length es = length bs" using assms(3,4) by simp
    ultimately show ?thesis using fold_high(1) [OF b, of i e] by blast
  qed
  then show "fold_byte i e = fold_byte i b \<and> take (length bs) (es @ z) = bs \<longleftrightarrow> fold_char i t = fold_char i d"
    "fold_char i t = fold_char i d \<Longrightarrow> length es = length bs" by blast+
qed

text \<open>The character \<open>d\<close> of the pattern is a literal, by itself or behind the escape character.\<close>

lemma lit_step:
  assumes ok: "like_ok i esc" and v: "valid d" "list_all valid cs" "list_all valid ss"
    and lit: "prev \<or> d \<noteq> uint (matchAll i) \<and> d \<noteq> uint (matchOne i) \<and> (esc = 0 \<or> d \<noteq> esc)" "d \<noteq> uint (matchSet i)"
  shows "pattern_loop i esc prev (utf8 (d # cs)) (utf8 ss) \<longleftrightarrow>
    (case ss of [] \<Rightarrow> False | t # ts \<Rightarrow> fold_char i t = fold_char i d \<and> pattern_loop i esc False (utf8 cs) (utf8 ts))"
proof -
  have d: "code_point d" "d \<noteq> 0" using v(1) by (simp_all add: valid_def)
  obtain b bs where b: "WRITE_UTF8 d = b # bs" "\<And>x. x \<in> set bs \<Longrightarrow> cont x" by (rule write_form [OF d(1)]) blast
  note m = like_okD [OF ok]
  have c: "b \<noteq> 0" "b = matchAll i \<longleftrightarrow> d = uint (matchAll i)" "b = matchOne i \<longleftrightarrow> d = uint (matchOne i)" "b = matchSet i \<longleftrightarrow> d = uint (matchSet i)"
    using utf8_head(1) [OF d, of cs] utf8_head(2) [OF d, of _ cs] m(1-3) by (simp_all add: b(1))
  have rd: "sqlite3ReadUtf8 (b # bs @ utf8 cs) = d" using read_utf8 [OF d(1), of cs] by (simp add: b(1))
  have u: "utf8 (d # cs) = b # bs @ utf8 cs" by (simp add: b(1))
  have "pattern_loop i esc prev (utf8 (d # cs)) (utf8 ss) \<longleftrightarrow> fold_byte i b = fold_byte i (cat (utf8 ss) 0) \<and> pattern_loop i esc False (bs @ utf8 cs) (tl (utf8 ss))"
    unfolding u using c lit rd by (subst pattern_loop.simps) (auto simp: Let_def)
  also have "\<dots> \<longleftrightarrow> (case ss of [] \<Rightarrow> False | t # ts \<Rightarrow> fold_char i t = fold_char i d \<and> pattern_loop i esc False (utf8 cs) (utf8 ts))"
  proof (cases ss)
    case Nil
    then show ?thesis using c(1) fold_zero [of i b] fold_zero [of i 0] by simp
  next
    case (Cons t ts)
    then have t: "code_point t" using v(3) by (simp add: valid_def)
    obtain e es where e: "WRITE_UTF8 t = e # es" by (rule write_form [OF t]) blast
    show ?thesis
      using cont_run [OF ok b(2), where p = "utf8 cs" and s = "es @ utf8 ts"]
        lit_chars(1) [OF t d(1) b(1) e, of i "utf8 ts"] lit_chars(2) [OF t d(1) b(1) e, of i]
      by (auto simp: Cons e)
  qed
  finally show ?thesis .
qed

subsection \<open>Wildcards\<close>

lemma next_valid: "list_all valid (t # ts) \<Longrightarrow> sqliteNextChar (utf8 (t # ts)) = utf8 ts"
  by (rule next_utf8) (auto simp: valid_def list_all_iff)

fun skip_wild :: "compareInfo \<Rightarrow> int list \<Rightarrow> int list \<Rightarrow> (int list \<times> int list) option" where
  "skip_wild i [] s = Some ([], s)"
| "skip_wild i (c # p) s =
     (if c = uint (matchAll i) then skip_wild i p s
      else if c = uint (matchOne i) then (case s of [] \<Rightarrow> None | _ # s \<Rightarrow> skip_wild i p s)
      else Some (c # p, s))"

lemma skip_wild_form:
  "skip_wild i cs ss = Some (cs', ss') \<Longrightarrow> length cs' \<le> length cs \<and> set cs' \<subseteq> set cs \<and> set ss' \<subseteq> set ss \<and>
     (cs' = [] \<or> hd cs' \<noteq> uint (matchAll i) \<and> hd cs' \<noteq> uint (matchOne i))"
proof (induction i cs ss rule: skip_wild.induct)
  case (2 i c p s)
  show ?case
  proof (cases "c = uint (matchAll i)")
    case True
    then show ?thesis using 2(1) [OF True] 2(3) by auto
  next
    case a: False
    show ?thesis
    proof (cases "c = uint (matchOne i)")
      case True
      then obtain t ts where s: "s = t # ts" using 2(3) a by (cases s) auto
      then show ?thesis using 2(2) [OF a True s] 2(3) a True by auto
    next
      case False
      then show ?thesis using 2(3) a by auto
    qed
  qed
qed auto

lemma star_skip_utf8:
  assumes "like_ok i esc" "list_all valid cs" "list_all valid ss"
  shows "star_skip i (utf8 cs) (utf8 ss) = map_option (\<lambda>(p, s). (utf8 p, utf8 s)) (skip_wild i cs ss)"
  using assms(2,3)
proof (induction cs arbitrary: ss)
  case (Cons c cs)
  have c: "code_point c" "c \<noteq> 0" using Cons.prems by (simp_all add: valid_def)
  note m = like_okD [OF assms(1)]
  obtain b bs where b: "WRITE_UTF8 c = b # bs" "c < 128 \<longleftrightarrow> bs = []" by (rule write_form [OF c(1)]) blast
  have bm: "b = matchAll i \<longleftrightarrow> c = uint (matchAll i)" "b = matchOne i \<longleftrightarrow> c = uint (matchOne i)"
    using utf8_head(2) [OF c, of _ cs] m(1,2) by (simp_all add: b(1))
  show ?case
  proof (cases "c = uint (matchAll i) \<or> c = uint (matchOne i)")
    case True
    then have bs: "bs = []" using m b(2) by auto
    show ?thesis
    proof (cases "c = uint (matchAll i)")
      case True
      then have "star_skip i (utf8 (c # cs)) (utf8 ss) = star_skip i (utf8 cs) (utf8 ss)" using b(1) bs bm m(9) by simp
      then show ?thesis using True Cons.IH Cons.prems by simp
    next
      case False
      then have c1: "c = uint (matchOne i)" "b = matchOne i" "b \<noteq> matchAll i" using True bm by auto
      show ?thesis
      proof (cases ss)
        case Nil
        then show ?thesis using c1 b(1) bs False by simp
      next
        case (Cons t ts)
        have "cat (utf8 (t # ts)) 0 \<noteq> 0" by (rule utf8_head(1)) (use Cons.prems Cons in \<open>simp_all add: valid_def\<close>)
        then have "star_skip i (utf8 (c # cs)) (utf8 ss) = star_skip i (utf8 cs) (sqliteNextChar (utf8 (t # ts)))"
          using c1 b(1) bs unfolding Cons by simp
        also have "sqliteNextChar (utf8 (t # ts)) = utf8 ts" by (rule next_valid) (use Cons.prems Cons in simp)
        finally show ?thesis using Cons.IH [of ts] Cons.prems False c1 by (simp add: Cons)
      qed
    qed
  next
    case False
    then show ?thesis using b(1) bm by simp
  qed
qed simp

lemma ex_suffix: "(\<exists>k\<le>length (t # ts). P (drop k (t # ts))) \<longleftrightarrow> P (t # ts) \<or> (\<exists>k\<le>length ts. P (drop k ts))"
proof
  assume "\<exists>k\<le>length (t # ts). P (drop k (t # ts))"
  then obtain k where k: "k \<le> length (t # ts)" "P (drop k (t # ts))" by blast
  then show "P (t # ts) \<or> (\<exists>k\<le>length ts. P (drop k ts))" by (cases k) auto
next
  assume "P (t # ts) \<or> (\<exists>k\<le>length ts. P (drop k ts))"
  then show "\<exists>k\<le>length (t # ts). P (drop k (t # ts))"
  proof
    assume "P (t # ts)"
    then show ?thesis by (intro exI [of _ 0]) simp
  next
    assume "\<exists>k\<le>length ts. P (drop k ts)"
    then obtain k where "k \<le> length ts" "P (drop k ts)" by blast
    then show ?thesis by (intro exI [of _ "Suc k"]) simp
  qed
qed

lemma tmatch_any_Nil: "tmatch (Any # ts) [] \<longleftrightarrow> tmatch ts []"
  by simp

lemma tmatch_any_Cons: "tmatch (Any # ts) (t # s) \<longleftrightarrow> tmatch ts (t # s) \<or> tmatch (Any # ts) s"
  unfolding tmatch.simps(2) ex_suffix ..

declare tmatch.simps(2) [simp del]

lemma tmatch_any_any: "tmatch (Any # Any # ts) s \<longleftrightarrow> tmatch (Any # ts) s"
  by (induction s) (auto simp: tmatch_any_Nil tmatch_any_Cons)

lemma tmatch_any_one: "tmatch (Any # Chr (\<lambda>_. True) # ts) s \<longleftrightarrow> (case s of [] \<Rightarrow> False | _ # s \<Rightarrow> tmatch (Any # ts) s)"
proof (induction s)
  case (Cons t s)
  then show ?case by (cases s) (auto simp: tmatch_any_Nil tmatch_any_Cons)
qed (simp add: tmatch_any_Nil)

lemma tmatch_skip:
  "tmatch (Any # parse_pattern i esc cs) ss \<longleftrightarrow> (case skip_wild i cs ss of None \<Rightarrow> False | Some (p, s) \<Rightarrow> tmatch (Any # parse_pattern i esc p) s)"
proof (induction i cs ss rule: skip_wild.induct)
  case (2 i c p s)
  show ?case
  proof (cases "c = uint (matchAll i)")
    case True
    then show ?thesis using 2(1) [OF True] tmatch_any_any by (simp del: tmatch.simps)
  next
    case a: False
    show ?thesis
    proof (cases "c = uint (matchOne i)")
      case True
      show ?thesis
      proof (cases s)
        case Nil
        then show ?thesis using True a tmatch_any_one [of _ "[]"] by (simp del: tmatch.simps)
      next
        case (Cons t ts)
        then show ?thesis using 2(2) [OF a True Cons] True a tmatch_any_one [of _ "t # ts"] by (simp del: tmatch.simps)
      qed
    qed (use a in simp)
  qed
qed simp

subsection \<open>The loops behind a wildcard\<close>

lemma star_set_spec:
  assumes "\<not> pattern_loop i esc False p []" "list_all valid ss"
  shows "star_set i esc p (utf8 ss) \<longleftrightarrow> (\<exists>k\<le>length ss. pattern_loop i esc False p (utf8 (drop k ss)))"
  using assms(2)
proof (induction ss)
  case Nil
  then show ?case using assms(1) by (subst star_set.simps) simp
next
  case (Cons t ts)
  have t: "cat (utf8 (t # ts)) 0 \<noteq> 0" by (rule utf8_head(1)) (use Cons.prems in \<open>simp_all add: valid_def\<close>)
  show ?case
    unfolding ex_suffix [of t ts "\<lambda>x. pattern_loop i esc False p (utf8 x)"]
    using Cons.IH Cons.prems t next_valid [OF Cons.prems] by (subst star_set.simps) (simp del: concat.simps list.map)
qed

lemma scan_utf8:
  assumes "\<not> cont c'" "list_all valid (t # ts)"
  shows "scan_to i c' (utf8 (t # ts)) = (if fold_byte i (cat (utf8 (t # ts)) 0) = c' then utf8 (t # ts) else scan_to i c' (utf8 ts))"
proof -
  have t: "code_point t" "t \<noteq> 0" using assms(2) by (simp_all add: valid_def)
  obtain e es where e: "WRITE_UTF8 t = e # es" "\<And>x. x \<in> set es \<Longrightarrow> cont x" by (rule write_form [OF t(1)]) blast
  have e0: "e \<noteq> 0" using utf8_head(1) [OF t, of ts] by (simp add: e(1))
  have "x \<noteq> 0 \<and> fold_byte i x \<noteq> c'" if "x \<in> set es" for x
  proof -
    have x: "cont x" "128 \<le> uint x" using e(2) [OF that] by (auto simp: cont_def)
    then show ?thesis using fold_high(2) [OF x(2), of i] assms(1) by auto
  qed
  then have "scan_to i c' (es @ utf8 ts) = scan_to i c' (utf8 ts)" unfolding scan_to_def by (intro dropWhile_append2) auto
  then show ?thesis using e0 by (simp add: e(1) scan_to_def)
qed

lemma star_lit_spec:
  assumes c: "\<not> cont c'" "c' \<noteq> 0"
    and H: "\<And>ss. list_all valid ss \<Longrightarrow> pattern_loop i esc False p (utf8 ss) \<Longrightarrow> ss \<noteq> [] \<and> fold_byte i (cat (utf8 ss) 0) = c'"
    and "fold_byte i c = c'" "list_all valid ss"
  shows "star_lit i esc c p (utf8 ss) \<longleftrightarrow> (\<exists>k\<le>length ss. pattern_loop i esc False p (utf8 (drop k ss)))"
  using assms(4,5)
proof (induction ss arbitrary: c)
  case Nil
  then show ?case using H [of "[]"] by (subst star_lit.simps) auto
next
  case (Cons t ts)
  have t: "cat (utf8 (t # ts)) 0 \<noteq> 0" by (rule utf8_head(1)) (use Cons.prems in \<open>simp_all add: valid_def\<close>)
  have v: "list_all valid ts" using Cons.prems by simp
  note sc = scan_utf8 [OF c(1) Cons.prems(2), of i]
  have step: "star_lit i esc c p (utf8 (t # ts)) \<longleftrightarrow> pattern_loop i esc False p (utf8 (t # ts)) \<or> star_lit i esc c' p (utf8 ts)"
  proof (cases "fold_byte i (cat (utf8 (t # ts)) 0) = c'")
    case True
    then show ?thesis
      using t sc next_valid [OF Cons.prems(2)] Cons.prems(1) by (subst star_lit.simps) (simp add: Let_def del: concat.simps list.map)
  next
    case False
    then have n: "\<not> pattern_loop i esc False p (utf8 (t # ts))" using H [OF Cons.prems(2)] by blast
    have f: "fold_byte i c' = c'" using Cons.prems(1) by auto
    have e: "cat (scan_to i c' z) 0 = 0" if "cat z 0 = 0" for z using that by (cases z) (auto simp: scan_to_def)
    have "star_lit i esc c p (utf8 (t # ts)) \<longleftrightarrow> star_lit i esc c' p (utf8 ts)"
      using t sc False Cons.prems(1) f e [of "utf8 ts"]
      by (subst (1 2) star_lit.simps) (simp add: Let_def del: concat.simps list.map)
    then show ?thesis using n by blast
  qed
  have "fold_byte i c' = c'" using Cons.prems(1) by auto
  then show ?case
    unfolding step ex_suffix [of t ts "\<lambda>x. pattern_loop i esc False p (utf8 x)"] using Cons.IH [OF _ v] by blast
qed

lemma lead_not_cont: "valid d \<Longrightarrow> \<not> cont (cat (utf8 (d # ds)) 0) \<and> cat (utf8 (d # ds)) 0 \<noteq> 0"
  using utf8_head(1) [of d ds] write_form [of d] unfolding valid_def by (metis append_Cons cat_Cons_0 concat.simps(2) list.map(2))

lemma fold_not_cont: "\<not> cont c \<Longrightarrow> \<not> cont (fold_byte i c)"
proof
  assume a: "\<not> cont c" "cont (fold_byte i c)"
  then have "128 \<le> uint (fold_byte i c)" by (simp add: cont_def)
  then have "fold_byte i c = c" using fold_high(1) [of "fold_byte i c" i c] by simp
  then show False using a by simp
qed

text \<open>A pattern that begins with a literal can only match where its first byte is.\<close>

lemma star_lit_utf8:
  assumes ok: "like_ok i esc" and v: "valid d" "list_all valid ss"
    and P: "\<And>ss. list_all valid ss \<Longrightarrow> pattern_loop i esc False p (utf8 ss) \<Longrightarrow>
      ss \<noteq> [] \<and> fold_char i (hd ss) = fold_char i d"
  shows "star_lit i esc (cat (utf8 (d # ds)) 0) p (utf8 ss) \<longleftrightarrow> (\<exists>k\<le>length ss. pattern_loop i esc False p (utf8 (drop k ss)))"
proof (rule star_lit_spec [OF _ _ _ refl v(2)])
  let ?c = "cat (utf8 (d # ds)) 0"
  show "\<not> cont (fold_byte i ?c)" using lead_not_cont [OF v(1)] fold_not_cont by blast
  show "fold_byte i ?c \<noteq> 0" using lead_not_cont [OF v(1)] fold_zero by blast
  fix ss assume s: "list_all valid ss" "pattern_loop i esc False p (utf8 ss)"
  from P [OF this] obtain t ts where t: "ss = t # ts" "fold_char i t = fold_char i d" by (cases ss) auto
  have cp: "code_point t" "code_point d" using s(1) v(1) t(1) by (simp_all add: valid_def)
  obtain b bs where b: "WRITE_UTF8 d = b # bs" by (rule write_form [OF cp(2)]) blast
  obtain e es where e: "WRITE_UTF8 t = e # es" by (rule write_form [OF cp(1)]) blast
  show "ss \<noteq> [] \<and> fold_byte i (cat (utf8 ss) 0) = fold_byte i ?c"
    using lit_chars(1) [OF cp b e, of i "[]"] t by (simp add: b e)
qed

subsection \<open>Patterns\<close>

lemma ends: "list_all valid ss \<Longrightarrow> pattern_loop i esc prev (utf8 []) (utf8 ss) \<longleftrightarrow> ss = []"
  using cat_utf8_0 by (simp add: loop_end)

lemma heads:
  assumes "like_ok i esc" "valid c"
  shows "cat (utf8 (c # cs)) 0 \<noteq> 0" "cat (utf8 (c # cs)) 0 = matchAll i \<longleftrightarrow> c = uint (matchAll i)"
    "cat (utf8 (c # cs)) 0 = matchOne i \<longleftrightarrow> c = uint (matchOne i)" "cat (utf8 (c # cs)) 0 = matchSet i \<longleftrightarrow> c = uint (matchSet i)"
    "sqlite3ReadUtf8 (utf8 (c # cs)) = c"
proof -
  have c: "code_point c" "c \<noteq> 0" using assms(2) by (simp_all add: valid_def)
  show "cat (utf8 (c # cs)) 0 \<noteq> 0" by (rule utf8_head(1) [OF c])
  show "cat (utf8 (c # cs)) 0 = matchAll i \<longleftrightarrow> c = uint (matchAll i)"
    "cat (utf8 (c # cs)) 0 = matchOne i \<longleftrightarrow> c = uint (matchOne i)" "cat (utf8 (c # cs)) 0 = matchSet i \<longleftrightarrow> c = uint (matchSet i)"
    by (rule utf8_head(2) [OF c], rule like_okD [OF assms(1)])+
  show "sqlite3ReadUtf8 (utf8 (c # cs)) = c" by (rule read_utf8 [OF c(1)])
qed

lemma tl_ascii: "0 < c \<Longrightarrow> c < 128 \<Longrightarrow> tl (utf8 (c # cs)) = utf8 cs"
  by (simp add: write_ascii)

lemma uint_pos: "m \<noteq> 0 \<Longrightarrow> 0 < uint (m :: u8)"
  by (metis uint_0_iff uint_ge_0 order_less_le)

text \<open>The escape character and the literal behind it.\<close>

lemma escaped:
  assumes ok: "like_ok i esc" and v: "valid esc" "list_all valid cs" "list_all valid ss"
    and e: "esc \<noteq> uint (matchAll i)" "esc \<noteq> uint (matchOne i)"
  shows "pattern_loop i esc False (utf8 (esc # cs)) (utf8 ss) \<longleftrightarrow>
    (case cs of [] \<Rightarrow> ss = [] | d # ds \<Rightarrow>
      (case ss of [] \<Rightarrow> False | t # ts \<Rightarrow> fold_char i t = fold_char i d \<and> pattern_loop i esc False (utf8 ds) (utf8 ts)))"
proof -
  have e0: "esc \<noteq> 0" using v(1) by (simp add: valid_def)
  then have m: "matchSet i = 0" by (rule like_okD(7) [OF ok])
  have "list_all valid (esc # cs)" using v by simp
  note nx = next_valid [OF this]
  have "pattern_loop i esc False (utf8 (esc # cs)) (utf8 ss) \<longleftrightarrow> pattern_loop i esc True (utf8 cs) (utf8 ss)"
    using heads [OF ok v(1), of cs] e e0 m nx by (subst pattern_loop.simps) (simp add: Let_def del: concat.simps list.map)
  also have "\<dots> \<longleftrightarrow> (case cs of [] \<Rightarrow> ss = [] | d # ds \<Rightarrow>
      (case ss of [] \<Rightarrow> False | t # ts \<Rightarrow> fold_char i t = fold_char i d \<and> pattern_loop i esc False (utf8 ds) (utf8 ts)))"
  proof (cases cs)
    case Nil
    then show ?thesis using ends [OF v(3)] by simp
  next
    case (Cons d ds)
    have d: "valid d" "list_all valid ds" "d \<noteq> uint (matchSet i)" using v(2) Cons m by (auto simp: valid_def)
    show ?thesis using lit_step [OF ok d(1,2) v(3), of True] d(3) by (simp add: Cons del: concat.simps list.map)
  qed
  finally show ?thesis .
qed

text \<open>The wildcard: what is behind it is found by one of the two loops.\<close>

lemma star_step:
  assumes ok: "like_ok i esc" and v: "list_all valid cs" "list_all valid ss"
    and IH: "\<And>cs' ss. length cs' \<le> length cs \<Longrightarrow> list_all valid cs' \<Longrightarrow> list_all valid ss \<Longrightarrow>
      pattern_loop i esc False (utf8 cs') (utf8 ss) \<longleftrightarrow> tmatch (parse_pattern i esc cs') ss"
  shows "pattern_loop i esc False (utf8 (uint (matchAll i) # cs)) (utf8 ss) \<longleftrightarrow> tmatch (Any # parse_pattern i esc cs) ss"
proof -
  define a where "a = uint (matchAll i)"
  have a: "valid a" "0 < a" "a < 128"
    using like_okD(1,4) [OF ok] uint_pos [of "matchAll i"] by (simp_all add: a_def valid_def code_point_def)
  note ha = heads [OF ok a(1), of cs]
  have sk: "star_skip i (tl (utf8 (a # cs))) (utf8 ss) = map_option (\<lambda>(p, s). (utf8 p, utf8 s)) (skip_wild i cs ss)"
    unfolding tl_ascii [OF a(2,3)] by (rule star_skip_utf8 [OF ok v])
  have "pattern_loop i esc False (utf8 (a # cs)) (utf8 ss) \<longleftrightarrow> tmatch (Any # parse_pattern i esc cs) ss"
  proof (cases "skip_wild i cs ss")
    case None
    then show "pattern_loop i esc False (utf8 (a # cs)) (utf8 ss) \<longleftrightarrow> tmatch (Any # parse_pattern i esc cs) ss"
      using ha sk by (subst tmatch_skip, subst pattern_loop.simps) (simp add: Let_def a_def del: concat.simps list.map)
  next
    case (Some x)
    then obtain p s where x: "skip_wild i cs ss = Some (p, s)" by (cases x) auto
    note f = skip_wild_form [OF x]
    have vp: "list_all valid p" "list_all valid s" using v f by (auto simp: list_all_iff)
    define c where "c = (if cat (utf8 p) 0 \<noteq> 0 \<and> esc \<noteq> 0 \<and> sqlite3ReadUtf8 (utf8 p) = esc then cat (sqliteNextChar (utf8 p)) 0 else cat (utf8 p) 0)"
    have st: "pattern_loop i esc False (utf8 (a # cs)) (utf8 ss) \<longleftrightarrow>
        (if c = 0 then True else if c = matchSet i then star_set i esc (utf8 p) (utf8 s) else star_lit i esc c (utf8 p) (utf8 s))"
      using ha sk x by (subst pattern_loop.simps) (simp add: Let_def a_def c_def del: concat.simps list.map)
    have sub: "(\<exists>k\<le>length s. pattern_loop i esc False (utf8 p) (utf8 (drop k s))) \<longleftrightarrow> tmatch (Any # parse_pattern i esc p) s"
    proof -
      have "pattern_loop i esc False (utf8 p) (utf8 (drop k s)) \<longleftrightarrow> tmatch (parse_pattern i esc p) (drop k s)" for k
        using f vp by (intro IH) (auto simp: list_all_iff dest: in_set_dropD)
      then show ?thesis by (simp add: tmatch.simps(2))
    qed
    have all: "tmatch [Any] s" by (auto simp: tmatch.simps(2) intro!: exI [of _ "length s"])
    have "(if c = 0 then True else if c = matchSet i then star_set i esc (utf8 p) (utf8 s) else star_lit i esc c (utf8 p) (utf8 s)) \<longleftrightarrow>
        tmatch (Any # parse_pattern i esc p) s"
    proof (cases p)
      case Nil
      then show ?thesis using all by (simp add: c_def)
    next
      case (Cons d ds)
      have d: "valid d" "list_all valid ds" and dm: "d \<noteq> uint (matchAll i)" "d \<noteq> uint (matchOne i)" using vp f by (simp_all add: Cons)
      note hd = heads [OF ok d(1), of ds]
      have p: "utf8 p = utf8 (d # ds)" by (simp add: Cons)
      show ?thesis
      proof (cases "esc \<noteq> 0 \<and> d = esc")
        case True
        then have m: "matchSet i = 0" using like_okD(7) [OF ok] by simp
        have ve: "list_all valid (d # ds)" using d by simp
        have c: "c = cat (utf8 ds) 0" unfolding c_def p using True hd next_valid [OF ve] by (simp del: concat.simps list.map)
        have pp: "d \<noteq> uint (matchSet i)" using m d(1) by (simp add: valid_def)
        show ?thesis
        proof (cases ds)
          case Nil
          then show ?thesis using all c True dm pp by (simp add: Cons)
        next
          case (Cons e es)
          have e: "valid e" "list_all valid es" using d(2) by (simp_all add: Cons)
          have c': "c = cat (utf8 (e # es)) 0" "c \<noteq> 0" using c heads(1) [OF ok e(1), of es] by (simp_all add: Cons del: concat.simps list.map)
          have pe: "utf8 p = utf8 (esc # ds)" using p True by simp
          have "star_lit i esc (cat (utf8 (e # es)) 0) (utf8 p) (utf8 s) \<longleftrightarrow> (\<exists>k\<le>length s. pattern_loop i esc False (utf8 p) (utf8 (drop k s)))"
          proof (rule star_lit_utf8 [OF ok e(1) vp(2)])
            fix ss assume s: "list_all valid ss" "pattern_loop i esc False (utf8 p) (utf8 ss)"
            then show "ss \<noteq> [] \<and> fold_char i (hd ss) = fold_char i e"
              using escaped [OF ok _ d(2) s(1)] True d(1) dm unfolding pe by (auto simp: Cons split: list.splits simp del: concat.simps list.map)
          qed
          then show ?thesis using c' m sub by (simp del: concat.simps list.map)
        qed
      next
        case False
        then have c: "c = cat (utf8 (d # ds)) 0" "c \<noteq> 0" unfolding c_def p using hd by (auto simp del: concat.simps list.map)
        show ?thesis
        proof (cases "d = uint (matchSet i)")
          case True
          then have "matchSet i \<noteq> 0" using d(1) by (auto simp: valid_def)
          then have m: "matchSet i = 91" "esc = 0" using like_okD(7,8) [OF ok] by auto
          then have d91: "d = 91" using True by simp
          have "\<not> pattern_loop i esc False (utf8 (d # ds)) []"
            using hd dm True set_match_spec [OF d(2), of "[]"] unfolding d91
            by (subst pattern_loop.simps) (simp add: Let_def del: concat.simps(2) list.map(2))
          then have "star_set i esc (utf8 p) (utf8 s) \<longleftrightarrow> (\<exists>k\<le>length s. pattern_loop i esc False (utf8 p) (utf8 (drop k s)))"
            unfolding p by (rule star_set_spec [OF _ vp(2)])
          then show ?thesis using c sub hd(4) True by (simp del: concat.simps list.map)
        next
          case ns: False
          have "star_lit i esc (cat (utf8 (d # ds)) 0) (utf8 p) (utf8 s) \<longleftrightarrow> (\<exists>k\<le>length s. pattern_loop i esc False (utf8 p) (utf8 (drop k s)))"
          proof (rule star_lit_utf8 [OF ok d(1) vp(2)])
            fix ss assume s: "list_all valid ss" "pattern_loop i esc False (utf8 p) (utf8 ss)"
            then show "ss \<noteq> [] \<and> fold_char i (hd ss) = fold_char i d"
              using lit_step [OF ok d(1,2) s(1), of False] dm False ns unfolding p by (auto split: list.splits simp del: concat.simps list.map)
          qed
          then show ?thesis using c sub hd(4) ns by (simp del: concat.simps list.map)
        qed
      qed
    qed
    then show "pattern_loop i esc False (utf8 (a # cs)) (utf8 ss) \<longleftrightarrow> tmatch (Any # parse_pattern i esc cs) ss"
      unfolding st by (subst tmatch_skip) (simp only: x option.case prod.case)
  qed
  then show ?thesis by (simp only: a_def)
qed

lemma pattern_spec:
  assumes ok: "like_ok i esc" and "list_all valid cs" "list_all valid ss"
  shows "pattern_loop i esc False (utf8 cs) (utf8 ss) \<longleftrightarrow> tmatch (parse_pattern i esc cs) ss"
  using assms(2,3)
proof (induction "length cs" arbitrary: cs ss rule: less_induct)
  case less
  show ?case
  proof (cases cs)
    case Nil
    then show ?thesis using ends [OF less.prems(2)] by simp
  next
    case (Cons c p)
    have c: "valid c" "list_all valid p" using less.prems(1) by (simp_all add: Cons)
    have IH: "pattern_loop i esc False (utf8 cs') (utf8 ss) \<longleftrightarrow> tmatch (parse_pattern i esc cs') ss"
      if "length cs' \<le> length p" "list_all valid cs'" "list_all valid ss" for cs' ss
      using less.hyps [of cs' ss] that Cons by simp
    note hd = heads [OF ok c(1), of p]
    have vs: "list_all valid (t # ts) \<Longrightarrow> cat (utf8 (t # ts)) 0 \<noteq> 0 \<and> sqliteNextChar (utf8 (t # ts)) = utf8 ts" for t ts
      using next_valid heads(1) [OF ok, of t ts] by simp
    consider "c = uint (matchAll i)" | "c \<noteq> uint (matchAll i)" "c = uint (matchOne i)"
      | "c \<noteq> uint (matchAll i)" "c \<noteq> uint (matchOne i)" "c = uint (matchSet i)"
      | "c \<noteq> uint (matchAll i)" "c \<noteq> uint (matchOne i)" "c \<noteq> uint (matchSet i)" "esc \<noteq> 0" "c = esc"
      | "c \<noteq> uint (matchAll i)" "c \<noteq> uint (matchOne i)" "c \<noteq> uint (matchSet i)" "esc = 0 \<or> c \<noteq> esc" by blast
    then show ?thesis
    proof cases
      case 1
      then show ?thesis using star_step [OF ok c(2) less.prems(2) IH] by (simp add: Cons del: concat.simps list.map)
    next
      case 2
      then have "tl (utf8 (c # p)) = utf8 p" using like_okD(2,5) [OF ok] uint_pos by (intro tl_ascii) auto
      then have "pattern_loop i esc False (utf8 (c # p)) (utf8 ss) \<longleftrightarrow> (if cat (utf8 ss) 0 = 0 then False else pattern_loop i esc False (utf8 p) (sqliteNextChar (utf8 ss)))"
        using 2 hd by (subst pattern_loop.simps) (simp add: Let_def del: concat.simps list.map)
      then show ?thesis using IH [OF _ c(2)] vs less.prems(2) 2
        by (cases ss) (simp_all add: Cons del: concat.simps(2) list.map(2))
    next
      case 3
      then have "matchSet i \<noteq> 0" using c(1) by (auto simp: valid_def)
      then have m: "c = 91" using like_okD(8) [OF ok] 3 by simp
      have "pattern_loop i esc False (utf8 (c # p)) (utf8 ss) \<longleftrightarrow>
          (case set_match (utf8 (c # p)) (utf8 ss) of None \<Rightarrow> False | Some p \<Rightarrow> pattern_loop i esc False p (sqliteNextChar (utf8 ss)))"
        using 3 hd by (subst pattern_loop.simps) (simp add: Let_def del: concat.simps list.map)
      also have "set_match (utf8 (c # p)) (utf8 ss) =
          (case ss of [] \<Rightarrow> None | t # _ \<Rightarrow> (case parse_set p of None \<Rightarrow> None | Some (pr, r) \<Rightarrow> if pr t then Some (utf8 r) else None))"
        unfolding m by (rule set_match_spec [OF c(2) less.prems(2)])
      finally have eq: "pattern_loop i esc False (utf8 (c # p)) (utf8 ss) \<longleftrightarrow> (case ss of [] \<Rightarrow> False | t # ts \<Rightarrow>
          (case parse_set p of None \<Rightarrow> False | Some (pr, r) \<Rightarrow> pr t \<and> pattern_loop i esc False (utf8 r) (utf8 ts)))"
        using vs less.prems(2) by (auto split: list.splits option.splits simp del: concat.simps list.map)
      show ?thesis
      proof (cases "parse_set p")
        case None
        then show ?thesis using eq 3 by (simp add: Cons split: list.splits del: concat.simps list.map)
      next
        case (Some x)
        then obtain pr r where x: "parse_set p = Some (pr, r)" by (cases x) auto
        have r: "length r \<le> length p" "list_all valid r" using parse_set_length [OF x] c(2) by (auto simp: list_all_iff)
        show ?thesis using eq 3 x IH [OF r] less.prems(2) by (cases ss) (simp_all add: Cons del: concat.simps list.map)
      qed
    next
      case 4
      then show ?thesis
        using escaped [OF ok _ c(2) less.prems(2)] IH c less.prems(2)
        by (auto simp: Cons split: list.splits simp del: concat.simps list.map)
    next
      case 5
      then have "parse_pattern i esc (c # p) = Chr (\<lambda>x. fold_char i x = fold_char i c) # parse_pattern i esc p" by auto
      then show ?thesis
        using 5 lit_step [OF ok c less.prems(2), of False] IH [OF _ c(2)] less.prems(2)
        by (cases ss) (simp_all add: Cons del: concat.simps list.map)
    qed
  qed
qed

subsection \<open>The functions\<close>

lemma patternCompare_spec:
  "like_ok i esc \<Longrightarrow> list_all valid cs \<Longrightarrow> list_all valid ss \<Longrightarrow>
     patternCompare i esc (utf8 cs) (utf8 ss) \<longleftrightarrow> tmatch (parse_pattern i esc cs) ss"
  unfolding patternCompare_def by (rule pattern_spec)

lemma charlen_utf8: "list_all valid es \<Longrightarrow> sqlite3utf8CharLen (utf8 es) (- 1) = Some (length es)"
  using CharLen_concat [of es "[]" 0] by (simp add: sqlite3utf8CharLen_def valid_def list_all_iff)

text \<open>An escape text that is not a single character is an error, whatever the other texts are.\<close>

lemma like_escape_error:
  "list_all valid es \<Longrightarrow> length es \<noteq> 1 \<Longrightarrow> likeFunc i zA zB (Some (Some (utf8 es))) = Some LikeError"
  by (simp add: likeFunc_def charlen_utf8)

lemma like_null: "likeFunc i None zB None = Some LikeNull" "likeFunc i zA None None = Some LikeNull"
  by (simp_all add: likeFunc_def split: option.split)

text \<open>An escape argument that is NULL is read through a null pointer.\<close>

lemma like_null_escape: "likeFunc i zA zB (Some None) = None"
  by (simp add: likeFunc_def)

text \<open>
  With the escape character U+FFFD the bytes behind the first byte of a character are read as that
  character, and are skipped in the pattern: a text does not even match itself.
\<close>

lemma like_escape_replacement_character:
  "patternCompare likeInfoNorm 0xFFFD [0xE2, 0x82, 0xAC] [0xE2, 0x82, 0xAC] = False"
  "patternCompare likeInfoNorm 0 [0xE2, 0x82, 0xAC] [0xE2, 0x82, 0xAC] = True"
  by code_simp+



end
