(* ===== verification/Spec2Isabelle.thy ===== *)
theory Spec2Isabelle
  imports Varint Fifo UnixLockLive Str HashMap Complete Printf MemInv RecordFormat BtPageInv LikeSpec
begin

text \<open>
  A verification library for SQLite 3.3.4, the program of this repository
  (\<^verbatim>\<open>The_Definitive_Guide_to_SQLITE/ch01/examples/common/sqlite-source-3_3_4\<close>; file names below are
  relative to it).

  \<^bold>\<open>The program.\<close> A statement goes down a stack of layers. The tokenizer (\<^verbatim>\<open>tokenize.c\<close>) feeds the
  parser; the code generator turns the parse into a program for the virtual machine (\<^verbatim>\<open>vdbe.c\<close>),
  whose registers are value cells (\<^verbatim>\<open>vdbemem.c\<close>); rows and index keys are packed into records
  (\<^verbatim>\<open>vdbeaux.c\<close>), which the b-tree (\<^verbatim>\<open>btree.c\<close>) stores as cells on pages; the pager asks the operating
  system layer (\<^verbatim>\<open>os_unix.c\<close>) for file locks. Helpers are shared by all layers: integers of variable
  length and strings (\<^verbatim>\<open>util.c\<close>), text encodings (\<^verbatim>\<open>utf.c\<close>), SQL functions (\<^verbatim>\<open>func.c\<close>), the formatter (\<^verbatim>\<open>printf.c\<close>) and the
  hash table (\<^verbatim>\<open>hash.c\<close>).

  \<^bold>\<open>How it is modelled.\<close> C integers are words of their width, or \<open>int\<close> and \<open>nat\<close> where the code cannot
  wrap. Memory that a function only reads is a total function from offsets to bytes (\<open>mem\<close>), a
  NUL-terminated string is the list of its bytes read with \<open>cat\<close> (\<^verbatim>\<open>Prelude\<close>). Linked structures live in
  explicit heaps. Whether an allocation or a system call succeeds is an argument of the operation or a
  label of the step. A failed assertion, a dangling pointer or a read outside an object is the result
  \<open>None\<close> where the code could come to it.

  \<^bold>\<open>The theories.\<close>
  \<^item> \<^verbatim>\<open>Prelude\<close>: types, result codes, byte memory, lemmas on words and lists.
  \<^item> \<^verbatim>\<open>Varint\<close>: \<^verbatim>\<open>sqlite3PutVarint\<close>, \<^verbatim>\<open>sqlite3GetVarint\<close>, \<^verbatim>\<open>sqlite3GetVarint32\<close>, \<^verbatim>\<open>sqlite3VarintLen\<close> of
    \<^verbatim>\<open>util.c\<close>: round trip, exact length, bytes read.
  \<^item> \<^verbatim>\<open>Str\<close>: comparison without case, dequoting, recognition of numbers against a grammar, \<^verbatim>\<open>atoi64\<close> with
    its overflow check, hexadecimal blobs (\<^verbatim>\<open>util.c\<close>).
  \<^item> \<^verbatim>\<open>Fifo\<close>: the rowid queue of \<^verbatim>\<open>vdbefifo.c\<close> refines a list; locale \<open>fifo_queue\<close>.
  \<^item> \<^verbatim>\<open>Hash\<close>, \<^verbatim>\<open>HashMap\<close>: \<^verbatim>\<open>hash.c\<close> on a heap of doubly linked elements refines a finite map; the locale
    \<open>key_class\<close> is the contract of a class of keys and is interpreted for string and for binary keys.
  \<^item> \<^verbatim>\<open>UnixLock\<close>, \<^verbatim>\<open>UnixLockInv\<close>, \<^verbatim>\<open>UnixLockRun\<close>, \<^verbatim>\<open>UnixLockLive\<close>: the locks of \<^verbatim>\<open>os_unix.c\<close> for any number of processes over
    byte-level POSIX locks, as a step relation; the invariant of every reachable state; what the levels
    promise, and that a waiting writer gets its lock; the locale \<open>exclusive_locks\<close>.
  \<^item> \<^verbatim>\<open>Token\<close>, \<^verbatim>\<open>Complete\<close>: \<^verbatim>\<open>tokenize.c\<close>, the generated keyword hash, the loop of \<^verbatim>\<open>sqlite3RunParser\<close> (the
    parser itself is a parameter), and \<^verbatim>\<open>sqlite3_complete\<close> against the tokenizer.
  \<^item> \<^verbatim>\<open>Utf\<close>: the reader and writer macros and the translations of \<^verbatim>\<open>utf.c\<close>.
  \<^item> \<^verbatim>\<open>Like\<close>, \<^verbatim>\<open>LikeSpec\<close>: the operators \<^verbatim>\<open>LIKE\<close> and \<^verbatim>\<open>GLOB\<close> of \<^verbatim>\<open>func.c\<close> on bytes against the matching of
    characters by the tokens of a pattern.
  \<^item> \<^verbatim>\<open>Printf\<close>: the formatter and its consumers; what \<^verbatim>\<open>%q\<close> and \<^verbatim>\<open>%Q\<close> produce is one token of SQL.
  \<^item> \<^verbatim>\<open>Mem\<close>, \<^verbatim>\<open>MemInv\<close>: value cells and an invariant that every operation keeps, which gives the checks of
    \<^verbatim>\<open>sqlite3VdbeMemSanity\<close>.
  \<^item> \<^verbatim>\<open>RecordFormat\<close>: serial types, \<^verbatim>\<open>OP_MakeRecord\<close>, the comparison of records and the rowid of an index
    entry.
  \<^item> \<^verbatim>\<open>BtPage\<close>, \<^verbatim>\<open>BtSpace\<close>, \<^verbatim>\<open>BtCell\<close>, \<^verbatim>\<open>BtPageInv\<close>: the layout of a b-tree page in \<^verbatim>\<open>btree.c\<close>; the free blocks
    as a linked list in the page, the invariant \<open>space\<close>, and the refinement of a page to the list of its
    cells; the pointer map.

  \<^bold>\<open>Components together.\<close> The tokenizer's theorem about quoted text joins \<^verbatim>\<open>Printf\<close>, \<^verbatim>\<open>Token\<close> and \<^verbatim>\<open>Str\<close>;
  \<^verbatim>\<open>sqlite3_complete\<close> is related to the tokenizer; the comparison of records rests on the cells of \<^verbatim>\<open>Mem\<close> and
  on the integers of \<^verbatim>\<open>Varint\<close>; the cells of a page rest on \<^verbatim>\<open>Varint\<close>.

  \<^bold>\<open>Bounds and fuel.\<close> A walk through a keyword chain takes at most 117 steps, one for each of the 117
  entries of the generated table, whose links go to smaller indices. The rounds of the formatter are
  bounded by the length of the format plus one, since every round consumes a character. Loops that may
  run forever on corrupt data (the free list of a page) are partial functions with an optional result, and
  the theorems show the result on well-formed pages. The loop of the parser and the walk over free blocks
  in \<^verbatim>\<open>initPage\<close> have termination proofs. Pages are at most 32768 bytes, as the code requires.

  \<^bold>\<open>Not modelled.\<close> The interpreter loop of the virtual machine except for \<^verbatim>\<open>OP_MakeRecord\<close>, the pager, the
  cursors, balancing and transactions of the b-tree, and the code generator are state machines over a
  database file and a schema; they are left out, as are the SQL functions other than \<^verbatim>\<open>LIKE\<close> and \<^verbatim>\<open>GLOB\<close>. The generated parser and opcode names, the Windows layer,
  the shell, the bindings and the vendored regular-expression library are not the program's own core.
  Conversions between text and floating point are long double arithmetic and are arguments of the model.
\<close>

end
